(* ===== verification/Bt_Prelude.thy ===== *)
theory Bt_Prelude
  imports Main "HOL-Library.Word"
begin

unbundle bit_operations_syntax

text \<open>
  Shared vocabulary of the libbt development: bytes, the two ways the C program can be
  killed, sequencing of fallible steps, C integers and their big-endian wire form, and
  \<open>memcpy\<close> on lists of bytes.
\<close>

named_theorems bt_bind \<open>rules that take apart sequences of fallible steps\<close>
named_theorems bt_wf \<open>well-formedness is kept by an operation\<close>

section \<open>Bytes and outcomes\<close>

type_synonym byte = "8 word"

text \<open>
  \<open>Abort\<close> is the end of the process by \<open>die\<close>, \<open>assert\<close> or \<open>abort\<close>; \<open>Oob\<close> is undefined
  behaviour of C: an access outside an object, a null dereference, a shift by a negative
  amount.
\<close>

datatype fault = Abort | Oob

definition bindR :: "fault + 'a \<Rightarrow> ('a \<Rightarrow> fault + 'b) \<Rightarrow> fault + 'b" where
  "bindR m f = (case m of Inl e \<Rightarrow> Inl e | Inr x \<Rightarrow> f x)"

text \<open>The macro \<open>DIE_UNLESS(expr)\<close> of \<open>util.h\<close>, followed by the rest of the function.\<close>

definition die_unless :: "bool \<Rightarrow> fault + 'a \<Rightarrow> fault + 'a" where
  "die_unless b k = (if b then k else Inl Abort)"

lemma bindR_simps [simp, bt_bind]:
  "bindR (Inr x) f = f x"
  "bindR (Inl e) f = Inl e"
  by (simp_all add: bindR_def)

lemma bindR_Inr_iff [bt_bind]: "bindR m f = Inr y \<longleftrightarrow> (\<exists>x. m = Inr x \<and> f x = Inr y)"
  by (cases m) simp_all

lemma bindR_Inl_iff [bt_bind]:
  "bindR m f = Inl e \<longleftrightarrow> m = Inl e \<or> (\<exists>x. m = Inr x \<and> f x = Inl e)"
  by (cases m) simp_all

text \<open>Taking a sequence apart, with the result named when it is a pair or a triple.\<close>

lemma bindR_E: "bindR m f = Inr y \<Longrightarrow> (\<And>x. m = Inr x \<Longrightarrow> f x = Inr y \<Longrightarrow> P) \<Longrightarrow> P"
  by (auto simp: bindR_Inr_iff)

lemma bindR_pairE:
  "bindR m (\<lambda>(a, b). f a b) = Inr y \<Longrightarrow> (\<And>a b. m = Inr (a, b) \<Longrightarrow> f a b = Inr y \<Longrightarrow> P) \<Longrightarrow> P"
  by (auto simp: bindR_Inr_iff)

lemma bindR_tripleE:
  "bindR m (\<lambda>(a, b, c). f a b c) = Inr y \<Longrightarrow>
     (\<And>a b c. m = Inr (a, b, c) \<Longrightarrow> f a b c = Inr y \<Longrightarrow> P) \<Longrightarrow> P"
  by (auto simp: bindR_Inr_iff)

lemma die_unless_simps [simp, bt_bind]:
  "die_unless True k = k"
  "die_unless False k = Inl Abort"
  by (simp_all add: die_unless_def)

lemma die_unless_Inr_iff [bt_bind]: "die_unless b k = Inr y \<longleftrightarrow> b \<and> k = Inr y"
  by (simp add: die_unless_def)

lemma bindR_cong [fundef_cong]:
  "m = m' \<Longrightarrow> (\<And>x. m' = Inr x \<Longrightarrow> f x = f' x) \<Longrightarrow> bindR m f = bindR m' f'"
  by (cases m') simp_all

section \<open>C integers\<close>

text \<open>
  \<open>to_int32\<close> is the conversion to the 32-bit \<open>int\<close> of every platform the code targets
  (two's complement). \<open>c_div\<close> truncates towards zero as C does.
\<close>

definition to_int32 :: "int \<Rightarrow> int" where
  "to_int32 n = (n + 2147483648) mod 4294967296 - 2147483648"

definition int32_range :: "int \<Rightarrow> bool" where
  "int32_range n \<longleftrightarrow> - 2147483648 \<le> n \<and> n < 2147483648"

definition c_div :: "int \<Rightarrow> int \<Rightarrow> int" where
  "c_div a b = sgn a * sgn b * (\<bar>a\<bar> div \<bar>b\<bar>)"

definition c_mod :: "int \<Rightarrow> int \<Rightarrow> int" where
  "c_mod a b = a - b * c_div a b"

lemma to_int32_id [simp]: "int32_range n \<Longrightarrow> to_int32 n = n"
  by (simp add: to_int32_def int32_range_def)

lemma to_int32_range: "int32_range (to_int32 n)"
  by (simp add: to_int32_def int32_range_def)

lemma c_div_nonneg: "0 \<le> a \<Longrightarrow> 0 < b \<Longrightarrow> c_div a b = a div b"
  by (auto simp: c_div_def sgn_if)

lemma c_mod_nonneg: "0 \<le> a \<Longrightarrow> 0 < b \<Longrightarrow> c_mod a b = a mod b"
  by (simp add: c_mod_def c_div_nonneg minus_mult_div_eq_mod)

text \<open>
  \<open>memcpy\<close> of \<open>htonl(v)\<close> into a buffer puts the four bytes most significant first;
  \<open>ntohl\<close> of four such bytes, read into a signed \<open>int\<close>, gives the value back.
\<close>

definition be32 :: "int \<Rightarrow> byte list" where
  "be32 v = [word_of_int (v div 16777216), word_of_int (v div 65536),
             word_of_int (v div 256), word_of_int v]"

fun int32_of_be :: "byte list \<Rightarrow> int" where
  "int32_of_be [a, b, c, d] =
     to_int32 (uint a * 16777216 + uint b * 65536 + uint c * 256 + uint d)"
| "int32_of_be _ = 0"

lemma length_be32 [simp]: "length (be32 v) = 4"
  by (simp add: be32_def)

lemma int32_of_be_be32:
  assumes "int32_range v"
  shows "int32_of_be (be32 v) = v"
proof -
  have split: "(v div 16777216 mod 256) * 16777216 + (v div 65536 mod 256) * 65536
      + (v div 256 mod 256) * 256 + v mod 256 = v mod 4294967296"
    using zmod_zmult2_eq [of 256 v 256] zmod_zmult2_eq [of 256 v 65536]
      zmod_zmult2_eq [of 256 v 16777216] by simp
  have "to_int32 (v mod 4294967296) = v"
    using assms by (simp add: to_int32_def int32_range_def mod_simps)
  then show ?thesis
    by (simp add: be32_def uint_word_of_int take_bit_eq_mod split)
qed

section \<open>Arrays with checked accesses\<close>

definition arr_get :: "'a list \<Rightarrow> int \<Rightarrow> fault + 'a" where
  "arr_get xs i = (if 0 \<le> i \<and> nat i < length xs then Inr (xs ! nat i) else Inl Oob)"

definition arr_set :: "'a list \<Rightarrow> int \<Rightarrow> 'a \<Rightarrow> fault + 'a list" where
  "arr_set xs i v = (if 0 \<le> i \<and> nat i < length xs then Inr (xs[nat i := v]) else Inl Oob)"

lemma arr_get_ok [simp]: "i < length xs \<Longrightarrow> arr_get xs (int i) = Inr (xs ! i)"
  by (simp add: arr_get_def)

lemma arr_set_ok [simp]: "i < length xs \<Longrightarrow> arr_set xs (int i) v = Inr (xs[i := v])"
  by (simp add: arr_set_def)

lemma arr_get_Inr_iff [bt_bind]:
  "arr_get xs i = Inr v \<longleftrightarrow> 0 \<le> i \<and> nat i < length xs \<and> v = xs ! nat i"
  by (auto simp: arr_get_def)

lemma arr_set_Inr_iff [bt_bind]:
  "arr_set xs i v = Inr ys \<longleftrightarrow> 0 \<le> i \<and> nat i < length xs \<and> ys = xs[nat i := v]"
  by (auto simp: arr_set_def)

section \<open>Counting loops\<close>

text \<open>
  \<open>for (i = lo; i < hi; i++) body\<close> over an explicit state, and the loop that returns the
  first index with a property.
\<close>

function for_loop :: "nat \<Rightarrow> nat \<Rightarrow> (nat \<Rightarrow> 's \<Rightarrow> fault + 's) \<Rightarrow> 's \<Rightarrow> fault + 's" where
  "for_loop lo hi body s =
     (if lo < hi then bindR (body lo s) (\<lambda>s'. for_loop (Suc lo) hi body s') else Inr s)"
  by pat_completeness auto
termination
  by (relation "measure (\<lambda>(lo, hi, _, _). hi - lo)") auto

function find_loop :: "nat \<Rightarrow> nat \<Rightarrow> (nat \<Rightarrow> fault + bool) \<Rightarrow> fault + nat option" where
  "find_loop lo hi test =
     (if lo < hi then bindR (test lo) (\<lambda>b. if b then Inr (Some lo) else find_loop (Suc lo) hi test)
      else Inr None)"
  by pat_completeness auto
termination
  by (relation "measure (\<lambda>(lo, hi, _). hi - lo)") auto

declare for_loop.simps [simp del] find_loop.simps [simp del]

lemma for_loop_done [simp]: "hi \<le> lo \<Longrightarrow> for_loop lo hi body s = Inr s"
  by (subst for_loop.simps) simp

lemma for_loop_step [bt_bind]:
  "lo < hi \<Longrightarrow> for_loop lo hi body s = bindR (body lo s) (for_loop (Suc lo) hi body)"
  by (subst for_loop.simps) simp

lemma for_loop_inv:
  assumes "lo \<le> hi" and "P lo s"
    and "\<And>i t. lo \<le> i \<Longrightarrow> i < hi \<Longrightarrow> P i t \<Longrightarrow> \<exists>t'. body i t = Inr t' \<and> P (Suc i) t'"
  shows "\<exists>t. for_loop lo hi body s = Inr t \<and> P hi t"
  using assms
proof (induction "hi - lo" arbitrary: lo s)
  case 0
  then show ?case by simp
next
  case (Suc k)
  then have "lo < hi" by simp
  with Suc.prems obtain t where t: "body lo s = Inr t" and P: "P (Suc lo) t"
    by (metis order_refl)
  have "\<exists>u. for_loop (Suc lo) hi body t = Inr u \<and> P hi u"
    using Suc.hyps(2) \<open>lo < hi\<close> P Suc.prems(3) by (intro Suc.hyps(1)) auto
  with t \<open>lo < hi\<close> show ?case by (simp add: for_loop_step)
qed

lemma for_loop_invD:
  assumes "for_loop lo hi body s = Inr u" and "P lo s" and "lo \<le> hi"
    and "\<And>i t t'. lo \<le> i \<Longrightarrow> i < hi \<Longrightarrow> P i t \<Longrightarrow> body i t = Inr t' \<Longrightarrow> P (Suc i) t'"
  shows "P hi u"
  using assms
proof (induction "hi - lo" arbitrary: lo s)
  case 0
  then show ?case by simp
next
  case (Suc k)
  then have "lo < hi" by simp
  with Suc.prems(1) obtain t where t: "body lo s = Inr t" "for_loop (Suc lo) hi body t = Inr u"
    by (auto simp: for_loop_step bindR_Inr_iff)
  show ?case
    using Suc.hyps(2) \<open>lo < hi\<close> t(2) Suc.prems(4) [OF order_refl _ Suc.prems(2) t(1)] Suc.prems(4)
    by (intro Suc.hyps(1) [of "Suc lo" t]) auto
qed

lemma find_loop_result:
  assumes "\<And>i. lo \<le> i \<Longrightarrow> i < hi \<Longrightarrow> test i = Inr (Q i)"
  shows "find_loop lo hi test =
    Inr (if \<exists>i. lo \<le> i \<and> i < hi \<and> Q i then Some (LEAST i. lo \<le> i \<and> Q i) else None)"
  using assms
proof (induction "hi - lo" arbitrary: lo)
  case 0
  then show ?case by (subst find_loop.simps) auto
next
  case (Suc k)
  then have lt: "lo < hi" by simp
  show ?case
  proof (cases "Q lo")
    case True
    then have "(LEAST i. lo \<le> i \<and> Q i) = lo" by (intro Least_equality) auto
    with True lt Suc.prems [of lo] show ?thesis by (subst find_loop.simps) auto
  next
    case False
    have "find_loop (Suc lo) hi test =
      Inr (if \<exists>i. Suc lo \<le> i \<and> i < hi \<and> Q i then Some (LEAST i. Suc lo \<le> i \<and> Q i) else None)"
      using Suc lt by (intro Suc.hyps(1)) auto
    moreover have "lo \<le> i \<and> Q i \<longleftrightarrow> Suc lo \<le> i \<and> Q i" for i
      using False by (auto simp: Suc_le_eq order_le_less)
    ultimately show ?thesis
      using False lt Suc.prems [of lo] by (subst find_loop.simps) (auto simp: conj_commute)
  qed
qed

section \<open>What holds of a result\<close>

text \<open>A property of the result of a fallible step, when there is one, and how sequences carry it.\<close>

definition holds :: "('a \<Rightarrow> bool) \<Rightarrow> fault + 'a \<Rightarrow> bool" where
  "holds P m \<longleftrightarrow> (\<forall>x. m = Inr x \<longrightarrow> P x)"

lemma holds_simps [simp]: "holds P (Inl e)" "holds P (Inr x) \<longleftrightarrow> P x"
  by (simp_all add: holds_def)

lemma holdsI: "(\<And>x. m = Inr x \<Longrightarrow> P x) \<Longrightarrow> holds P m"
  by (simp add: holds_def)

lemma holdsD: "holds P m \<Longrightarrow> m = Inr x \<Longrightarrow> P x"
  by (simp add: holds_def)

lemma holds_bind: "holds Q m \<Longrightarrow> (\<And>x. m = Inr x \<Longrightarrow> Q x \<Longrightarrow> holds P (f x)) \<Longrightarrow> holds P (bindR m f)"
  by (auto simp: holds_def bindR_Inr_iff)

lemma holds_any: "(\<And>x. m = Inr x \<Longrightarrow> holds P (f x)) \<Longrightarrow> holds P (bindR m f)"
  by (auto simp: holds_def bindR_Inr_iff)

lemma holds_die_unless: "(b \<Longrightarrow> holds P k) \<Longrightarrow> holds P (die_unless b k)"
  by (simp add: holds_def die_unless_Inr_iff)

lemma holds_for_loop: "P s \<Longrightarrow> (\<And>i t. P t \<Longrightarrow> holds P (body i t)) \<Longrightarrow> holds P (for_loop lo hi body s)"
proof (induction lo hi body s rule: for_loop.induct)
  case (1 lo hi body s)
  then show ?case by (subst for_loop.simps) (auto intro: holds_bind [of P])
qed

text \<open>The total form, which also says that there is a result; it computes.\<close>

definition gives :: "('a \<Rightarrow> bool) \<Rightarrow> fault + 'a \<Rightarrow> bool" where
  "gives P m = (case m of Inl e \<Rightarrow> False | Inr x \<Rightarrow> P x)"

lemma gives_iff: "gives P m \<longleftrightarrow> (\<exists>x. m = Inr x \<and> P x)"
  by (auto simp: gives_def split: sum.split)

lemma gives_simps [simp]: "\<not> gives P (Inl e)" "gives P (Inr x) \<longleftrightarrow> P x"
  by (simp_all add: gives_def)

lemma gives_bind: "gives Q m \<Longrightarrow> (\<And>x. Q x \<Longrightarrow> gives P (f x)) \<Longrightarrow> gives P (bindR m f)"
  by (auto simp: gives_iff)

lemma gives_mono: "gives Q m \<Longrightarrow> (\<And>x. Q x \<Longrightarrow> P x) \<Longrightarrow> gives P m"
  by (auto simp: gives_iff)

lemma gives_conj: "gives P m \<Longrightarrow> gives Q m \<Longrightarrow> gives (\<lambda>x. P x \<and> Q x) m"
  by (auto simp: gives_iff)

lemma gives_for_loop:
  assumes "lo \<le> hi" and "P lo s"
    and "\<And>i t. lo \<le> i \<Longrightarrow> i < hi \<Longrightarrow> P i t \<Longrightarrow> gives (P (Suc i)) (body i t)"
  shows "gives (P hi) (for_loop lo hi body s)"
  using for_loop_inv [of lo hi P s body] assms by (simp add: gives_iff)

text \<open>The first index with a property that is free of faults.\<close>

definition first_index :: "nat \<Rightarrow> nat \<Rightarrow> (nat \<Rightarrow> bool) \<Rightarrow> nat option \<Rightarrow> bool" where
  "first_index lo hi Q r = (case r of
     None \<Rightarrow> \<forall>i. lo \<le> i \<and> i < hi \<longrightarrow> \<not> Q i
   | Some i \<Rightarrow> lo \<le> i \<and> i < hi \<and> Q i \<and> (\<forall>j. lo \<le> j \<and> j < i \<longrightarrow> \<not> Q j))"

lemma gives_find_loop:
  assumes "\<And>i. lo \<le> i \<Longrightarrow> i < hi \<Longrightarrow> test i = Inr (Q i)"
  shows "gives (first_index lo hi Q) (find_loop lo hi test)"
proof -
  have "lo \<le> (LEAST i. lo \<le> i \<and> Q i) \<and> Q (LEAST i. lo \<le> i \<and> Q i)"
    "(LEAST i. lo \<le> i \<and> Q i) < hi" if "lo \<le> i" "i < hi" "Q i" for i
    using that LeastI [of "\<lambda>i. lo \<le> i \<and> Q i" i] Least_le [of "\<lambda>i. lo \<le> i \<and> Q i" i] by auto
  then show ?thesis
    using find_loop_result [of lo hi test Q, OF assms]
    by (auto simp: first_index_def dest: not_less_Least)
qed

text \<open>The index a search has found, also when the tests can fault.\<close>

lemma find_loop_InrD:
  "find_loop lo hi test = Inr r \<Longrightarrow> (case r of
      None \<Rightarrow> \<forall>j. lo \<le> j \<and> j < hi \<longrightarrow> test j = Inr False
    | Some i \<Rightarrow> lo \<le> i \<and> i < hi \<and> test i = Inr True \<and> (\<forall>j. lo \<le> j \<and> j < i \<longrightarrow> test j = Inr False))"
proof (induction lo hi test rule: find_loop.induct)
  case (1 lo hi test)
  show ?case
  proof (cases "lo < hi")
    case True
    with 1(2) obtain b where b: "test lo = Inr b"
      "(if b then Inr (Some lo) else find_loop (Suc lo) hi test) = Inr r"
      by (subst (asm) find_loop.simps) (auto simp: bindR_Inr_iff)
    show ?thesis
    proof (cases b)
      case True
      with b \<open>lo < hi\<close> show ?thesis by auto
    next
      case False
      have step: "(\<forall>j. lo \<le> j \<and> j < n \<longrightarrow> test j = Inr False) \<longleftrightarrow> (\<forall>j. Suc lo \<le> j \<and> j < n \<longrightarrow> test j = Inr False)"
        if "lo < n" for n
        using b(1) False by (auto simp: Suc_le_eq) (metis le_neq_implies_less)
      show ?thesis
        using 1(1) [OF \<open>lo < hi\<close> b(1) False] b(2) False \<open>lo < hi\<close>
        by (auto simp: step split: option.splits)
    qed
  next
    case False
    with 1(2) show ?thesis by (subst (asm) find_loop.simps) auto
  qed
qed

section \<open>Copies into buffers\<close>

text \<open>\<open>memcpy(dst + off, src, n)\<close> where \<open>src\<close> is the list of the \<open>n\<close> bytes.\<close>

definition blit :: "'a list \<Rightarrow> nat \<Rightarrow> 'a list \<Rightarrow> 'a list" where
  "blit dst off src = take off dst @ src @ drop (off + length src) dst"

lemma length_blit [simp]: "off + length src \<le> length dst \<Longrightarrow> length (blit dst off src) = length dst"
  by (simp add: blit_def)

lemma nth_blit:
  assumes "off + length src \<le> length dst" and "i < length dst"
  shows "blit dst off src ! i =
    (if off \<le> i \<and> i < off + length src then src ! (i - off) else dst ! i)"
  using assms by (auto simp: blit_def nth_append)

lemma blit_whole: "length src = length dst \<Longrightarrow> blit dst 0 src = src"
  by (simp add: blit_def)

lemma blit_Nil [simp]: "blit dst off [] = dst"
  by (simp add: blit_def)

definition c_string :: "byte list \<Rightarrow> byte list" where
  "c_string bs = takeWhile (\<lambda>b. b \<noteq> 0) bs"

lemma c_string_id: "0 \<notin> set bs \<Longrightarrow> c_string bs = bs"
  by (auto simp: c_string_def takeWhile_eq_all_conv)

text \<open>ASCII text of the source as bytes.\<close>

definition ascii :: "string \<Rightarrow> byte list" where
  "ascii s = map (\<lambda>c. of_nat (of_char c)) s"

end
