(* ===== verification/Bt_Random.thy ===== *)
theory Bt_Random
  imports Bt_Prelude
begin

text \<open>
  \<open>rnd\<close> of \<open>random.c\<close>: a draw from \<open>0 .. randmax - 1\<close>. The generator behind it is the C
  library's \<open>drand48\<close>, a 48-bit linear congruential generator whose constants POSIX fixes;
  its state is passed explicitly. The product \<open>r * randmax\<close> is a \<open>double\<close>: it is rounded to
  53 significant bits, ties to even.
\<close>

type_synonym seed = nat

definition drand48_next :: "seed \<Rightarrow> seed" where
  "drand48_next x = (25214903917 * x + 11) mod 2 ^ 48"

fun bitlength :: "nat \<Rightarrow> nat" where
  "bitlength n = (if n = 0 then 0 else Suc (bitlength (n div 2)))"

declare bitlength.simps [simp del]

definition round_bits :: "nat \<Rightarrow> nat \<Rightarrow> nat" where
  "round_bits p n =
     (if bitlength n \<le> p then n
      else let k = bitlength n - p; q = n div 2 ^ k; r = n mod 2 ^ k; h = 2 ^ (k - 1)
           in (if h < r \<or> (r = h \<and> odd q) then q + 1 else q) * 2 ^ k)"

definition rnd :: "int \<Rightarrow> seed \<Rightarrow> int \<times> seed" where
  "rnd randmax x =
     (let x' = drand48_next x;
          rval = int (round_bits 53 (x' * nat randmax) div 2 ^ 48)
      in (if randmax \<le> rval \<or> rval < 0 then randmax - 1 else rval, x'))"

lemma rnd_range: "0 < m \<Longrightarrow> rnd m x = (v, x') \<Longrightarrow> 0 \<le> v \<and> v < m"
  by (auto simp: rnd_def Let_def split: if_splits)

end
