(* ===== verification/Bt_Bitset.thy ===== *)
theory Bt_Bitset
  imports Bt_Random
begin

text \<open>
  \<open>bitset.c\<close>: sets of piece (or byte) numbers as bits, most significant bit first. The
  abstraction \<open>bs_elems\<close> reads a \<open>kBitSet\<close> as a set of numbers below \<open>nbits\<close>; each operation
  is shown to be the set operation it stands for, and never to leave the allocation.
\<close>

section \<open>The structure and its operations\<close>

record kBitSet =
  nbits :: nat
  bits :: "byte list"

definition alloc_bytes :: "nat \<Rightarrow> nat" where
  "alloc_bytes n = (let b = (n + 7) div 8 in if n mod 8 \<noteq> 0 then b + 1 else b)"

definition kBitSet_create :: "nat \<Rightarrow> kBitSet" where
  "kBitSet_create n = \<lparr>nbits = n, bits = replicate (alloc_bytes n) 0\<rparr>"

definition kBitSet_createCopy :: "kBitSet \<Rightarrow> fault + kBitSet" where
  "kBitSet_createCopy orig =
     for_loop 0 ((nbits orig + 7) div 8)
       (\<lambda>i copy. bindR (arr_get (bits orig) (int i)) (\<lambda>b.
          bindR (arr_set (bits copy) (int i) b) (\<lambda>bs. Inr (copy\<lparr>bits := bs\<rparr>))))
       (kBitSet_create (nbits orig))"

definition kBitSet_readBytes :: "kBitSet \<Rightarrow> byte list \<Rightarrow> int \<Rightarrow> fault + kBitSet" where
  "kBitSet_readBytes s src len =
     die_unless (len \<le> int ((nbits s + 7) div 8))
       (for_loop 0 (nat len)
         (\<lambda>i t. bindR (arr_get src (int i)) (\<lambda>b.
            bindR (arr_set (bits t) (int i) b) (\<lambda>bs. Inr (t\<lparr>bits := bs\<rparr>)))) s)"

text \<open>
  \<open>mask\<close> is \<open>0x80 >> (bit % 8)\<close>. A negative bit number shifts by a negative amount or reads
  before the array: both are undefined, and \<open>bit div 8\<close> is then a negative index.
\<close>

definition bs_mask :: "int \<Rightarrow> byte" where
  "bs_mask n = drop_bit (nat (n mod 8)) 128"

definition bs_set :: "kBitSet \<Rightarrow> int \<Rightarrow> fault + kBitSet" where
  "bs_set s n =
     bindR (arr_get (bits s) (n div 8)) (\<lambda>b.
     bindR (arr_set (bits s) (n div 8) (b OR bs_mask n)) (\<lambda>bs.
     Inr (s\<lparr>bits := bs\<rparr>)))"

definition bs_clr :: "kBitSet \<Rightarrow> int \<Rightarrow> fault + kBitSet" where
  "bs_clr s n =
     bindR (arr_get (bits s) (n div 8)) (\<lambda>b.
     bindR (arr_set (bits s) (n div 8) (b AND NOT (bs_mask n))) (\<lambda>bs.
     Inr (s\<lparr>bits := bs\<rparr>)))"

definition bs_isSet :: "kBitSet \<Rightarrow> int \<Rightarrow> fault + bool" where
  "bs_isSet s n = bindR (arr_get (bits s) (n div 8)) (\<lambda>b. Inr (b AND bs_mask n \<noteq> 0))"

definition bs_and :: "kBitSet \<Rightarrow> kBitSet \<Rightarrow> kBitSet \<Rightarrow> fault + kBitSet" where
  "bs_and res a b =
     die_unless (nbits a = nbits b) (
     die_unless (nbits res = nbits b) (
     for_loop 0 ((nbits a + 7) div 8)
       (\<lambda>n r. bindR (arr_get (bits a) (int n)) (\<lambda>x. bindR (arr_get (bits b) (int n)) (\<lambda>y.
          bindR (arr_set (bits r) (int n) (x AND y)) (\<lambda>bs. Inr (r\<lparr>bits := bs\<rparr>))))) res))"

definition bs_not :: "kBitSet \<Rightarrow> kBitSet \<Rightarrow> fault + kBitSet" where
  "bs_not res a =
     die_unless (nbits res = nbits a) (
     for_loop 0 ((nbits a + 7) div 8)
       (\<lambda>n r. bindR (arr_get (bits a) (int n)) (\<lambda>x.
          bindR (arr_set (bits r) (int n) (NOT x)) (\<lambda>bs. Inr (r\<lparr>bits := bs\<rparr>)))) res)"

definition bstest_mask :: "byte list" where
  "bstest_mask = [0xff, 0x80, 0xc0, 0xe0, 0xf0, 0xf8, 0xfc, 0xfe]"

definition bs_isEmpty :: "kBitSet \<Rightarrow> fault + bool" where
  "bs_isEmpty a =
     (let bytes = (nbits a + 7) div 8 in
      bindR (find_loop 0 (bytes - 1)
               (\<lambda>n. bindR (arr_get (bits a) (int n)) (\<lambda>b. Inr (b \<noteq> 0)))) (\<lambda>found.
      case found of Some n \<Rightarrow> Inr False
      | None \<Rightarrow>
          bindR (arr_get (bits a) (int bytes - 1)) (\<lambda>b.
          Inr (b AND bstest_mask ! (nbits a mod 8) = 0))))"

definition bs_isFull :: "kBitSet \<Rightarrow> fault + bool" where
  "bs_isFull a = bindR (bs_not (kBitSet_create (nbits a)) a) bs_isEmpty"

definition bs_firstClr :: "kBitSet \<Rightarrow> fault + int" where
  "bs_firstClr a =
     bindR (find_loop 0 (nbits a) (\<lambda>i. bindR (bs_isSet a (int i)) (\<lambda>b. Inr (\<not> b)))) (\<lambda>r.
     case r of Some i \<Rightarrow> Inr (int i) | None \<Rightarrow> Inr 0)"

text \<open>The loop of \<open>bs_setRange\<close> writes a whole byte and skips eight bits where it can.\<close>

function bs_setRange :: "kBitSet \<Rightarrow> int \<Rightarrow> int \<Rightarrow> fault + kBitSet" where
  "bs_setRange s n endplus1 =
     (if n < endplus1 then
        if n mod 8 = 0 \<and> n + 8 < endplus1 then
          bindR (arr_set (bits s) (n div 8) 0xff) (\<lambda>bs.
            bs_setRange (s\<lparr>bits := bs\<rparr>) (n + 7 + 1) endplus1)
        else bindR (bs_set s n) (\<lambda>s'. bs_setRange s' (n + 1) endplus1)
      else Inr s)"
  by pat_completeness auto
termination
  by (relation "measure (\<lambda>(s, n, e). nat (e - n))") auto

declare bs_setRange.simps [simp del]

definition bs_getSparseSet :: "kBitSet \<Rightarrow> fault + int list" where
  "bs_getSparseSet a =
     for_loop 0 (nbits a)
       (\<lambda>n d. bindR (bs_isSet a (int n)) (\<lambda>b. Inr (if b then d @ [int n] else d))) []"

definition bs_countBits :: "kBitSet \<Rightarrow> fault + nat" where
  "bs_countBits a =
     for_loop 0 (nbits a)
       (\<lambda>n count. bindR (bs_isSet a (int n)) (\<lambda>b. Inr (if b then count + 1 else count))) 0"

definition bs_hasInteresting :: "kBitSet \<Rightarrow> kBitSet \<Rightarrow> kBitSet \<Rightarrow> fault + bool" where
  "bs_hasInteresting reqs peer intr =
     bindR (bs_not (kBitSet_create (nbits peer)) reqs) (\<lambda>r.
     bindR (bs_and r r peer) (\<lambda>r.
     bindR (bs_and r r intr) (\<lambda>r.
     bindR (bs_isEmpty r) (\<lambda>e. Inr (\<not> e)))))"

definition bs_pickblock :: "kBitSet \<Rightarrow> kBitSet \<Rightarrow> kBitSet \<Rightarrow> seed \<Rightarrow> fault + int \<times> seed" where
  "bs_pickblock reqs peer intr x =
     bindR (bs_not (kBitSet_create (nbits peer)) reqs) (\<lambda>r.
     bindR (bs_and r r peer) (\<lambda>r.
     bindR (bs_and r r intr) (\<lambda>r.
     bindR (bs_isEmpty r) (\<lambda>e.
     if e then Inr (-1, x)
     else bindR (bs_getSparseSet r) (\<lambda>picks.
       die_unless (length picks \<noteq> 0)
         (let (k, x') = rnd (int (length picks)) x
          in bindR (arr_get picks k) (\<lambda>block. Inr (block, x'))))))))"

section \<open>The set a bitset stands for\<close>

definition bs_wf :: "kBitSet \<Rightarrow> bool" where
  "bs_wf s \<longleftrightarrow> length (bits s) = alloc_bytes (nbits s)"

definition bs_test :: "kBitSet \<Rightarrow> nat \<Rightarrow> bool" where
  "bs_test s i = bit (bits s ! (i div 8)) (7 - i mod 8)"

definition bs_elems :: "kBitSet \<Rightarrow> nat set" where
  "bs_elems s = {i. i < nbits s \<and> bs_test s i}"

lemma alloc_bytes_bound: "(n + 7) div 8 \<le> alloc_bytes n"
  by (simp add: alloc_bytes_def Let_def)

lemma bs_wf_index: "bs_wf s \<Longrightarrow> i < nbits s \<Longrightarrow> i div 8 < length (bits s)"
  using alloc_bytes_bound [of "nbits s"] by (simp add: bs_wf_def)

lemma bs_wf_bytes: "bs_wf s \<Longrightarrow> i < (nbits s + 7) div 8 \<Longrightarrow> i < length (bits s)"
  using alloc_bytes_bound [of "nbits s"] by (simp add: bs_wf_def)

lemma bs_elems_less: "i \<in> bs_elems s \<Longrightarrow> i < nbits s"
  by (simp add: bs_elems_def)

lemma finite_bs_elems [simp]: "finite (bs_elems s)"
  by (rule finite_subset [of _ "{..<nbits s}"]) (auto simp: bs_elems_def)

lemma bit_mask:
  assumes "k < 8"
  shows "bit (drop_bit k (128 :: byte)) j \<longleftrightarrow> j = 7 - k"
proof -
  have "(128 :: byte) = push_bit 7 1" by simp
  then have "bit (drop_bit k (128 :: byte)) j \<longleftrightarrow> k + j = 7"
    by (simp only: bit_drop_bit_eq o_apply bit_push_bit_iff) (auto simp: bit_1_iff)
  with assms show ?thesis by auto
qed

lemma bit_bs_mask: "bit (bs_mask (int n)) j \<longleftrightarrow> j = 7 - n mod 8"
proof -
  have "nat (int n mod 8) = n mod 8" by (simp add: nat_mod_distrib)
  then show ?thesis by (simp only: bs_mask_def) (rule bit_mask, simp)
qed

lemma and_mask_nonzero: "b AND bs_mask (int n) \<noteq> 0 \<longleftrightarrow> bit b (7 - n mod 8)"
proof -
  have "b AND bs_mask (int n) = 0 \<longleftrightarrow> (\<forall>j. \<not> bit (b AND bs_mask (int n)) j)"
    by (auto intro: bit_eqI)
  then show ?thesis by (auto simp: bit_and_iff bit_bs_mask)
qed

lemma bs_isSet_eq [simp]:
  "bs_wf s \<Longrightarrow> n < nbits s \<Longrightarrow> bs_isSet s (int n) = Inr (bs_test s n)"
  using bs_wf_index [of s n]
  by (simp add: bs_isSet_def arr_get_def bs_test_def and_mask_nonzero nat_div_distrib)

lemma bs_test_update:
  assumes "i div 8 < length (bits s)" and "n div 8 < length (bits s)"
    and "\<And>j. j < 8 \<Longrightarrow> bit v j = (if j = 7 - n mod 8 then B else bit (bits s ! (n div 8)) j)"
  shows "bs_test (s\<lparr>bits := (bits s)[n div 8 := v]\<rparr>) i = (if i = n then B else bs_test s i)"
proof (cases "i div 8 = n div 8")
  case True
  have "7 - i mod 8 < 8" by simp
  moreover have "7 - i mod 8 = 7 - n mod 8 \<longleftrightarrow> i = n"
  proof -
    have "7 - i mod 8 = 7 - n mod 8 \<longleftrightarrow> i mod 8 = n mod 8"
      using mod_less_divisor [of 8 i] mod_less_divisor [of 8 n] by arith
    moreover have "i mod 8 = n mod 8 \<longleftrightarrow> i = n"
      using True by (metis div_mult_mod_eq)
    ultimately show ?thesis by simp
  qed
  ultimately show ?thesis
    using True assms by (auto simp: bs_test_def)
next
  case False
  with assms show ?thesis by (auto simp: bs_test_def)
qed

lemma bs_set_eq:
  assumes "bs_wf s" and "n < nbits s"
  shows "bs_set s (int n) =
    Inr (s\<lparr>bits := (bits s)[n div 8 := bits s ! (n div 8) OR bs_mask (int n)]\<rparr>)"
  using bs_wf_index [OF assms] by (simp add: bs_set_def arr_get_def arr_set_def nat_div_distrib)

lemma bs_clr_eq:
  assumes "bs_wf s" and "n < nbits s"
  shows "bs_clr s (int n) =
    Inr (s\<lparr>bits := (bits s)[n div 8 := bits s ! (n div 8) AND NOT (bs_mask (int n))]\<rparr>)"
  using bs_wf_index [OF assms] by (simp add: bs_clr_def arr_get_def arr_set_def nat_div_distrib)

lemma bs_set_spec:
  assumes "bs_wf s" and "n < nbits s"
  shows "\<exists>t. bs_set s (int n) = Inr t \<and> bs_wf t \<and> nbits t = nbits s \<and>
    bs_elems t = insert n (bs_elems s)"
proof -
  let ?t = "s\<lparr>bits := (bits s)[n div 8 := bits s ! (n div 8) OR bs_mask (int n)]\<rparr>"
  have "bs_test ?t i = (if i = n then True else bs_test s i)" if "i < nbits s" for i
    using bs_wf_index [OF assms] bs_wf_index [OF assms(1) that]
    by (intro bs_test_update) (auto simp: bit_or_iff bit_bs_mask)
  then have "bs_elems ?t = insert n (bs_elems s)"
    using assms(2) by (auto simp: bs_elems_def)
  moreover have "bs_wf ?t" using assms(1) by (simp add: bs_wf_def)
  ultimately show ?thesis using bs_set_eq [OF assms] by simp
qed

lemma bs_clr_spec:
  assumes "bs_wf s" and "n < nbits s"
  shows "\<exists>t. bs_clr s (int n) = Inr t \<and> bs_wf t \<and> nbits t = nbits s \<and>
    bs_elems t = bs_elems s - {n}"
proof -
  let ?t = "s\<lparr>bits := (bits s)[n div 8 := bits s ! (n div 8) AND NOT (bs_mask (int n))]\<rparr>"
  have "bs_test ?t i = (if i = n then False else bs_test s i)" if "i < nbits s" for i
    using bs_wf_index [OF assms] bs_wf_index [OF assms(1) that]
    by (intro bs_test_update) (auto simp: bit_and_iff bit_not_iff bit_bs_mask)
  then have "bs_elems ?t = bs_elems s - {n}"
    by (auto simp: bs_elems_def split: if_splits)
  moreover have "bs_wf ?t" using assms(1) by (simp add: bs_wf_def)
  ultimately show ?thesis using bs_clr_eq [OF assms] by simp
qed

lemma bs_test_byte: "bs_test s i = bit (bits s ! (i div 8)) (7 - i mod 8)"
  by (simp add: bs_test_def)

lemma byte_of_bit: "i < n \<Longrightarrow> i div 8 < (n + 7) div (8::nat)"
  by simp

lemma bs_wf_create [simp, bt_wf]: "bs_wf (kBitSet_create n)"
  by (simp add: bs_wf_def kBitSet_create_def)

lemma nbits_create [simp]: "nbits (kBitSet_create n) = n"
  by (simp add: kBitSet_create_def)

lemma bs_elems_create [simp]: "bs_elems (kBitSet_create n) = {}"
proof -
  have "i div 8 < alloc_bytes n" if "i < n" for i
    using alloc_bytes_bound [of n] byte_of_bit [OF that] by simp
  then show ?thesis by (auto simp: bs_elems_def bs_test_def kBitSet_create_def)
qed

section \<open>Bytewise operations\<close>

text \<open>All three bytewise loops (\<open>bs_and\<close>, \<open>bs_not\<close>, the copies) store \<open>f i\<close> at byte \<open>i\<close>.\<close>

lemma byte_loop:
  assumes "n \<le> length (bits r)"
    and "\<And>i t. i < n \<Longrightarrow> length (bits t) = length (bits r) \<Longrightarrow>
      body i t = Inr (t\<lparr>bits := (bits t)[i := f i]\<rparr>)"
  shows "\<exists>t. for_loop 0 n body r = Inr t \<and> nbits t = nbits r \<and>
    length (bits t) = length (bits r) \<and> (\<forall>i < n. bits t ! i = f i)"
proof -
  let ?P = "\<lambda>k t. nbits t = nbits r \<and> length (bits t) = length (bits r) \<and>
    (\<forall>i < k. bits t ! i = f i)"
  have "\<exists>t. for_loop 0 n body r = Inr t \<and> ?P n t"
    using assms by (intro for_loop_inv [where P = ?P]) (auto simp: less_Suc_eq)
  then show ?thesis by blast
qed

lemma bs_elems_bytes:
  assumes "\<forall>j < (nbits t + 7) div 8. bits t ! j = f j"
  shows "bs_elems t = {i. i < nbits t \<and> bit (f (i div 8)) (7 - i mod 8)}"
  using assms byte_of_bit by (auto simp: bs_elems_def bs_test_def)

lemma bs_not_spec:
  assumes "bs_wf res" and "bs_wf a" and "nbits res = nbits a"
  shows "\<exists>t. bs_not res a = Inr t \<and> bs_wf t \<and> nbits t = nbits a \<and>
    bs_elems t = {..<nbits a} - bs_elems a"
proof -
  let ?n = "(nbits a + 7) div 8"
  have "\<exists>t. bs_not res a = Inr t \<and> nbits t = nbits res \<and>
    length (bits t) = length (bits res) \<and> (\<forall>i < ?n. bits t ! i = NOT (bits a ! i))"
    using byte_loop [where n = ?n and r = res and f = "\<lambda>i. NOT (bits a ! i)" and
        body = "\<lambda>n r. bindR (arr_get (bits a) (int n)) (\<lambda>x.
          bindR (arr_set (bits r) (int n) (NOT x)) (\<lambda>bs. Inr (r\<lparr>bits := bs\<rparr>)))"]
      assms bs_wf_bytes [of a] alloc_bytes_bound [of "nbits a"]
    by (simp add: bs_not_def bs_wf_def)
  then obtain t where t: "bs_not res a = Inr t" "nbits t = nbits a"
    "length (bits t) = length (bits res)" "\<forall>i < ?n. bits t ! i = NOT (bits a ! i)"
    using assms by auto
  then have "bs_elems t = {..<nbits a} - bs_elems a"
    by (subst bs_elems_bytes [where f = "\<lambda>i. NOT (bits a ! i)"])
      (auto simp: bit_not_iff bs_elems_def bs_test_def)
  with t assms show ?thesis by (auto simp: bs_wf_def)
qed

lemma bs_and_spec:
  assumes "bs_wf res" and "bs_wf a" and "bs_wf b"
    and "nbits res = nbits b" and "nbits a = nbits b"
  shows "\<exists>t. bs_and res a b = Inr t \<and> bs_wf t \<and> nbits t = nbits b \<and>
    bs_elems t = bs_elems a \<inter> bs_elems b"
proof -
  let ?n = "(nbits b + 7) div 8"
  have "\<exists>t. bs_and res a b = Inr t \<and> nbits t = nbits res \<and>
    length (bits t) = length (bits res) \<and> (\<forall>i < ?n. bits t ! i = bits a ! i AND bits b ! i)"
    using byte_loop [where n = ?n and r = res and f = "\<lambda>i. bits a ! i AND bits b ! i" and
        body = "\<lambda>n r. bindR (arr_get (bits a) (int n)) (\<lambda>x. bindR (arr_get (bits b) (int n)) (\<lambda>y.
          bindR (arr_set (bits r) (int n) (x AND y)) (\<lambda>bs. Inr (r\<lparr>bits := bs\<rparr>))))"]
      assms bs_wf_bytes [of a] bs_wf_bytes [of b] alloc_bytes_bound [of "nbits b"]
    by (simp add: bs_and_def bs_wf_def)
  then obtain t where t: "bs_and res a b = Inr t" "nbits t = nbits b"
    "length (bits t) = length (bits res)" "\<forall>i < ?n. bits t ! i = bits a ! i AND bits b ! i"
    using assms by auto
  then have "bs_elems t = bs_elems a \<inter> bs_elems b"
    using assms(5) by (subst bs_elems_bytes [where f = "\<lambda>i. bits a ! i AND bits b ! i"])
      (auto simp: bit_and_iff bs_elems_def bs_test_def)
  with t assms show ?thesis by (auto simp: bs_wf_def)
qed

lemma kBitSet_createCopy_spec:
  assumes "bs_wf s"
  shows "\<exists>t. kBitSet_createCopy s = Inr t \<and> bs_wf t \<and> nbits t = nbits s \<and> bs_elems t = bs_elems s"
proof -
  let ?n = "(nbits s + 7) div 8"
  have "\<exists>t. kBitSet_createCopy s = Inr t \<and> nbits t = nbits (kBitSet_create (nbits s)) \<and>
    length (bits t) = length (bits (kBitSet_create (nbits s))) \<and> (\<forall>i < ?n. bits t ! i = bits s ! i)"
    using assms bs_wf_bytes [of s] alloc_bytes_bound [of "nbits s"]
    unfolding kBitSet_createCopy_def
    by (intro byte_loop) (auto simp: bs_wf_def kBitSet_create_def)
  then obtain t where t: "kBitSet_createCopy s = Inr t" "nbits t = nbits s"
    "length (bits t) = alloc_bytes (nbits s)" "\<forall>i < ?n. bits t ! i = bits s ! i"
    by (auto simp: kBitSet_create_def)
  moreover have "bs_elems t = bs_elems s"
    using t by (subst bs_elems_bytes [where f = "\<lambda>i. bits s ! i"]) (auto simp: bs_elems_def bs_test_def)
  ultimately show ?thesis by (auto simp: bs_wf_def)
qed

section \<open>Emptiness, fullness, counting\<close>

lemma byte_zero_iff: "(b :: byte) = 0 \<longleftrightarrow> (\<forall>j < 8. \<not> bit b j)"
  by (auto intro!: bit_word_eqI)

lemma bit_bstest_mask:
  assumes "r < 8" and "j < 8"
  shows "bit (bstest_mask ! r) j \<longleftrightarrow> r = 0 \<or> 8 - r \<le> j"
proof -
  have "\<forall>r \<in> set [0..<8]. \<forall>j \<in> set [0..<8]. bit (bstest_mask ! r) j \<longleftrightarrow> r = 0 \<or> 8 - r \<le> j"
    by (simp add: bstest_mask_def upt_rec)
  with assms show ?thesis by simp
qed

lemma bit_in_range:
  assumes "0 < (n::nat)" and "j < 8"
  shows "8 * k + (7 - j) < n \<longleftrightarrow>
    k < (n + 7) div 8 - 1 \<or> (k = (n + 7) div 8 - 1 \<and> (n mod 8 = 0 \<or> 8 - n mod 8 \<le> j))"
proof -
  define q r where "q = n div 8" and "r = n mod 8"
  then have n: "n = 8 * q + r" "r < 8" by auto
  show ?thesis
  proof (cases "r = 0")
    case True
    then have "(n + 7) div 8 - 1 = q - 1" "0 < q" using n assms(1) by auto
    with True n assms(2) show ?thesis by auto
  next
    case False
    then have "(n + 7) div 8 - 1 = q" using n by auto
    with False n assms(2) show ?thesis by auto
  qed
qed

lemma bs_elems_empty_iff:
  assumes "0 < nbits a"
  shows "bs_elems a = {} \<longleftrightarrow>
    (\<forall>k < (nbits a + 7) div 8 - 1. bits a ! k = 0) \<and>
    bits a ! ((nbits a + 7) div 8 - 1) AND bstest_mask ! (nbits a mod 8) = 0" (is "?L \<longleftrightarrow> ?R")
proof -
  let ?m = "(nbits a + 7) div 8 - 1" and ?r = "nbits a mod 8"
  have idx: "(8 * k + (7 - j)) div 8 = k \<and> 7 - (8 * k + (7 - j)) mod 8 = j" if "j < 8" for k j :: nat
    using that by (simp only: div_mult_self4 mod_mult_self4) auto
  have "?L \<longleftrightarrow> (\<forall>k j. j < 8 \<and> 8 * k + (7 - j) < nbits a \<longrightarrow> \<not> bit (bits a ! k) j)"
  proof (intro iffI allI impI)
    fix k j assume "bs_elems a = {}" and h: "j < 8 \<and> 8 * k + (7 - j) < nbits a"
    then show "\<not> bit (bits a ! k) j" using idx [of j k] by (auto simp: bs_elems_def bs_test_def)
  next
    assume R: "\<forall>k j. j < 8 \<and> 8 * k + (7 - j) < nbits a \<longrightarrow> \<not> bit (bits a ! k) j"
    have "\<not> bs_test a i" if "i < nbits a" for i
      using R [rule_format, of "7 - i mod 8" "i div 8"] that
      by (simp add: bs_test_def)
    then show "bs_elems a = {}" by (auto simp: bs_elems_def)
  qed
  also have "\<dots> \<longleftrightarrow> (\<forall>k j. j < 8 \<and> (k < ?m \<or> k = ?m \<and> (?r = 0 \<or> 8 - ?r \<le> j)) \<longrightarrow>
      \<not> bit (bits a ! k) j)"
    by (simp only: bit_in_range [OF assms] cong: conj_cong)
  also have "\<dots> \<longleftrightarrow> (\<forall>k < ?m. \<forall>j < 8. \<not> bit (bits a ! k) j) \<and>
      (\<forall>j < 8. ?r = 0 \<or> 8 - ?r \<le> j \<longrightarrow> \<not> bit (bits a ! ?m) j)"
    by auto
  also have "\<dots> \<longleftrightarrow> ?R"
    using bit_bstest_mask [of ?r] by (auto simp: byte_zero_iff bit_and_iff)
  finally show ?thesis .
qed

lemma bs_isEmpty_spec:
  assumes "bs_wf a" and "0 < nbits a"
  shows "bs_isEmpty a = Inr (bs_elems a = {})"
proof -
  let ?m = "(nbits a + 7) div 8"
  have m: "0 < ?m" "int ?m - 1 = int (?m - 1)" using assms(2) by auto
  have "find_loop 0 (?m - 1) (\<lambda>n. bindR (arr_get (bits a) (int n)) (\<lambda>b. Inr (b \<noteq> 0))) =
    Inr (if \<exists>i. 0 \<le> i \<and> i < ?m - 1 \<and> bits a ! i \<noteq> 0
         then Some (LEAST i. 0 \<le> i \<and> bits a ! i \<noteq> 0) else None)"
    using bs_wf_bytes [OF assms(1)] by (intro find_loop_result) auto
  moreover have "arr_get (bits a) (int (?m - 1)) = Inr (bits a ! (?m - 1))"
    using bs_wf_bytes [OF assms(1), of "?m - 1"] m by (intro arr_get_ok) simp
  ultimately show ?thesis
    unfolding bs_isEmpty_def Let_def m(2) using bs_elems_empty_iff [OF assms(2)] by auto
qed

lemma bs_isFull_spec:
  assumes "bs_wf a" and "0 < nbits a"
  shows "bs_isFull a = Inr (bs_elems a = {..<nbits a})"
proof -
  obtain t where t: "bs_not (kBitSet_create (nbits a)) a = Inr t" "bs_wf t" "nbits t = nbits a"
    "bs_elems t = {..<nbits a} - bs_elems a"
    using bs_not_spec [of "kBitSet_create (nbits a)" a] assms by auto
  have "bs_elems t = {} \<longleftrightarrow> bs_elems a = {..<nbits a}"
    using bs_elems_less [of _ a] by (auto simp: t(4))
  then show ?thesis using bs_isEmpty_spec [of t] t assms(2) by (simp add: bs_isFull_def)
qed

lemma bs_isEmpty_zero: "nbits a = 0 \<Longrightarrow> bs_isEmpty a = Inl Oob"
  by (simp add: bs_isEmpty_def arr_get_def find_loop.simps)

lemma bs_firstClr_spec:
  assumes "bs_wf a"
  shows "bs_firstClr a =
    Inr (if bs_elems a = {..<nbits a} then 0 else int (LEAST i. i \<notin> bs_elems a))"
proof -
  have loop: "find_loop 0 (nbits a) (\<lambda>i. bindR (bs_isSet a (int i)) (\<lambda>b. Inr (\<not> b))) =
    Inr (if \<exists>i. 0 \<le> i \<and> i < nbits a \<and> \<not> bs_test a i
         then Some (LEAST i. 0 \<le> i \<and> \<not> bs_test a i) else None)"
    using assms by (intro find_loop_result) simp
  have ex: "(\<exists>i. 0 \<le> i \<and> i < nbits a \<and> \<not> bs_test a i) \<longleftrightarrow> bs_elems a \<noteq> {..<nbits a}"
    by (auto simp: bs_elems_def)
  have "(LEAST i. 0 \<le> i \<and> \<not> bs_test a i) = (LEAST i. i \<notin> bs_elems a)"
    if "j < nbits a" "\<not> bs_test a j" for j
  proof (rule Least_equality [symmetric])
    let ?l = "LEAST i. 0 \<le> i \<and> \<not> bs_test a i"
    have l: "\<not> bs_test a ?l" "?l \<le> j"
      using LeastI [of "\<lambda>i. 0 \<le> i \<and> \<not> bs_test a i" j] Least_le [of "\<lambda>i. 0 \<le> i \<and> \<not> bs_test a i" j] that
      by auto
    then show "?l \<notin> bs_elems a" by (simp add: bs_elems_def)
    fix y assume "y \<notin> bs_elems a"
    then have "\<not> y < nbits a \<or> \<not> bs_test a y" by (auto simp: bs_elems_def)
    then show "?l \<le> y"
      using l that by (auto intro: Least_le)
  qed
  then show ?thesis unfolding bs_firstClr_def loop ex using ex by auto
qed

lemma bs_countBits_spec:
  assumes "bs_wf a"
  shows "bs_countBits a = Inr (card (bs_elems a))"
proof -
  have "\<exists>c. bs_countBits a = Inr c \<and> c = card {i. i < nbits a \<and> bs_test a i}"
    unfolding bs_countBits_def
  proof (rule for_loop_inv [where P = "\<lambda>k c. c = card {i. i < k \<and> bs_test a i}"])
    fix k c assume "k < nbits a" and c: "c = card {i. i < k \<and> bs_test a i}"
    have "{i. i < Suc k \<and> bs_test a i} =
      (if bs_test a k then insert k {i. i < k \<and> bs_test a i} else {i. i < k \<and> bs_test a i})"
      by (auto simp: less_Suc_eq)
    then show "\<exists>c'. bindR (bs_isSet a (int k)) (\<lambda>b. Inr (if b then c + 1 else c)) = Inr c' \<and>
      c' = card {i. i < Suc k \<and> bs_test a i}"
      using assms \<open>k < nbits a\<close> c by simp
  qed auto
  then show ?thesis by (simp add: bs_elems_def)
qed

lemma bs_getSparseSet_spec:
  assumes "bs_wf a"
  shows "bs_getSparseSet a = Inr (map int (filter (bs_test a) [0..<nbits a]))"
proof -
  have "\<exists>d. bs_getSparseSet a = Inr d \<and> d = map int (filter (bs_test a) [0..<nbits a])"
    unfolding bs_getSparseSet_def
    by (rule for_loop_inv [where P = "\<lambda>k d. d = map int (filter (bs_test a) [0..<k])"])
      (use assms in auto)
  then show ?thesis by simp
qed

section \<open>Choosing a block\<close>

text \<open>Both choosers compute the same set of candidates first.\<close>

lemma candidates:
  assumes "bs_wf reqs" "bs_wf peer" "bs_wf intr"
    and "nbits reqs = nbits peer" "nbits intr = nbits peer"
  obtains r1 r2 r where "bs_not (kBitSet_create (nbits peer)) reqs = Inr r1"
    and "bs_and r1 r1 peer = Inr r2" and "bs_and r2 r2 intr = Inr r"
    and "bs_wf r" and "nbits r = nbits peer"
    and "bs_elems r = bs_elems peer \<inter> bs_elems intr - bs_elems reqs"
proof -
  obtain r1 where r1: "bs_not (kBitSet_create (nbits peer)) reqs = Inr r1" "bs_wf r1"
    "nbits r1 = nbits peer" "bs_elems r1 = {..<nbits peer} - bs_elems reqs"
    using bs_not_spec [of "kBitSet_create (nbits peer)" reqs] assms by auto
  obtain r2 where r2: "bs_and r1 r1 peer = Inr r2" "bs_wf r2" "nbits r2 = nbits peer"
    "bs_elems r2 = bs_elems r1 \<inter> bs_elems peer"
    using bs_and_spec [of r1 r1 peer] r1 assms by auto
  obtain r where r: "bs_and r2 r2 intr = Inr r" "bs_wf r" "nbits r = nbits peer"
    "bs_elems r = bs_elems r2 \<inter> bs_elems intr"
    using bs_and_spec [of r2 r2 intr] r2 assms by auto
  show thesis
    using that [OF r1(1) r2(1) r(1) r(2) r(3)] r(4) r2(4) r1(4) bs_elems_less [of _ peer] by auto
qed

lemma bs_hasInteresting_spec:
  assumes "bs_wf reqs" "bs_wf peer" "bs_wf intr" "0 < nbits peer"
    and "nbits reqs = nbits peer" "nbits intr = nbits peer"
  shows "bs_hasInteresting reqs peer intr =
    Inr (bs_elems peer \<inter> bs_elems intr - bs_elems reqs \<noteq> {})"
proof -
  obtain r1 r2 r where "bs_not (kBitSet_create (nbits peer)) reqs = Inr r1"
    and "bs_and r1 r1 peer = Inr r2" and "bs_and r2 r2 intr = Inr r"
    and "bs_wf r" and "nbits r = nbits peer"
    and "bs_elems r = bs_elems peer \<inter> bs_elems intr - bs_elems reqs"
    using candidates assms by blast
  then show ?thesis using bs_isEmpty_spec [of r] assms(4) by (simp add: bs_hasInteresting_def)
qed

lemma bs_pickblock_spec:
  assumes "bs_wf reqs" "bs_wf peer" "bs_wf intr" "0 < nbits peer"
    and "nbits reqs = nbits peer" "nbits intr = nbits peer"
  shows "\<exists>blk x'. bs_pickblock reqs peer intr x = Inr (blk, x') \<and>
    (if bs_elems peer \<inter> bs_elems intr - bs_elems reqs = {} then blk = -1
     else \<exists>b \<in> bs_elems peer \<inter> bs_elems intr - bs_elems reqs. blk = int b)"
proof -
  let ?C = "bs_elems peer \<inter> bs_elems intr - bs_elems reqs"
  obtain r1 r2 r where r: "bs_not (kBitSet_create (nbits peer)) reqs = Inr r1"
    "bs_and r1 r1 peer = Inr r2" "bs_and r2 r2 intr = Inr r" "bs_wf r"
    "nbits r = nbits peer" "bs_elems r = ?C"
    using candidates assms by blast
  have e: "bs_isEmpty r = Inr (?C = {})" using bs_isEmpty_spec [of r] assms(4) r by simp
  show ?thesis
  proof (cases "?C = {}")
    case True
    with e r show ?thesis by (simp add: bs_pickblock_def)
  next
    case False
    let ?ps = "filter (bs_test r) [0..<nbits r]"
    have set_ps: "set ?ps = ?C" using r(6) by (auto simp: bs_elems_def)
    with False have ne: "length ?ps \<noteq> 0" by (metis length_0_conv set_empty)
    obtain k x' where k: "rnd (int (length ?ps)) x = (k, x')" by (cases "rnd (int (length ?ps)) x")
    with ne have kr: "0 \<le> k" "k < int (length ?ps)" using rnd_range [OF _ k] by auto
    then have "arr_get (map int ?ps) k = Inr (int (?ps ! nat k))"
      by (simp add: arr_get_def nat_less_iff)
    moreover have "?ps ! nat k \<in> ?C"
      using kr set_ps by (metis nat_less_iff nth_mem)
    ultimately show ?thesis
      using e False r k ne bs_getSparseSet_spec [of r] by (auto simp: bs_pickblock_def)
  qed
qed

section \<open>Ranges and bulk input\<close>

lemma bit_ff: "bit (255 :: byte) j \<longleftrightarrow> j < 8"
proof -
  have "(255 :: byte) = - 1" by simp
  then show ?thesis by (simp only: bit_minus_1_iff) simp
qed

lemma set_whole_byte:
  assumes "bs_wf s" and "m mod 8 = 0" and "m + 8 \<le> nbits s"
  shows "bs_wf (s\<lparr>bits := (bits s)[m div 8 := 255]\<rparr>)"
    and "bs_elems (s\<lparr>bits := (bits s)[m div 8 := 255]\<rparr>) = bs_elems s \<union> {m..<m + 8}"
proof -
  let ?t = "s\<lparr>bits := (bits s)[m div 8 := 255]\<rparr>"
  show "bs_wf ?t" using assms(1) by (simp add: bs_wf_def)
  have "bs_test ?t i \<longleftrightarrow> bs_test s i \<or> (m \<le> i \<and> i < m + 8)" if "i < nbits s" for i
  proof (cases "i div 8 = m div 8")
    case True
    with assms(2) have "m \<le> i" "i < m + 8" by auto
    moreover have "bits ?t ! (i div 8) = 255"
      using True bs_wf_index [OF assms(1) that] by simp
    then have "bs_test ?t i" by (simp only: bs_test_def bit_ff)
    ultimately show ?thesis by simp
  next
    case False
    with assms(2) have "\<not> (m \<le> i \<and> i < m + 8)" by auto
    then show ?thesis using False by (auto simp: bs_test_def)
  qed
  then show "bs_elems ?t = bs_elems s \<union> {m..<m + 8}"
    using assms(3) by (auto simp: bs_elems_def)
qed

lemma bs_setRange_bit:
  "n < e \<Longrightarrow> \<not> (n mod 8 = 0 \<and> n + 8 < e) \<Longrightarrow>
    bs_setRange s n e = bindR (bs_set s n) (\<lambda>s'. bs_setRange s' (n + 1) e)"
  by (subst bs_setRange.simps) auto

lemma bs_setRange_byte:
  "n mod 8 = 0 \<Longrightarrow> n + 8 < e \<Longrightarrow>
    bs_setRange s n e = bindR (arr_set (bits s) (n div 8) 255)
      (\<lambda>bs. bs_setRange (s\<lparr>bits := bs\<rparr>) (n + 8) e)"
  by (subst bs_setRange.simps) (simp add: add.assoc)

lemma bs_setRange_nat:
  assumes "bs_wf s" and "e \<le> nbits s"
  shows "\<exists>t. bs_setRange s (int m) (int e) = Inr t \<and> bs_wf t \<and> nbits t = nbits s \<and>
    bs_elems t = bs_elems s \<union> {m..<e}"
  using assms
proof (induction "e - m" arbitrary: m s rule: less_induct)
  case less
  show ?case
  proof (cases "m < e")
    case False
    then show ?thesis using less.prems by (subst bs_setRange.simps) auto
  next
    case True
    show ?thesis
    proof (cases "m mod 8 = 0 \<and> m + 8 < e")
      case aligned: True
      let ?s = "s\<lparr>bits := (bits s)[m div 8 := 255]\<rparr>"
      have w: "bs_wf ?s" "bs_elems ?s = bs_elems s \<union> {m..<m + 8}"
        using set_whole_byte [of s m] less.prems aligned by auto
      then obtain t where t: "bs_setRange ?s (int (m + 8)) (int e) = Inr t" "bs_wf t"
        "nbits t = nbits s" "bs_elems t = bs_elems ?s \<union> {m + 8..<e}"
        using less.hyps [of "m + 8" ?s, OF diff_less_mono2 [of m "m + 8" e]] less.prems(2) True by auto
      have "int m mod 8 = 0" using aligned zmod_int [of m 8] by simp
      moreover have "arr_set (bits s) (int m div 8) 255 = Inr ((bits s)[m div 8 := 255])"
        using bs_wf_index [of s m] less.prems True
        by (simp add: arr_set_def nat_div_distrib)
      ultimately have "bs_setRange s (int m) (int e) = Inr t"
        using bs_setRange_byte [of "int m" "int e" s] aligned t(1) by (simp add: add.commute)
      then show ?thesis using t w aligned by auto
    next
      case unaligned: False
      obtain s' where s': "bs_set s (int m) = Inr s'" "bs_wf s'" "nbits s' = nbits s"
        "bs_elems s' = insert m (bs_elems s)"
        using bs_set_spec [of s m] less.prems True by auto
      then obtain t where t: "bs_setRange s' (int (m + 1)) (int e) = Inr t" "bs_wf t"
        "nbits t = nbits s" "bs_elems t = bs_elems s' \<union> {m + 1..<e}"
        using less.hyps [of "m + 1" s', OF diff_less_mono2 [of m "m + 1" e]] less.prems(2) True by auto
      have "\<not> (int m mod 8 = 0 \<and> int m + 8 < int e)"
        using unaligned zmod_int [of m 8] by auto
      then have "bs_setRange s (int m) (int e) =
          bindR (bs_set s (int m)) (\<lambda>s'. bs_setRange s' (int m + 1) (int e))"
        using True by (intro bs_setRange_bit) simp_all
      then have "bs_setRange s (int m) (int e) = Inr t"
        using t(1) by (simp add: s'(1) add.commute)
      moreover have "insert m (bs_elems s) \<union> {m + 1..<e} = bs_elems s \<union> {m..<e}"
        using True by auto
      ultimately show ?thesis using t(2-4) s'(4) by simp
    qed
  qed
qed

text \<open>C2. \<open>bs_setRange\<close>, which writes whole bytes where it can and single bits elsewhere, adds
  exactly the numbers of the half-open range to the set, and never leaves the allocation.\<close>

theorem bs_setRange_adds_range:
  assumes "bs_wf s" and "0 \<le> a" and "b \<le> int (nbits s)"
  shows "\<exists>t. bs_setRange s a b = Inr t \<and> bs_wf t \<and> nbits t = nbits s \<and>
    bs_elems t = bs_elems s \<union> {i. a \<le> int i \<and> int i < b}"
proof (cases "0 \<le> b")
  case True
  have "{nat a..<nat b} = {i. a \<le> int i \<and> int i < b}" using assms(2) True by auto
  then show ?thesis
    using bs_setRange_nat [of s "nat b" "nat a"] assms True by (simp add: nat_le_iff)
next
  case False
  then have "{i. a \<le> int i \<and> int i < b} = {}" using assms(2) by auto
  with False assms show ?thesis by (subst bs_setRange.simps) auto
qed

lemma bs_setRange_adds_range_witness:
  "\<exists>t. bs_setRange (kBitSet_create 40) 3 29 = Inr t \<and>
    bs_elems t = {i. 3 \<le> int i \<and> int i < 29}"
  using bs_setRange_adds_range [of "kBitSet_create 40" 3 29] by auto

text \<open>C3. \<open>bs_pickblock\<close> returns a piece that the peer has, that is wanted and that is not yet
  requested; it returns -1 exactly when \<open>bs_hasInteresting\<close> says there is none; neither ever
  aborts or leaves an array.\<close>

theorem bs_pickblock_picks_candidate:
  assumes "bs_wf reqs" "bs_wf peer" "bs_wf intr" "0 < nbits peer"
    and "nbits reqs = nbits peer" "nbits intr = nbits peer"
  shows "\<exists>blk x'. bs_pickblock reqs peer intr x = Inr (blk, x') \<and>
    bs_hasInteresting reqs peer intr = Inr (blk \<noteq> -1) \<and>
    (blk \<noteq> -1 \<longrightarrow> 0 \<le> blk \<and>
       nat blk \<in> bs_elems peer \<inter> bs_elems intr - bs_elems reqs)"
  using bs_pickblock_spec [OF assms, of x] bs_hasInteresting_spec [OF assms]
  by (auto split: if_splits)

lemma bs_pickblock_picks_candidate_witness:
  "\<exists>blk x'. bs_pickblock (kBitSet_create 5) (kBitSet_create 5) (kBitSet_create 5) 7 = Inr (blk, x') \<and>
    bs_hasInteresting (kBitSet_create 5) (kBitSet_create 5) (kBitSet_create 5) = Inr (blk \<noteq> -1)"
  using bs_pickblock_picks_candidate [of "kBitSet_create 5" "kBitSet_create 5" "kBitSet_create 5" 7]
  by auto

text \<open>Emptiness, fullness and counting agree with the set: the mask table \<open>bstest_mask\<close>
  hides exactly the padding bits of the last byte.\<close>

theorem bs_tests_agree:
  assumes "bs_wf a" and "0 < nbits a"
  shows "bs_isEmpty a = Inr (bs_elems a = {}) \<and>
    bs_isFull a = Inr (bs_elems a = {..<nbits a}) \<and>
    bs_countBits a = Inr (card (bs_elems a)) \<and>
    (bs_isFull a = Inr True \<longleftrightarrow> bs_countBits a = Inr (nbits a))"
proof -
  have "card (bs_elems a) = nbits a \<longleftrightarrow> bs_elems a = {..<nbits a}"
    using card_subset_eq [of "{..<nbits a}" "bs_elems a"] bs_elems_less [of _ a] by auto
  then show ?thesis
    using bs_isEmpty_spec [OF assms] bs_isFull_spec [OF assms] bs_countBits_spec [OF assms(1)]
    by auto
qed

lemma bs_tests_agree_witness:
  "bs_isEmpty (kBitSet_create 9) = Inr True \<and> bs_countBits (kBitSet_create 9) = Inr 0"
  using bs_tests_agree [of "kBitSet_create 9"] by simp

lemma kBitSet_readBytes_too_long:
  "int ((nbits s + 7) div 8) < len \<Longrightarrow> kBitSet_readBytes s src len = Inl Abort"
  by (simp add: kBitSet_readBytes_def die_unless_def)

lemma kBitSet_readBytes_ok:
  assumes "bs_wf s" and "0 \<le> len" and "nat len \<le> (nbits s + 7) div 8" and "nat len \<le> length src"
  shows "\<exists>t. kBitSet_readBytes s src len = Inr t \<and> bs_wf t \<and> nbits t = nbits s \<and>
    (\<forall>i < nat len. bits t ! i = src ! i)"
proof -
  have "len \<le> int ((nbits s + 7) div 8)" using assms(2,3) by linarith
  moreover have "nat len \<le> length (bits s)"
    using assms(1,3) alloc_bytes_bound [of "nbits s"] by (simp add: bs_wf_def)
  ultimately have "\<exists>t. kBitSet_readBytes s src len = Inr t \<and> nbits t = nbits s \<and>
    length (bits t) = length (bits s) \<and> (\<forall>i < nat len. bits t ! i = src ! i)"
    unfolding kBitSet_readBytes_def
    using assms byte_loop [where n = "nat len" and r = s and f = "\<lambda>i. src ! i" and
        body = "\<lambda>i t. bindR (arr_get src (int i)) (\<lambda>b.
            bindR (arr_set (bits t) (int i) b) (\<lambda>bs. Inr (t\<lparr>bits := bs\<rparr>)))"]
    by simp
  then show ?thesis using assms(1) by (auto simp: bs_wf_def)
qed

end
