(* ===== verification/Bt_Sha1.thy ===== *)
theory Bt_Sha1
  imports Bt_Prelude
begin

text \<open>
  \<open>sha1.c\<close>: the hash that names torrents and checks pieces. The code is modelled on the
  platform it is written for: a 32-bit \<open>unsigned long\<close> and little-endian memory
  (\<open>#define LITTLE_ENDIAN\<close>). A reference definition after FIPS 180 follows, and the
  streaming implementation (circular message schedule, partial buffer, bit counter in two
  words) is shown to compute it.
\<close>

type_synonym ulong = "32 word"

section \<open>The implementation\<close>

record SHA1_CTX =
  sha_state :: "ulong \<times> ulong \<times> ulong \<times> ulong \<times> ulong"
  sha_count :: "ulong \<times> ulong"
  sha_buffer :: "byte list"

definition rol :: "ulong \<Rightarrow> nat \<Rightarrow> ulong" where
  "rol v n = push_bit n v OR drop_bit (32 - n) v"

text \<open>The union \<open>CHAR64LONG16\<close>: word \<open>i\<close> of the 64 bytes, loaded little-endian.\<close>

fun load_words :: "byte list \<Rightarrow> ulong list" where
  "load_words (a # b # c # d # bs) =
     (ucast a OR push_bit 8 (ucast b) OR push_bit 16 (ucast c) OR push_bit 24 (ucast d))
     # load_words bs"
| "load_words _ = []"

definition blk0 :: "nat \<Rightarrow> ulong list \<Rightarrow> ulong list" where
  "blk0 i l = l[i := (rol (l ! i) 24 AND 0xFF00FF00) OR (rol (l ! i) 8 AND 0x00FF00FF)]"

definition blk :: "nat \<Rightarrow> ulong list \<Rightarrow> ulong list" where
  "blk i l = l[i mod 16 := rol (l ! ((i + 13) mod 16) XOR l ! ((i + 8) mod 16)
     XOR l ! ((i + 2) mod 16) XOR l ! (i mod 16)) 1]"

text \<open>
  Rounds \<open>R0\<close> to \<open>R4\<close>. The source unrolls the eighty rounds and rotates the names of the
  five variables; here the tuple is rotated instead, so after five rounds each variable is
  back in its place.
\<close>

type_synonym vars = "ulong \<times> ulong \<times> ulong \<times> ulong \<times> ulong"

fun sha_round :: "nat \<Rightarrow> vars \<times> ulong list \<Rightarrow> vars \<times> ulong list" where
  "sha_round i ((v, w, x, y, z), l) =
     (let l' = (if i < 16 then blk0 i l else blk i l); b = l' ! (i mod 16);
          z' = (if i < 20 then z + (((w AND (x XOR y)) XOR y) + b + 0x5A827999 + rol v 5)
                else if i < 40 then z + ((w XOR x XOR y) + b + 0x6ED9EBA1 + rol v 5)
                else if i < 60 then z + ((((w OR x) AND y) OR (w AND x)) + b + 0x8F1BBCDC + rol v 5)
                else z + ((w XOR x XOR y) + b + 0xCA62C1D6 + rol v 5))
      in ((z', v, rol w 30, x, y), l'))"

fun sha_rounds :: "nat \<Rightarrow> vars \<times> ulong list \<Rightarrow> vars \<times> ulong list" where
  "sha_rounds 0 s = s"
| "sha_rounds (Suc n) s = sha_round n (sha_rounds n s)"

fun SHA1Transform :: "vars \<Rightarrow> byte list \<Rightarrow> vars" where
  "SHA1Transform (s0, s1, s2, s3, s4) buffer =
     (case sha_rounds 80 ((s0, s1, s2, s3, s4), load_words buffer) of
        ((a, b, c, d, e), _) \<Rightarrow> (s0 + a, s1 + b, s2 + c, s3 + d, s4 + e))"

definition SHA1Init :: "byte list \<Rightarrow> SHA1_CTX" where
  "SHA1Init stack = \<lparr>sha_state = (0x67452301, 0xEFCDAB89, 0x98BADCFE, 0x10325476, 0xC3D2E1F0),
     sha_count = (0, 0), sha_buffer = stack\<rparr>"

text \<open>The loop \<open>for ( ; i + 63 < len; i += 64) SHA1Transform(state, &data[i])\<close>.\<close>

function transform_loop :: "vars \<Rightarrow> byte list \<Rightarrow> nat \<Rightarrow> vars \<times> nat" where
  "transform_loop st data i =
     (if i + 63 < length data
      then transform_loop (SHA1Transform st (take 64 (drop i data))) data (i + 64)
      else (st, i))"
  by pat_completeness auto
termination
  by (relation "measure (\<lambda>(st, data, i). length data - i)") auto

declare transform_loop.simps [simp del]

definition SHA1Update :: "SHA1_CTX \<Rightarrow> byte list \<Rightarrow> SHA1_CTX" where
  "SHA1Update ctx data =
     (let len = length data;
          (c0, c1) = sha_count ctx;
          j = unat (drop_bit 3 c0 AND 63);
          sh = push_bit 3 (of_nat len :: ulong);
          c0' = c0 + sh;
          c1' = (if c0' < sh then c1 + 1 else c1) + drop_bit 29 (of_nat len);
          (st, buf, j', i) =
            (if 63 < j + len then
               let i = 64 - j;
                   buf = blit (sha_buffer ctx) j (take i data);
                   (st, i') = transform_loop (SHA1Transform (sha_state ctx) buf) data i
               in (st, buf, 0, i')
             else (sha_state ctx, sha_buffer ctx, j, 0))
      in \<lparr>sha_state = st, sha_count = (c0', c1'), sha_buffer = blit buf j' (drop i data)\<rparr>)"

lemma sha_count_update:
  "sha_count (SHA1Update ctx data) =
     (let (c0, c1) = sha_count ctx; sh = push_bit 3 (of_nat (length data) :: ulong)
      in (c0 + sh, (if c0 + sh < sh then c1 + 1 else c1) + drop_bit 29 (of_nat (length data))))"
  by (auto simp: SHA1Update_def Let_def split: prod.splits if_splits)

text \<open>\<open>while ((count[0] & 504) != 448) SHA1Update(context, "\\0", 1)\<close>: each turn advances the
  byte position modulo 64, so at most 63 turns are needed.\<close>

definition pad_pos :: "SHA1_CTX \<Rightarrow> nat" where
  "pad_pos ctx = unat (fst (sha_count ctx)) div 8 mod 64"

lemma pad_field: "(c :: ulong) AND 504 = 448 \<longleftrightarrow> unat c div 8 mod 64 = 56"
proof -
  have f: "(c :: ulong) AND 504 = push_bit 3 (take_bit 6 (drop_bit 3 c))"
  proof (rule bit_word_eqI)
    fix n assume "n < LENGTH(32)"
    have "(504 :: ulong) = push_bit 3 (mask 6)" by (simp add: mask_eq_exp_minus_1)
    then show "bit (c AND 504) n = bit (push_bit 3 (take_bit 6 (drop_bit 3 c))) n"
      using \<open>n < LENGTH(32)\<close>
      by (simp only: bit_and_iff bit_push_bit_iff bit_take_bit_iff bit_drop_bit_eq bit_mask_iff o_apply)
        auto
  qed
  have u: "unat (push_bit 3 (take_bit 6 (drop_bit 3 c))) = 8 * (unat c div 8 mod 64)"
  proof -
    have "unat (take_bit 6 (drop_bit 3 c)) = unat c div 8 mod 64"
      by (simp add: unsigned_take_bit_eq unsigned_drop_bit_eq take_bit_eq_mod drop_bit_eq_div unat_div_distrib unat_mod_distrib)
    moreover have "push_bit 3 (take_bit 6 (drop_bit 3 c)) = take_bit 6 (drop_bit 3 c) * 8"
      by (simp add: push_bit_eq_mult)
    ultimately show ?thesis by (simp only: unat_word_ariths) simp
  qed
  have "(c AND 504 = 448) \<longleftrightarrow> unat (c AND 504) = unat (448 :: ulong)"
    by (simp only: word_unat_eq_iff)
  also have "\<dots> \<longleftrightarrow> 8 * (unat c div 8 mod 64) = 448" by (simp only: f u) simp
  also have "\<dots> \<longleftrightarrow> unat c div 8 mod 64 = 56" by auto
  finally show ?thesis .
qed

lemma pad_pos_step: "length d = 1 \<Longrightarrow> pad_pos (SHA1Update ctx d) = (pad_pos ctx + 1) mod 64"
proof -
  assume d: "length d = 1"
  obtain c0 c1 where c: "sha_count ctx = (c0, c1)" by (cases "sha_count ctx")
  have "unat (c0 + 8) = (unat c0 + 8) mod 2 ^ 32"
    by (simp add: unat_word_ariths)
  also have "\<dots> = 8 * ((unat c0 + 8) div 8 mod 2 ^ 29) + (unat c0 + 8) mod 8"
    using mod_mult2_eq [of "unat c0 + 8" 8 "2 ^ 29"] by simp
  finally have "unat (c0 + 8) div 8 mod 64 = (unat c0 + 8) div 8 mod 2 ^ 29 mod 64" by simp
  also have "\<dots> = (unat c0 div 8 + 1) mod 64" using div_add_self2 [of 8 "unat c0"] by (subst mod_mod_cancel) auto
  finally have "unat (c0 + 8) div 8 mod 64 = (unat c0 div 8 + 1) mod 64" .
  then show ?thesis using c d by (simp add: pad_pos_def sha_count_update mod_simps)
qed


function SHA1_pad_loop :: "SHA1_CTX \<Rightarrow> SHA1_CTX" where
  "SHA1_pad_loop ctx =
     (if fst (sha_count ctx) AND 504 \<noteq> 448 then SHA1_pad_loop (SHA1Update ctx [0]) else ctx)"
  by pat_completeness auto
termination
proof (relation "measure (\<lambda>ctx. (120 - pad_pos ctx) mod 64)")
  fix ctx :: SHA1_CTX assume "fst (sha_count ctx) AND 504 \<noteq> 448"
  then have "pad_pos ctx \<noteq> 56" by (simp add: pad_field pad_pos_def)
  moreover have "pad_pos ctx < 64" by (simp add: pad_pos_def)
  moreover have "pad_pos (SHA1Update ctx [0]) = (pad_pos ctx + 1) mod 64"
    by (rule pad_pos_step) simp
  ultimately show "(SHA1Update ctx [0], ctx) \<in> measure (\<lambda>ctx. (120 - pad_pos ctx) mod 64)"
    by (cases "pad_pos ctx = 63") (auto simp: mod_if)
qed simp

declare SHA1_pad_loop.simps [simp del]

definition SHA1Final :: "SHA1_CTX \<Rightarrow> byte list" where
  "SHA1Final ctx =
     (let (c0, c1) = sha_count ctx;
          finalcount = map (\<lambda>i. ucast (drop_bit ((3 - i mod 4) * 8) (if 4 \<le> i then c0 else c1) AND 255))
                         [0..<8];
          ctx = SHA1Update ctx [128];
          ctx = SHA1_pad_loop ctx;
          ctx = SHA1Update ctx finalcount;
          (s0, s1, s2, s3, s4) = sha_state ctx
      in map (\<lambda>i. ucast (drop_bit ((3 - i mod 4) * 8) ([s0, s1, s2, s3, s4] ! (i div 4)) AND 255))
           [0..<20])"

text \<open>The context lives on the stack of \<open>SHA1\<close>: its buffer starts with unknown bytes.\<close>

definition SHA1 :: "byte list \<Rightarrow> byte list \<Rightarrow> byte list" where
  "SHA1 stack content = SHA1Final (SHA1Update (SHA1Init stack) content)"

lemma length_SHA1 [simp]: "length (SHA1 stack content) = 20"
  by (simp add: SHA1_def SHA1Final_def Let_def split: prod.splits)

section \<open>The reference definition (FIPS 180)\<close>

fun be_words :: "byte list \<Rightarrow> ulong list" where
  "be_words (a # b # c # d # bs) =
     (push_bit 24 (ucast a) OR push_bit 16 (ucast b) OR push_bit 8 (ucast c) OR ucast d)
     # be_words bs"
| "be_words _ = []"

primrec sha_schedule :: "ulong list \<Rightarrow> nat \<Rightarrow> ulong list" where
  "sha_schedule M 0 = M"
| "sha_schedule M (Suc n) =
     (let w = sha_schedule M n; t = length w
      in w @ [rol (w ! (t - 3) XOR w ! (t - 8) XOR w ! (t - 14) XOR w ! (t - 16)) 1])"

definition sha_f :: "nat \<Rightarrow> ulong \<Rightarrow> ulong \<Rightarrow> ulong \<Rightarrow> ulong" where
  "sha_f t b c d =
     (if t < 20 then (b AND c) OR (NOT b AND d)
      else if t < 40 then b XOR c XOR d
      else if t < 60 then (b AND c) OR (b AND d) OR (c AND d)
      else b XOR c XOR d)"

definition sha_K :: "nat \<Rightarrow> ulong" where
  "sha_K t = (if t < 20 then 0x5A827999 else if t < 40 then 0x6ED9EBA1
              else if t < 60 then 0x8F1BBCDC else 0xCA62C1D6)"

fun sha_step :: "ulong list \<Rightarrow> nat \<Rightarrow> vars \<Rightarrow> vars" where
  "sha_step W t (a, b, c, d, e) =
     (rol a 5 + sha_f t b c d + e + sha_K t + W ! t, a, rol b 30, c, d)"

fun sha_compress :: "byte list \<Rightarrow> vars \<Rightarrow> vars" where
  "sha_compress block (h0, h1, h2, h3, h4) =
     (case fold (sha_step (sha_schedule (be_words block) 64)) [0..<80] (h0, h1, h2, h3, h4) of
        (a, b, c, d, e) \<Rightarrow> (h0 + a, h1 + b, h2 + c, h3 + d, h4 + e))"

definition be64 :: "nat \<Rightarrow> byte list" where
  "be64 n = map (\<lambda>i. of_nat (n div 256 ^ (7 - i))) [0..<8]"

definition sha_padded :: "byte list \<Rightarrow> byte list" where
  "sha_padded m =
     m @ [128] @ replicate ((119 - length m mod 64) mod 64) 0 @ be64 (8 * length m)"

function sha_blocks :: "byte list \<Rightarrow> byte list list" where
  "sha_blocks bs = (if length bs < 64 then [] else take 64 bs # sha_blocks (drop 64 bs))"
  by pat_completeness auto
termination
  by (relation "measure length") auto

declare sha_blocks.simps [simp del]

definition word_bytes :: "ulong \<Rightarrow> byte list" where
  "word_bytes w = [ucast (drop_bit 24 w), ucast (drop_bit 16 w), ucast (drop_bit 8 w), ucast w]"

definition sha_H0 :: vars where
  "sha_H0 = (0x67452301, 0xEFCDAB89, 0x98BADCFE, 0x10325476, 0xC3D2E1F0)"

definition sha1_spec :: "byte list \<Rightarrow> byte list" where
  "sha1_spec m = (case fold sha_compress (sha_blocks (sha_padded m)) sha_H0 of
     (a, b, c, d, e) \<Rightarrow> concat (map word_bytes [a, b, c, d, e]))"

section \<open>The transform computes the compression function\<close>

lemma ch_eq: "((w AND (x XOR y)) XOR y) = ((w AND x) OR (NOT w AND (y :: ulong)))"
  by (rule bit_word_eqI) (auto simp: bit_and_iff bit_or_iff bit_xor_iff bit_not_iff)

lemma maj_eq: "(((w OR x) AND y) OR (w AND x)) = ((w AND x) OR (w AND y) OR (x AND (y :: ulong)))"
  by (rule bit_word_eqI) (auto simp: bit_and_iff bit_or_iff)

lemma bit_rol:
  assumes "n < 32" and "k < 32" and "0 < k"
  shows "bit (rol v k) n \<longleftrightarrow> (if k \<le> n then bit v (n - k) else bit v (32 - k + n))"
  using assms bit_imp_le_length [of v "32 - k + n"]
  by (auto simp: rol_def bit_or_iff bit_push_bit_iff bit_drop_bit_eq)

lemma bit_byte_ge: "8 \<le> n \<Longrightarrow> \<not> bit (b :: byte) n"
  using bit_imp_le_length [of b n] by auto

lemma bit_le_word:
  assumes "n < 32"
  shows "bit (ucast a OR push_bit 8 (ucast b) OR push_bit 16 (ucast c) OR push_bit 24 (ucast d) :: ulong) n
    \<longleftrightarrow> (if n < 8 then bit (a :: byte) n else if n < 16 then bit (b :: byte) (n - 8)
         else if n < 24 then bit (c :: byte) (n - 16) else bit (d :: byte) (n - 24))"
  using assms bit_byte_ge [of n a] bit_byte_ge [of "n - 8" b] bit_byte_ge [of "n - 16" c]
  by (auto simp: bit_or_iff bit_push_bit_iff bit_ucast_iff)

lemma be_word_swap:
  "push_bit 24 (ucast a) OR push_bit 16 (ucast b) OR push_bit 8 (ucast c) OR ucast d =
   (ucast d OR push_bit 8 (ucast c) OR push_bit 16 (ucast b) OR push_bit 24 (ucast a) :: ulong)"
  by (simp only: or.commute or.left_commute)

lemma swap_masks:
  assumes "n < 32"
  shows "bit (0xFF00FF00 :: ulong) n \<longleftrightarrow> (8 \<le> n \<and> n < 16) \<or> 24 \<le> n"
    and "bit (0x00FF00FF :: ulong) n \<longleftrightarrow> n < 8 \<or> (16 \<le> n \<and> n < 24)"
proof -
  have "\<forall>n \<in> set [0..<32]. (bit (0xFF00FF00 :: ulong) n \<longleftrightarrow> (8 \<le> n \<and> n < 16) \<or> 24 \<le> n) \<and>
     (bit (0x00FF00FF :: ulong) n \<longleftrightarrow> n < 8 \<or> (16 \<le> n \<and> n < 24))"
    by (simp add: upt_rec)
  with assms show "bit (0xFF00FF00 :: ulong) n \<longleftrightarrow> (8 \<le> n \<and> n < 16) \<or> 24 \<le> n"
    and "bit (0x00FF00FF :: ulong) n \<longleftrightarrow> n < 8 \<or> (16 \<le> n \<and> n < 24)"
    by simp_all
qed

lemma swap_word:
  fixes a b c d :: byte
  defines "x \<equiv> (ucast a OR push_bit 8 (ucast b) OR push_bit 16 (ucast c) OR push_bit 24 (ucast d) :: ulong)"
  shows "(rol x 24 AND 0xFF00FF00) OR (rol x 8 AND 0x00FF00FF) =
    push_bit 24 (ucast a) OR push_bit 16 (ucast b) OR push_bit 8 (ucast c) OR ucast d"
proof (rule bit_word_eqI)
  fix n assume "n < LENGTH(32)"
  then have n: "n < 32" by simp
  have x: "bit x m \<longleftrightarrow> (if m < 8 then bit a m else if m < 16 then bit b (m - 8)
         else if m < 24 then bit c (m - 16) else bit d (m - 24))" if "m < 32" for m
    unfolding x_def by (rule bit_le_word [OF that])
  have rhs: "bit (push_bit 24 (ucast a) OR push_bit 16 (ucast b) OR push_bit 8 (ucast c) OR ucast d :: ulong) n
    \<longleftrightarrow> (if n < 8 then bit d n else if n < 16 then bit c (n - 8)
         else if n < 24 then bit b (n - 16) else bit a (n - 24))"
    unfolding be_word_swap by (rule bit_le_word [OF n])
  consider m where "n = m" "m < 8" | m where "n = 8 + m" "m < 8" | m where "n = 16 + m" "m < 8"
    | m where "n = 24 + m" "m < 8"
  proof -
    consider "n < 8" | "8 \<le> n" "n < 16" | "16 \<le> n" "n < 24" | "24 \<le> n" by arith
    then show thesis
      by cases (use that n in \<open>auto simp: le_iff_add\<close>)
  qed
  then show "bit ((rol x 24 AND 0xFF00FF00) OR (rol x 8 AND 0x00FF00FF)) n =
      bit (push_bit 24 (ucast a) OR push_bit 16 (ucast b) OR push_bit 8 (ucast c) OR ucast d :: ulong) n"
    unfolding rhs
    unfolding bit_or_iff bit_and_iff swap_masks [OF n]
    by cases (use n in \<open>simp_all add: bit_rol x\<close>)
qed

definition swap_ulong :: "ulong \<Rightarrow> ulong" where
  "swap_ulong x = (rol x 24 AND 0xFF00FF00) OR (rol x 8 AND 0x00FF00FF)"

lemma length_load_words [simp]: "length (load_words bs) = length bs div 4"
  by (induction bs rule: load_words.induct) auto

lemma swap_load_words:
  "k < length bs div 4 \<Longrightarrow> swap_ulong (load_words bs ! k) = be_words bs ! k"
proof (induction bs arbitrary: k rule: load_words.induct)
  case (1 a b c d bs)
  then show ?case by (cases k) (simp_all add: swap_ulong_def swap_word)
qed auto

lemma length_be_words [simp]: "length (be_words bs) = length bs div 4"
  by (induction bs rule: be_words.induct) auto

lemma length_sha_schedule [simp]: "length (sha_schedule M n) = length M + n"
  by (induction n) (simp_all add: Let_def)

lemma sha_schedule_prefix:
  "t < length M + n \<Longrightarrow> sha_schedule M (n + m) ! t = sha_schedule M n ! t"
  by (induction m) (simp_all add: Let_def nth_append)

lemma sha_schedule_low: "t < length M \<Longrightarrow> sha_schedule M n ! t = M ! t"
  using sha_schedule_prefix [of t M 0 n] by simp

lemma sha_schedule_rec:
  assumes "length M = 16" and "16 \<le> t" and "t < 16 + n"
  shows "sha_schedule M n ! t = rol (sha_schedule M n ! (t - 3) XOR sha_schedule M n ! (t - 8)
    XOR sha_schedule M n ! (t - 14) XOR sha_schedule M n ! (t - 16)) 1"
proof -
  have n: "n = Suc (t - 16) + (n - Suc (t - 16))" using assms(2,3) by simp
  have low: "sha_schedule M n ! u = sha_schedule M (t - 16) ! u" if "u < t" for u
    using sha_schedule_prefix [of u M "t - 16" "n - (t - 16)"] that assms by simp
  have "sha_schedule M n ! t = sha_schedule M (Suc (t - 16)) ! t"
    using sha_schedule_prefix [of t M "Suc (t - 16)" "n - Suc (t - 16)"] n assms by simp
  also have "\<dots> = rol (sha_schedule M (t - 16) ! (t - 3) XOR sha_schedule M (t - 16) ! (t - 8)
    XOR sha_schedule M (t - 16) ! (t - 14) XOR sha_schedule M (t - 16) ! (t - 16)) 1"
    using assms by (simp add: Let_def nth_append)
  finally show ?thesis using low [of "t - 3"] low [of "t - 8"] low [of "t - 14"] low [of "t - 16"] assms
    by simp
qed

text \<open>The circular sixteen words always hold the last sixteen words of the schedule.\<close>

definition ring_holds :: "ulong list \<Rightarrow> ulong list \<Rightarrow> nat \<Rightarrow> ulong list \<Rightarrow> bool" where
  "ring_holds L W n l \<longleftrightarrow> length l = 16 \<and> (\<forall>t < n. n \<le> t + 16 \<longrightarrow> l ! (t mod 16) = W ! t) \<and>
     (\<forall>k. n \<le> k \<and> k < 16 \<longrightarrow> l ! k = L ! k)"

lemma ring_ahead:
  assumes "ring_holds L W n l" and "16 \<le> n" and "0 < d" and "d \<le> 16"
  shows "l ! ((n + (16 - d)) mod 16) = W ! (n - d)"
proof -
  have "n + (16 - d) = (n - d) + 16" using assms by simp
  then have "(n + (16 - d)) mod 16 = (n - d) mod 16" by (metis mod_add_self2)
  then show ?thesis using assms by (simp add: ring_holds_def)
qed

lemma ring_update:
  assumes "ring_holds L W n l" and "v = W ! n"
  shows "ring_holds L W (Suc n) (l[n mod 16 := v])"
proof -
  have "t mod 16 \<noteq> n mod 16" if "t < n" "Suc n \<le> t + 16" for t
  proof
    assume "t mod 16 = n mod 16"
    then have "(16::nat) dvd n - t" using that mod_eq_dvd_iff_nat [of t n 16] by simp
    with that show False by (auto dest!: dvd_imp_le)
  qed
  moreover have "k \<noteq> n mod 16" if "Suc n \<le> k" "k < 16" for k using that by simp
  ultimately show ?thesis
    using assms unfolding ring_holds_def
    by (auto simp: less_Suc_eq nth_list_update) (metis add.commute)
qed

lemma sha_round_step:
  assumes "ring_holds (load_words buf) W n l" and "n < 80" and "length buf = 64"
    and W: "W = sha_schedule (be_words buf) 64"
  shows "\<exists>l'. sha_round n (s, l) = (sha_step W n s, l') \<and> ring_holds (load_words buf) W (Suc n) l'"
proof -
  define l' where "l' = (if n < 16 then blk0 n l else blk n l)"
  have "\<exists>v. v = W ! n \<and> l' = l[n mod 16 := v]"
  proof (cases "n < 16")
    case True
    then have "l ! n = load_words buf ! n" using assms(1) by (simp add: ring_holds_def)
    then have "swap_ulong (l ! n) = W ! n"
      using True assms(3) swap_load_words [of n buf] sha_schedule_low [of n "be_words buf" 64] W by simp
    with True show ?thesis by (auto simp: l'_def blk0_def swap_ulong_def)
  next
    case False
    then have "W ! n = rol (l ! ((n + 13) mod 16) XOR l ! ((n + 8) mod 16)
        XOR l ! ((n + 2) mod 16) XOR l ! (n mod 16)) 1"
      using ring_ahead [OF assms(1), of 3] ring_ahead [OF assms(1), of 8]
        ring_ahead [OF assms(1), of 14] ring_ahead [OF assms(1), of 16]
        sha_schedule_rec [of "be_words buf" n 64] assms(2,3) W by simp
    with False show ?thesis by (auto simp: l'_def blk_def)
  qed
  then obtain v where v: "v = W ! n" "l' = l[n mod 16 := v]" by blast
  then have r: "ring_holds (load_words buf) W (Suc n) l'" using ring_update [OF assms(1)] by simp
  have "l' ! (n mod 16) = W ! n" using v assms(1) by (simp add: ring_holds_def)
  moreover obtain a b c d e where "s = (a, b, c, d, e)" by (cases s)
  ultimately have "sha_round n (s, l) = (sha_step W n s, l')"
    by (simp add: Let_def l'_def [symmetric] sha_f_def sha_K_def ch_eq maj_eq
        add.assoc add.commute add.left_commute)
  with r show ?thesis by blast
qed

lemma sha_rounds_spec:
  assumes "length buf = 64" and "n \<le> 80" and W: "W = sha_schedule (be_words buf) 64"
  shows "\<exists>l. sha_rounds n (s, load_words buf) = (fold (sha_step W) [0..<n] s, l) \<and>
    ring_holds (load_words buf) W n l"
  using assms(2)
proof (induction n)
  case 0
  then show ?case using assms(1) by (simp add: ring_holds_def)
next
  case (Suc n)
  then obtain l where l: "sha_rounds n (s, load_words buf) = (fold (sha_step W) [0..<n] s, l)"
    "ring_holds (load_words buf) W n l" by auto
  then show ?case
    using sha_round_step [OF l(2) _ assms(1) W, of "fold (sha_step W) [0..<n] s"] Suc.prems by auto
qed

lemma SHA1Transform_eq: "length buf = 64 \<Longrightarrow> SHA1Transform s buf = sha_compress buf s"
  using sha_rounds_spec [of buf 80 "sha_schedule (be_words buf) 64" s]
  by (cases s) (auto split: prod.splits)

section \<open>Streaming\<close>

lemma sha_blocks_short [simp]: "length bs < 64 \<Longrightarrow> sha_blocks bs = []"
  by (subst sha_blocks.simps) simp

lemma sha_blocks_step: "64 \<le> length bs \<Longrightarrow> sha_blocks bs = take 64 bs # sha_blocks (drop 64 bs)"
  by (subst sha_blocks.simps) simp

lemma sha_blocks_append:
  "length a mod 64 = 0 \<Longrightarrow> sha_blocks (a @ b) = sha_blocks a @ sha_blocks b"
proof (induction a rule: sha_blocks.induct)
  case (1 a)
  show ?case
  proof (cases "length a < 64")
    case True
    with 1 have "a = []" by simp
    then show ?thesis by simp
  next
    case False
    then have "length (drop 64 a) mod 64 = 0" using 1(2) le_mod_geq [of 64 "length a"] by simp
    with False 1(1) show ?thesis by (simp add: sha_blocks_step)
  qed
qed

lemma transform_loop_eq:
  "i \<le> length data \<Longrightarrow> transform_loop st data i =
    (fold sha_compress (sha_blocks (drop i data)) st, i + 64 * ((length data - i) div 64))"
proof (induction st data i rule: transform_loop.induct)
  case (1 st data i)
  show ?case
  proof (cases "i + 63 < length data")
    case False
    then show ?thesis by (subst transform_loop.simps) simp
  next
    case True
    have "(length data - i) div 64 = Suc ((length data - (i + 64)) div 64)"
      using True le_div_geq [of 64 "length data - i"] by simp
    moreover have "length (take 64 (drop i data)) = 64" using True by simp
    ultimately show ?thesis
      using 1 True by (subst transform_loop.simps)
        (simp add: SHA1Transform_eq sha_blocks_step [of "drop i data"] add.commute)
  qed
qed

definition full_len :: "byte list \<Rightarrow> nat" where
  "full_len m = length m - length m mod 64"

definition sha_repr :: "SHA1_CTX \<Rightarrow> byte list \<Rightarrow> bool" where
  "sha_repr ctx m \<longleftrightarrow> length (sha_buffer ctx) = 64 \<and>
     sha_count ctx = (of_nat (8 * length m), of_nat (8 * length m div 2 ^ 32)) \<and>
     sha_state ctx = fold sha_compress (sha_blocks m) sha_H0 \<and>
     take (length m mod 64) (sha_buffer ctx) = drop (full_len m) m"

lemma full_len_mod: "length (take (full_len m) m) mod 64 = 0"
proof -
  have "full_len m = 64 * (length m div 64)" by (simp only: full_len_def minus_mod_eq_mult_div)
  then have "full_len m mod 64 = 0" by simp
  moreover have "length (take (full_len m) m) = full_len m" by (simp add: full_len_def)
  ultimately show ?thesis by (simp only:)
qed

lemma blocks_split: "sha_blocks (m @ d) = sha_blocks m @ sha_blocks (drop (full_len m) m @ d)"
proof -
  have "sha_blocks (take (full_len m) m @ drop (full_len m) m @ e) =
    sha_blocks (take (full_len m) m) @ sha_blocks (drop (full_len m) m @ e)" for e
    by (rule sha_blocks_append) (rule full_len_mod)
  from this [of d] this [of "[]"] show ?thesis
    by (simp add: append_assoc [symmetric] full_len_def del: append_assoc)
qed

lemma sha_repr_init:
  "length stack = 64 \<Longrightarrow> sha_repr (SHA1Init stack) []"
  by (simp add: sha_repr_def SHA1Init_def sha_H0_def full_len_def)

lemma count_position: "unat (drop_bit 3 (of_nat (8 * n) :: ulong) AND 63) = n mod 64"
proof -
  have "drop_bit 3 (of_nat (8 * n) :: ulong) AND 63 = take_bit 6 (drop_bit 3 (of_nat (8 * n)))"
    by (simp add: take_bit_eq_mask mask_eq_exp_minus_1)
  moreover have "unat (take_bit 6 (drop_bit 3 (of_nat (8 * n) :: ulong))) = 8 * n mod 2 ^ 32 div 8 mod 64"
    by (simp only: unsigned_take_bit_eq unsigned_drop_bit_eq unat_of_nat)
      (simp only: take_bit_eq_mod drop_bit_eq_div, simp)
  moreover have "8 * n mod 2 ^ 32 = 8 * (n mod 2 ^ 29)"
    using mod_mult2_eq [of "8 * n" 8 "2 ^ 29"] by simp
  then have "8 * n mod 2 ^ 32 div 8 mod 64 = n mod 64"
    by (simp add: mod_mod_cancel)
  ultimately show ?thesis by simp
qed

lemma carry_div:
  fixes a b :: nat
  shows "(a + b) div 2 ^ 32 = a div 2 ^ 32 + b div 2 ^ 32
    + (if 2 ^ 32 \<le> a mod 2 ^ 32 + b mod 2 ^ 32 then 1 else 0)"
proof -
  let ?s = "a mod 2 ^ 32 + b mod 2 ^ 32"
  have "?s < 2 * 2 ^ 32" using mod_less_divisor [of "2 ^ 32" a] mod_less_divisor [of "2 ^ 32" b] by simp
  then have "?s div 2 ^ 32 = (if 2 ^ 32 \<le> ?s then 1 else 0)"
    using le_div_geq [of "2 ^ 32" ?s] by simp
  then show ?thesis by (simp only: div_add1_eq [of a b])
qed

lemma count_update:
  fixes c0 c1 sh :: ulong
  assumes "l < 2 ^ 32" and "c0 = of_nat (8 * n)" and "c1 = of_nat (8 * n div 2 ^ 32)"
    and "sh = push_bit 3 (of_nat l)"
  shows "c0 + sh = of_nat (8 * (n + l))"
    and "(if c0 + sh < sh then c1 + 1 else c1) + drop_bit 29 (of_nat l) = of_nat (8 * (n + l) div 2 ^ 32)"
proof -
  have sh: "sh = of_nat (8 * l)" using assms(4) by (simp add: push_bit_eq_mult)
  show sum: "c0 + sh = of_nat (8 * (n + l))"
    by (simp only: assms(2) sh distrib_left of_nat_add)
  have "unat (drop_bit 29 (of_nat l :: ulong)) = l div 2 ^ 29"
    using assms(1) by (simp only: unsigned_drop_bit_eq unat_of_nat) (simp add: drop_bit_eq_div take_bit_eq_mod)
  also have "\<dots> = 8 * l div 2 ^ 32"
    using div_mult_mult1 [of 8 l "2 ^ 29"] by simp
  finally have d: "drop_bit 29 (of_nat l :: ulong) = of_nat (8 * l div 2 ^ 32)"
    by (metis of_nat_unat ucast_id)
  have carry: "c0 + sh < sh \<longleftrightarrow> 2 ^ 32 \<le> 8 * n mod 2 ^ 32 + 8 * l mod 2 ^ 32"
  proof -
    have u: "unat c0 = 8 * n mod 2 ^ 32" "unat sh = 8 * l mod 2 ^ 32"
      by (simp_all only: assms(2) sh unat_of_nat) simp_all
    have b: "unat c0 < 2 ^ 32" "unat sh < 2 ^ 32" using unsigned_less [of c0] unsigned_less [of sh] by simp_all
    have "c0 + sh < sh \<longleftrightarrow> (unat c0 + unat sh) mod 2 ^ 32 < unat sh"
      by (simp add: word_less_nat_alt unat_word_ariths)
    also have "\<dots> \<longleftrightarrow> 2 ^ 32 \<le> unat c0 + unat sh"
      using b le_mod_geq [of "2 ^ 32" "unat c0 + unat sh"] by (cases "unat c0 + unat sh < 2 ^ 32") auto
    finally show ?thesis by (simp only: u)
  qed
  show "(if c0 + sh < sh then c1 + 1 else c1) + drop_bit 29 (of_nat l) = of_nat (8 * (n + l) div 2 ^ 32)"
    unfolding carry d assms(3) distrib_left carry_div by simp
qed

lemma full_len_le: "full_len m \<le> length m"
  by (simp add: full_len_def)

lemma length_drop_full: "length (drop (full_len m) m) = length m mod 64"
  by (simp add: full_len_def)

lemma full_len_short:
  assumes "length m mod 64 + length d < 64"
  shows "full_len (m @ d) = full_len m"
proof -
  have "(length m + length d) mod 64 = length m mod 64 + length d"
    using assms by (metis mod_add_left_eq mod_less)
  then show ?thesis by (simp add: full_len_def)
qed

lemma tail_after_blocks:
  assumes "length a mod 64 = 0" and "length b = 64"
  shows "length (a @ b @ r) mod 64 = length r mod 64"
    and "drop (full_len (a @ b @ r)) (a @ b @ r) = drop (64 * (length r div 64)) r"
proof -
  obtain q where q: "length a = 64 * q" using assms(1) by auto
  have len: "length (a @ b @ r) = 64 * (q + 1) + length r" using q assms(2) by simp
  show "length (a @ b @ r) mod 64 = length r mod 64"
    unfolding len by (rule mod_mult_self4)
  have "length (a @ b @ r) div 64 = (q + 1) + length r div 64"
    unfolding len by (rule div_mult_self4) simp
  then have f: "full_len (a @ b @ r) = length (a @ b) + 64 * (length r div 64)"
    unfolding full_len_def minus_mod_eq_mult_div using q assms(2) by simp
  show "drop (full_len (a @ b @ r)) (a @ b @ r) = drop (64 * (length r div 64)) r"
    unfolding f by simp
qed

lemma update_short:
  assumes "sha_count ctx = (c0, c1)" and "unat (drop_bit 3 c0 AND 63) = j"
    and "(63 < j + length d) = False"
  shows "sha_state (SHA1Update ctx d) = sha_state ctx"
    and "sha_buffer (SHA1Update ctx d) = blit (sha_buffer ctx) j d"
  unfolding SHA1Update_def Let_def
  by (simp_all only: assms prod.case if_False SHA1_CTX.simps drop_0)

lemma update_long:
  assumes "sha_count ctx = (c0, c1)" and "unat (drop_bit 3 c0 AND 63) = j"
    and "(63 < j + length d) = True"
    and "transform_loop (SHA1Transform (sha_state ctx) b) d (64 - j) = (st, k)"
    and "b = blit (sha_buffer ctx) j (take (64 - j) d)"
  shows "sha_state (SHA1Update ctx d) = st"
    and "sha_buffer (SHA1Update ctx d) = blit b 0 (drop k d)"
  unfolding SHA1Update_def Let_def
  by (simp_all only: assms(1-3) assms(5) [symmetric] assms(4) prod.case if_True SHA1_CTX.simps)

lemma blit_front:
  assumes "length b = n" and "length s \<le> n"
  shows "length (blit b 0 s) = n \<and> take (length s) (blit b 0 s) = s"
  using assms by (simp add: blit_def)

lemma sha_repr_update:
  assumes "sha_repr ctx m" and "length d < 2 ^ 32"
  shows "sha_repr (SHA1Update ctx d) (m @ d)"
proof -
  let ?j = "length m mod 64" and ?t = "drop (full_len m) m"
  define c0 c1 :: ulong where "c0 = of_nat (8 * length m)" and "c1 = of_nat (8 * length m div 2 ^ 32)"
  define buf where "buf = sha_buffer ctx"
  have R: "length buf = 64" "sha_count ctx = (c0, c1)"
    "sha_state ctx = fold sha_compress (sha_blocks m) sha_H0" "take ?j buf = ?t"
    using assms(1) by (simp_all add: sha_repr_def buf_def c0_def c1_def)
  have lt: "length m - full_len m = ?j" by (simp add: full_len_def)
  have pos: "unat (drop_bit 3 c0 AND 63) = ?j" unfolding c0_def by (rule count_position)
  have cnt: "sha_count (SHA1Update ctx d) =
      (of_nat (8 * length (m @ d)), of_nat (8 * length (m @ d) div 2 ^ 32))"
    using count_update [OF assms(2) c0_def c1_def refl]
    unfolding sha_count_update R(2) Let_def prod.case length_append by simp
  show ?thesis
  proof (cases "63 < ?j + length d")
    case False
    then have s: "?j + length d < 64" by simp
    have upd: "sha_state (SHA1Update ctx d) = sha_state ctx"
      "sha_buffer (SHA1Update ctx d) = blit buf ?j d"
      using update_short [OF R(2) pos, of d] False by (simp_all add: buf_def)
    have "sha_blocks (m @ d) = sha_blocks m"
      unfolding blocks_split [of m d] using s
      by (simp only: sha_blocks_short length_append length_drop_full append_Nil2)
    moreover have "(length m + length d) mod 64 = ?j + length d"
      using s by (metis mod_add_left_eq mod_less)
    moreover have "take (?j + length d) (blit buf ?j d) = ?t @ d"
      using R(1,4) s by (simp add: blit_def lt)
    moreover have "drop (full_len m) (m @ d) = ?t @ d" using full_len_le [of m] by simp
    ultimately show ?thesis
      using R s cnt upd by (simp add: sha_repr_def full_len_short del: of_nat_mult)
  next
    case True
    define i where "i = 64 - ?j"
    let ?b = "blit buf ?j (take i d)" and ?r = "drop i d"
    have i: "i \<le> length d" "?j + i = 64" using True by (auto simp: i_def)
    then have b: "?b = ?t @ take i d" "length ?b = 64"
      using R(1,4) by (simp_all add: blit_def lt)
    define k where "k = i + 64 * ((length d - i) div 64)"
    have upd: "sha_state (SHA1Update ctx d) =
        fold sha_compress (sha_blocks ?r) (SHA1Transform (sha_state ctx) ?b)"
      "sha_buffer (SHA1Update ctx d) = blit ?b 0 (drop k d)"
      using update_long [OF R(2) pos _ transform_loop_eq [OF i(1) [unfolded i_def]] refl] True
      by (simp_all add: buf_def i_def k_def)
    have split: "?t @ d = ?b @ ?r" "m @ d = take (full_len m) m @ ?b @ ?r"
      unfolding b(1) by (simp_all add: full_len_def)
    have blocks: "sha_blocks (m @ d) = sha_blocks m @ ?b # sha_blocks ?r"
      unfolding blocks_split [of m d] split(1) using b(2) by (simp add: sha_blocks_step)
    have rest: "drop k d = drop (64 * (length ?r div 64)) ?r"
      by (simp add: k_def add.commute)
    have lr: "length (drop k d) = length ?r mod 64"
      unfolding rest by (simp only: length_drop minus_mult_div_eq_mod)
    have tail: "drop (full_len (m @ d)) (m @ d) = drop k d" "(length m + length d) mod 64 = length (drop k d)"
      using tail_after_blocks [OF full_len_mod [of m] b(2), of ?r] lr
      unfolding split(2) [symmetric] rest [symmetric] by (simp_all only: length_append)
    have "length (drop k d) \<le> 64" using lr mod_less_divisor [of 64 "length ?r"] by simp
    then have "length (blit ?b 0 (drop k d)) = 64 \<and>
        take (length (drop k d)) (blit ?b 0 (drop k d)) = drop k d"
      by (rule blit_front [OF b(2)])
    then show ?thesis
      using cnt upd tail blocks R(3) SHA1Transform_eq [OF b(2)]
      by (simp add: sha_repr_def del: of_nat_mult length_drop drop_append)
  qed
qed

section \<open>Padding and digest\<close>

lemma pad_pos_repr: "sha_repr ctx m \<Longrightarrow> pad_pos ctx = length m mod 64"
proof -
  assume "sha_repr ctx m"
  then have "fst (sha_count ctx) = of_nat (8 * length m)" by (simp add: sha_repr_def)
  then have "pad_pos ctx = 8 * length m mod 2 ^ 32 div 8 mod 64"
    by (simp only: pad_pos_def unat_of_nat) simp
  also have "8 * length m mod 2 ^ 32 = 8 * (length m mod 2 ^ 29)"
    using mod_mult2_eq [of "8 * length m" 8 "2 ^ 29"] by simp
  finally show ?thesis by (simp add: mod_mod_cancel)
qed

lemma pad_loop_stop: "pad_pos ctx = 56 \<Longrightarrow> SHA1_pad_loop ctx = ctx"
  by (subst SHA1_pad_loop.simps) (simp add: pad_field pad_pos_def)

lemma pad_loop_go: "pad_pos ctx \<noteq> 56 \<Longrightarrow> SHA1_pad_loop ctx = SHA1_pad_loop (SHA1Update ctx [0])"
  by (subst SHA1_pad_loop.simps) (simp add: pad_field pad_pos_def)

lemma pad_arith:
  assumes "x < 64" and "x \<noteq> 63" and "x \<noteq> 56"
  shows "(120 - x) mod 64 = Suc ((120 - Suc x) mod (64 :: nat))"
proof -
  have "\<forall>x \<in> set [0..<63]. x \<noteq> 56 \<longrightarrow> (120 - x) mod 64 = Suc ((120 - Suc x) mod (64 :: nat))"
    by code_simp
  with assms show ?thesis by simp
qed

lemma pad_loop_repr:
  "sha_repr ctx m \<Longrightarrow>
    sha_repr (SHA1_pad_loop ctx) (m @ replicate ((120 - length m mod 64) mod 64) 0)"
proof (induction "(120 - length m mod 64) mod 64" arbitrary: ctx m rule: less_induct)
  case less
  have p: "pad_pos ctx = length m mod 64" by (rule pad_pos_repr [OF less.prems])
  have lt: "length m mod 64 < 64" by simp
  show ?case
  proof (cases "length m mod 64 = 56")
    case True
    then show ?thesis using p less.prems by (simp add: pad_loop_stop)
  next
    case False
    have u: "sha_repr (SHA1Update ctx [0]) (m @ [0])" by (rule sha_repr_update [OF less.prems]) simp
    have nx: "(120 - length m mod 64) mod 64 = Suc ((120 - length (m @ [0]) mod 64) mod 64)"
    proof (cases "length m mod 64 = 63")
      case True
      then have "Suc (length m) mod 64 = 0" by (simp add: mod_Suc)
      with True show ?thesis by simp
    next
      case F: False
      then have "Suc (length m) mod 64 = Suc (length m mod 64)" using lt by (simp add: mod_Suc)
      then show ?thesis using pad_arith [OF lt F False] by simp
    qed
    have "sha_repr (SHA1_pad_loop (SHA1Update ctx [0]))
        ((m @ [0]) @ replicate ((120 - length (m @ [0]) mod 64) mod 64) 0)"
      using nx by (intro less.hyps [OF _ u]) simp
    moreover have "(m @ [0]) @ replicate ((120 - length (m @ [0]) mod 64) mod 64) 0 =
        m @ replicate ((120 - length m mod 64) mod 64) 0"
      unfolding nx by simp
    moreover have "SHA1_pad_loop ctx = SHA1_pad_loop (SHA1Update ctx [0])"
      using p False by (intro pad_loop_go) simp
    ultimately show ?thesis by simp
  qed
qed

lemma byte_of_ulong:
  "(ucast (drop_bit (k * 8) (of_nat n :: ulong) AND 255) :: byte) = of_nat (n mod 2 ^ 32 div 256 ^ k)"
proof (rule bit_word_eqI)
  fix i assume "i < LENGTH(8)"
  then have i: "i < 8" by simp
  have "(255 :: ulong) = mask 8" by (simp add: mask_eq_exp_minus_1)
  then have m: "drop_bit (k * 8) (of_nat n :: ulong) AND 255 = take_bit 8 (drop_bit (k * 8) (of_nat n))"
    by (simp only: take_bit_eq_mask)
  have "n mod 2 ^ 32 div 256 ^ k = drop_bit (k * 8) (take_bit 32 n)"
    by (simp add: drop_bit_eq_div take_bit_eq_mod power_mult mult.commute [of k 8])
  then show "bit (ucast (drop_bit (k * 8) (of_nat n :: ulong) AND 255) :: byte) i =
      bit (of_nat (n mod 2 ^ 32 div 256 ^ k) :: byte) i"
    unfolding m using i
    by (simp only: bit_ucast_iff bit_take_bit_iff bit_drop_bit_eq o_apply bit_of_nat_iff) auto
qed

lemma byte_of_nat_mod:
  assumes "k \<le> 3"
  shows "(of_nat (n mod 2 ^ 32 div 256 ^ k) :: byte) = of_nat (n div 256 ^ k)"
proof (rule bit_word_eqI)
  fix i assume "i < LENGTH(8)"
  then have i: "i < 8" by simp
  have "n mod 2 ^ 32 div 256 ^ k = drop_bit (8 * k) (take_bit 32 n)" "n div 256 ^ k = drop_bit (8 * k) n"
    by (simp_all add: drop_bit_eq_div take_bit_eq_mod power_mult)
  then show "bit (of_nat (n mod 2 ^ 32 div 256 ^ k) :: byte) i = bit (of_nat (n div 256 ^ k) :: byte) i"
    using i assms by (simp add: bit_of_nat_iff bit_drop_bit_eq bit_take_bit_iff)
qed

lemma digest_bytes:
  "map (\<lambda>i. ucast (drop_bit ((3 - i mod 4) * 8) ([s0, s1, s2, s3, s4] ! (i div 4)) AND 255)) [0..<20] =
   concat (map word_bytes [s0, s1, s2, s3, s4])"
proof -
  have "(ucast (w AND 255) :: byte) = ucast w" for w :: ulong
  proof (rule bit_word_eqI)
    fix i assume "i < LENGTH(8)"
    moreover have "(255 :: ulong) = mask 8" by (simp add: mask_eq_exp_minus_1)
    ultimately show "bit (ucast (w AND 255) :: byte) i = bit (ucast w :: byte) i"
      by (simp only: bit_ucast_iff bit_and_iff bit_mask_iff) auto
  qed
  then show ?thesis by (simp add: upt_rec word_bytes_def)
qed

lemma final_count:
  fixes n :: nat
  shows "map (\<lambda>i. ucast (drop_bit ((3 - i mod 4) * 8)
      (if 4 \<le> i then of_nat n else of_nat (n div 2 ^ 32) :: ulong) AND 255)) [0..<8] = be64 n"
proof -
  have "(ucast (drop_bit ((3 - i mod 4) * 8) (if 4 \<le> i then of_nat n else of_nat (n div 2 ^ 32) :: ulong)
      AND 255) :: byte) = of_nat (n div 256 ^ (7 - i))" if "i < 8" for i
  proof (cases "4 \<le> i")
    case True
    then have "3 - i mod 4 = 7 - i" using that by (simp add: mod_if)
    then show ?thesis using True by (simp only: if_True byte_of_ulong byte_of_nat_mod)
  next
    case False
    then have "3 - i mod 4 = 3 - i" by (simp add: mod_if)
    moreover have "n div 2 ^ 32 div 256 ^ (3 - i) = n div 256 ^ (7 - i)"
    proof -
      have "7 - i = 4 + (3 - i)" using False by simp
      then have "(256 :: nat) ^ (7 - i) = 2 ^ 32 * 256 ^ (3 - i)" by (simp only: power_add) simp
      then show ?thesis by (simp only: div_mult2_eq)
    qed
    ultimately show ?thesis using False
      by (simp only: if_False byte_of_ulong byte_of_nat_mod [of "3 - i"] diff_le_self)
  qed
  then show ?thesis unfolding be64_def by (intro map_cong refl) simp
qed

lemma pad_count: "(120 - (n + 1) mod 64) mod 64 = (119 - n mod 64) mod (64 :: nat)"
proof -
  have "\<forall>r \<in> set [0..<64]. (120 - (r + 1) mod 64) mod 64 = (119 - r) mod (64 :: nat)" by code_simp
  then have "(120 - (n mod 64 + 1) mod 64) mod 64 = (119 - n mod 64) mod (64 :: nat)" by simp
  then show ?thesis by (simp add: mod_simps)
qed

lemma SHA1Final_repr:
  assumes "sha_repr ctx m"
  shows "SHA1Final ctx = sha1_spec m"
proof -
  have "sha_repr (SHA1Update ctx [128]) (m @ [128])"
    by (rule sha_repr_update [OF assms]) simp
  from pad_loop_repr [OF this]
  have "sha_repr (SHA1_pad_loop (SHA1Update ctx [128]))
      (m @ [128] @ replicate ((119 - length m mod 64) mod 64) 0)"
    unfolding length_append list.size(3,4) by (simp only: pad_count append_assoc add_0 One_nat_def [symmetric])
  from sha_repr_update [OF this, of "be64 (8 * length m)"]
  have r: "sha_repr (SHA1Update (SHA1_pad_loop (SHA1Update ctx [128])) (be64 (8 * length m))) (sha_padded m)"
    by (simp add: sha_padded_def be64_def)
  have c: "sha_count ctx = (of_nat (8 * length m), of_nat (8 * length m div 2 ^ 32))"
    using assms by (simp add: sha_repr_def)
  have s: "sha_state (SHA1Update (SHA1_pad_loop (SHA1Update ctx [128])) (be64 (8 * length m))) =
      fold sha_compress (sha_blocks (sha_padded m)) sha_H0"
    using r by (simp only: sha_repr_def)
  show ?thesis
    unfolding SHA1Final_def Let_def c prod.case final_count s digest_bytes sha1_spec_def ..
qed

text \<open>
  C5. \<open>SHA1\<close> computes the SHA-1 digest of FIPS 180: the circular sixteen-word schedule, the
  byte swaps, the partial buffer with its bit counter in two words and the padding that is
  fed through \<open>SHA1Update\<close> byte by byte together give the compression of the padded message,
  block by block, whatever the stack buffer held before the call.
\<close>

theorem SHA1_is_FIPS:
  assumes "length stack = 64" and "length content < 2 ^ 32"
  shows "SHA1 stack content = sha1_spec content"
  unfolding SHA1_def
  using SHA1Final_repr [OF sha_repr_update [OF sha_repr_init [OF assms(1)] assms(2)]] by simp

theorem SHA1_is_FIPS_witness:
  "length (replicate 64 (7 :: byte)) = 64 \<and> length (ascii ''abc'') < 2 ^ 32 \<and>
   SHA1 (replicate 64 7) (ascii ''abc'') = sha1_spec (ascii ''abc'')"
proof -
  have "length (replicate 64 (7 :: byte)) = 64" "length (ascii ''abc'') < 2 ^ 32"
    by (simp_all add: ascii_def)
  with SHA1_is_FIPS [of "replicate 64 7" "ascii ''abc''"] show ?thesis by blast
qed

end
