(* ===== verification/Bt_Strbuf.thy ===== *)
theory Bt_Strbuf
  imports Bt_Prelude
begin

text \<open>
  \<open>strbuf.c\<close>: growable byte buffers. A buffer is the \<open>cpos\<close> bytes it holds and the size of
  its allocation (0 while \<open>buf\<close> is \<open>NULL\<close>). Every operation stores a terminating NUL at
  index \<open>cpos\<close>; the model checks that the index lies inside the allocation, so "no fault" says
  that the code never writes past it. The abstract view is the list of bytes, and each
  operation is an operation on lists.
\<close>

record kStringBuffer =
  sb_buf :: "byte list"
  sb_bufsize :: nat

definition kStringBuffer_create :: kStringBuffer where
  "kStringBuffer_create = \<lparr>sb_buf = [], sb_bufsize = 0\<rparr>"

definition kStringBuffer_finit :: "kStringBuffer \<Rightarrow> kStringBuffer" where
  "kStringBuffer_finit sb = sb\<lparr>sb_buf := [], sb_bufsize := 0\<rparr>"

text \<open>\<open>btrealloc\<close> ends the program when there is no memory; it is taken to succeed.\<close>

definition kStringBuffer_grow :: "kStringBuffer \<Rightarrow> nat \<Rightarrow> kStringBuffer" where
  "kStringBuffer_grow sb len = sb\<lparr>sb_bufsize := sb_bufsize sb + len\<rparr>"

definition sbclear :: "kStringBuffer \<Rightarrow> kStringBuffer" where
  "sbclear sb = kStringBuffer_finit sb"

text \<open>Replace the contents and store the NUL behind them: \<open>sb->buf[sb->cpos] = 0\<close>.\<close>

definition sb_store :: "kStringBuffer \<Rightarrow> byte list \<Rightarrow> fault + kStringBuffer" where
  "sb_store sb bs = (if length bs < sb_bufsize sb then Inr (sb\<lparr>sb_buf := bs\<rparr>) else Inl Oob)"

definition sbputc :: "kStringBuffer \<Rightarrow> byte \<Rightarrow> fault + kStringBuffer" where
  "sbputc sb c =
     (let sb' = (if length (sb_buf sb) + 1 \<ge> sb_bufsize sb then kStringBuffer_grow sb 1024 else sb)
      in sb_store sb' (sb_buf sb' @ [c]))"

text \<open>\<open>str\<close> is the memory at the pointer; a longer read than that is a fault.\<close>

definition sbcat :: "kStringBuffer \<Rightarrow> byte list \<Rightarrow> int \<Rightarrow> fault + kStringBuffer" where
  "sbcat sb str len =
     die_unless (0 \<le> len)
       (let n = nat len;
            sb' = (if length (sb_buf sb) + n \<ge> sb_bufsize sb
                   then kStringBuffer_grow sb (max (n + 1) 1024) else sb)
        in if length str < n then Inl Oob else sb_store sb' (sb_buf sb' @ take n str))"

definition sbstrcat :: "kStringBuffer \<Rightarrow> byte list \<Rightarrow> fault + kStringBuffer" where
  "sbstrcat sb str = sbcat sb str (int (length (c_string str)))"

definition sbtail :: "kStringBuffer \<Rightarrow> int \<Rightarrow> fault + kStringBuffer" where
  "sbtail sb start_char =
     die_unless (0 \<le> start_char \<and> start_char \<le> int (length (sb_buf sb)))
       (if start_char = 0 then Inr sb else sb_store sb (drop (nat start_char) (sb_buf sb)))"

text \<open>\<open>*s\<close> is a plain \<open>char\<close>, compared as a signed number with the \<open>int\<close> argument.\<close>

fun sbindex_from :: "byte list \<Rightarrow> int \<Rightarrow> int \<Rightarrow> int" where
  "sbindex_from [] ch count = - 1"
| "sbindex_from (b # bs) ch count = (if sint b \<noteq> ch then sbindex_from bs ch (count + 1) else count)"

definition sbindex :: "kStringBuffer \<Rightarrow> int \<Rightarrow> int" where
  "sbindex sb ch = sbindex_from (sb_buf sb) ch 0"

section \<open>The invariant and the list each operation implements\<close>

text \<open>Either nothing is allocated, or there is room for the contents and their NUL.\<close>

definition sb_ok :: "kStringBuffer \<Rightarrow> bool" where
  "sb_ok sb \<longleftrightarrow> length (sb_buf sb) < sb_bufsize sb \<or> sb_buf sb = [] \<and> sb_bufsize sb = 0"

lemma sb_ok_create [simp, bt_wf]: "sb_ok kStringBuffer_create"
  by (simp add: sb_ok_def kStringBuffer_create_def)

lemma sb_buf_create [simp]: "sb_buf kStringBuffer_create = []"
  by (simp add: kStringBuffer_create_def)

lemma sbclear_ok [simp, bt_wf]: "sb_ok (sbclear sb)" "sb_buf (sbclear sb) = []"
  by (simp_all add: sb_ok_def sbclear_def kStringBuffer_finit_def)

lemma sbcat_result:
  assumes "sb_ok sb" and "0 \<le> len" and "nat len \<le> length str"
  shows "\<exists>sb'. sbcat sb str len = Inr sb' \<and> sb_ok sb' \<and> sb_buf sb' = sb_buf sb @ take (nat len) str"
  using assms
  by (cases "length (sb_buf sb) + nat len \<ge> sb_bufsize sb")
    (auto simp: sbcat_def sb_store_def sb_ok_def kStringBuffer_grow_def Let_def)

lemma sbcat_all:
  assumes "sb_ok sb"
  shows "\<exists>sb'. sbcat sb str (int (length str)) = Inr sb' \<and> sb_ok sb' \<and> sb_buf sb' = sb_buf sb @ str"
  using sbcat_result [OF assms, of "int (length str)" str] by simp

lemma sbcat_negative: "len < 0 \<Longrightarrow> sbcat sb str len = Inl Abort"
  by (simp add: sbcat_def)

lemma sbcatD [bt_bind]:
  "sbcat sb str len = Inr sb' \<Longrightarrow>
     0 \<le> len \<and> sb_buf sb' = sb_buf sb @ take (nat len) str \<and> length (sb_buf sb') < sb_bufsize sb'"
  by (auto simp: sbcat_def sb_store_def die_unless_def Let_def kStringBuffer_grow_def split: if_splits)

lemma sbputc_result:
  assumes "sb_ok sb"
  shows "\<exists>sb'. sbputc sb c = Inr sb' \<and> sb_ok sb' \<and> sb_buf sb' = sb_buf sb @ [c]"
  using assms
  by (cases "length (sb_buf sb) + 1 \<ge> sb_bufsize sb")
    (auto simp: sbputc_def sb_store_def sb_ok_def kStringBuffer_grow_def Let_def)

lemma sbtail_result:
  assumes "sb_ok sb" and "0 \<le> n" and "n \<le> int (length (sb_buf sb))"
  shows "\<exists>sb'. sbtail sb n = Inr sb' \<and> sb_ok sb' \<and> sb_buf sb' = drop (nat n) (sb_buf sb)"
  using assms by (auto simp: sbtail_def sb_store_def sb_ok_def)

lemma sbtail_too_far: "int (length (sb_buf sb)) < n \<Longrightarrow> sbtail sb n = Inl Abort"
  by (simp add: sbtail_def)

lemma sbindex_from_spec:
  "sbindex_from bs ch k =
     (if ch \<in> sint ` set bs then k + int (length (takeWhile (\<lambda>b. sint b \<noteq> ch) bs)) else - 1)"
  by (induction bs arbitrary: k) auto

text \<open>The first position holding the character, read as a signed \<open>char\<close>.\<close>

lemma sbindex_found:
  "sbindex sb ch =
     (if ch \<in> sint ` set (sb_buf sb)
      then int (length (takeWhile (\<lambda>b. sint b \<noteq> ch) (sb_buf sb))) else - 1)"
  by (simp add: sbindex_def sbindex_from_spec)

lemma sbindex_high_byte: "127 < ch \<Longrightarrow> sbindex sb ch = - 1"
proof -
  assume ch: "127 < ch"
  have "sint (b :: byte) < 128" for b using sint_lt [of b] by simp
  then have "sint (b :: byte) \<noteq> ch" for b using ch by (smt (verit))
  then show ?thesis by (auto simp: sbindex_found)
qed

end
