(* ===== verification/Bt_Stream.thy ===== *)
theory Bt_Stream
  imports Bt_Strbuf
begin

text \<open>
  \<open>stream.c\<close>: a socket with an input and an output \<open>kStringBuffer\<close>. The kernel's side of the
  socket is a script of the outcomes of its calls: what arrives and in which pieces, and how
  much each write takes. \<open>recv\<close> hands over at most \<open>max\<close> bytes of the next piece and keeps the
  rest; \<open>write\<close> takes at most as many bytes as the script allows. The theory shows that the
  buffering neither loses, repeats nor reorders a byte in either direction.
\<close>

section \<open>The socket\<close>

definition EAGAIN :: int where "EAGAIN = 11"
definition ENOMEM :: int where "ENOMEM = 12"

definition BTERR_NETWORK_ERROR :: int where "BTERR_NETWORK_ERROR = 503"

datatype rx_event = Rx_data "byte list" | Rx_fail int
datatype tx_event = Tx_takes nat | Tx_fail int

record net =
  rx :: "rx_event list"
  tx :: "tx_event list"
  sent :: "byte list"

text \<open>A result of \<open>-1\<close> comes with the value of \<open>errno\<close>. A drained script is a socket that would block.\<close>

fun net_recv :: "net \<Rightarrow> nat \<Rightarrow> int \<times> int \<times> byte list \<times> net" where
  "net_recv n mx =
     (case rx n of
        [] \<Rightarrow> (- 1, EAGAIN, [], n)
      | Rx_fail e # r \<Rightarrow> (- 1, e, [], n\<lparr>rx := r\<rparr>)
      | Rx_data d # r \<Rightarrow>
          if length d \<le> mx then (int (length d), 0, d, n\<lparr>rx := r\<rparr>)
          else (int mx, 0, take mx d, n\<lparr>rx := Rx_data (drop mx d) # r\<rparr>))"

fun net_write :: "net \<Rightarrow> byte list \<Rightarrow> int \<times> int \<times> net" where
  "net_write n bs =
     (case tx n of
        [] \<Rightarrow> (- 1, EAGAIN, n)
      | Tx_fail e # r \<Rightarrow> (- 1, e, n\<lparr>tx := r\<rparr>)
      | Tx_takes k # r \<Rightarrow> (int (min k (length bs)), 0, n\<lparr>tx := r, sent := sent n @ take k bs\<rparr>))"

definition rx_bytes :: "net \<Rightarrow> byte list" where
  "rx_bytes n = concat (map (\<lambda>e. case e of Rx_data d \<Rightarrow> d | Rx_fail _ \<Rightarrow> []) (rx n))"

section \<open>The stream\<close>

record kStream =
  str_fd :: int
  inputready :: int
  str_error :: int
  error_count :: int
  read_count :: int
  write_count :: int
  ibuf :: kStringBuffer
  obuf :: kStringBuffer

definition kStream_create :: "kStream \<Rightarrow> int \<Rightarrow> kStream" where
  "kStream_create str sd =
     str\<lparr>str_fd := sd, ibuf := kStringBuffer_create, obuf := kStringBuffer_create\<rparr>"

definition kStream_zero :: kStream where
  "kStream_zero = \<lparr>str_fd = 0, inputready = 0, str_error = 0, error_count = 0, read_count = 0,
     write_count = 0, ibuf = kStringBuffer_create, obuf = kStringBuffer_create\<rparr>"

definition kStream_finit :: "kStream \<Rightarrow> kStream" where
  "kStream_finit str = str\<lparr>ibuf := kStringBuffer_finit (ibuf str), obuf := kStringBuffer_finit (obuf str)\<rparr>"

definition kStream_read :: "kStream \<Rightarrow> net \<Rightarrow> nat \<Rightarrow> int \<times> byte list \<times> kStream \<times> net" where
  "kStream_read str n mx =
     (let (nread, errno, bs, n') = net_recv n mx in
      if nread > 0 then
        (nread, bs, str\<lparr>error_count := 0, read_count := read_count str + nread\<rparr>, n')
      else
        let errno = (if nread = 0 then EAGAIN else errno);
            count = (if errno = EAGAIN then error_count str + 1 else error_count str);
            errno' = (if errno = EAGAIN \<and> count > 10 then BTERR_NETWORK_ERROR else errno)
        in (- 1, [], str\<lparr>error_count := count, str_error := errno'\<rparr>, n'))"

definition kStream_write :: "kStream \<Rightarrow> net \<Rightarrow> byte list \<Rightarrow> int \<times> kStream \<times> net" where
  "kStream_write str n buf =
     (let (nwrite, errno, n') = net_write n buf in
      if nwrite < 0 then (nwrite, str\<lparr>str_error := errno\<rparr>, n')
      else
        let str = str\<lparr>write_count := write_count str + nwrite\<rparr>;
            str = (if nwrite < int (length buf) then str\<lparr>str_error := EAGAIN\<rparr> else str)
        in (nwrite, str, n'))"

definition kStream_iqlen :: "kStream \<Rightarrow> int" where
  "kStream_iqlen str = int (length (sb_buf (ibuf str)))"

definition kStream_oqlen :: "kStream \<Rightarrow> int" where
  "kStream_oqlen str = int (length (sb_buf (obuf str)))"

definition kStream_in_addr :: "kStream \<Rightarrow> int" where
  "kStream_in_addr str = read_count str - int (length (sb_buf (ibuf str)))"

definition kStream_out_addr :: "kStream \<Rightarrow> int" where
  "kStream_out_addr str = write_count str + int (length (sb_buf (obuf str)))"

lemma kStream_read_nonneg:
  assumes "kStream_read str n mx = (nread, tbuf, str', n')" and "0 < nread"
  shows "length tbuf = nat nread" and "ibuf str' = ibuf str"
  using assms
  by (auto simp: kStream_read_def Let_def split: prod.splits if_splits list.splits rx_event.splits)

text \<open>
  The loop of \<open>kStream_fpeek\<close>: read pieces of at most 1024 bytes until \<open>size\<close> bytes are
  buffered or the socket has no more; each turn that goes on has buffered at least one byte.
\<close>

function fpeek_loop :: "kStream \<Rightarrow> net \<Rightarrow> nat \<Rightarrow> fault + (int \<times> kStream \<times> net)" where
  "fpeek_loop str n want =
     (if length (sb_buf (ibuf str)) < want then
        (case kStream_read str n 1024 of (nread, tbuf, str', n') \<Rightarrow>
           if nread < 0 then Inr (nread, str', n')
           else if nread = 0 then Inl Oob
           else bindR (sbcat (ibuf str') tbuf nread) (\<lambda>ib. fpeek_loop (str'\<lparr>ibuf := ib\<rparr>) n' want))
      else Inr (int want, str, n))"
  by pat_completeness auto
termination
proof (relation "measure (\<lambda>(str, n, want). want - length (sb_buf (ibuf str)))", goal_cases)
  case 1
  show ?case by simp
next
  case (2 str n want nread q tbuf q' str' n' ib)
  then have "kStream_read str n 1024 = (nread, tbuf, str', n')" "0 < nread"
    and c: "sbcat (ibuf str') tbuf nread = Inr ib" by auto
  note ib = kStream_read_nonneg [OF this(1,2)]
  have "length (sb_buf ib) = length (sb_buf (ibuf str)) + nat nread"
    using sbcatD [OF c] ib by simp
  then show ?case using 2(1) \<open>0 < nread\<close> by simp
qed

declare fpeek_loop.simps [simp del]
definition kStream_fpeek :: "kStream \<Rightarrow> net \<Rightarrow> int \<Rightarrow> fault + (int \<times> byte list \<times> kStream \<times> net)" where
  "kStream_fpeek str n sz =
     (if sz < 0 then Inl Oob
      else bindR (fpeek_loop str n (nat sz)) (\<lambda>(res, str', n').
        if res < 0 then Inr (res, [], str', n')
        else Inr (sz, take (nat sz) (sb_buf (ibuf str')), str', n')))"

text \<open>
  A non-positive result leaves the caller's buffer alone; the bytes it got otherwise are the
  list returned.
\<close>

definition kStream_fread :: "kStream \<Rightarrow> net \<Rightarrow> int \<Rightarrow> fault + (int \<times> byte list \<times> kStream \<times> net)" where
  "kStream_fread str n sz =
     bindR (kStream_fpeek str n sz) (\<lambda>(res, buf, str', n').
       if res > 0 then
         bindR (sbtail (ibuf str') sz) (\<lambda>ib. Inr (res, buf, str'\<lparr>ibuf := ib\<rparr>, n'))
       else Inr (res, buf, str', n'))"

definition kStream_clear :: "kStream \<Rightarrow> kStream" where
  "kStream_clear str = str\<lparr>obuf := sbclear (obuf str)\<rparr>"

definition kStream_flush :: "kStream \<Rightarrow> net \<Rightarrow> fault + (int \<times> kStream \<times> net)" where
  "kStream_flush str n =
     (case kStream_write str n (sb_buf (obuf str)) of (nwrite, str', n') \<Rightarrow>
        bindR (if nwrite > 0 then sbtail (obuf str') nwrite else Inr (obuf str')) (\<lambda>ob.
          let str'' = str'\<lparr>obuf := ob\<rparr> in
          Inr (if nwrite \<le> 0 \<and> str_error str'' \<noteq> EAGAIN then - 1 else int (length (sb_buf ob)), str'', n')))"

definition kStream_fwrite :: "kStream \<Rightarrow> net \<Rightarrow> byte list \<Rightarrow> int \<Rightarrow> fault + (int \<times> kStream \<times> net)" where
  "kStream_fwrite str n buf len =
     bindR (sbcat (obuf str) buf len) (\<lambda>ob. kStream_flush (str\<lparr>obuf := ob\<rparr>) n)"

section \<open>Reading\<close>

definition str_ok :: "kStream \<Rightarrow> bool" where
  "str_ok str \<longleftrightarrow> sb_ok (ibuf str) \<and> sb_ok (obuf str)"

text \<open>The bytes a reader of the stream has still to see.\<close>

definition in_pending :: "kStream \<Rightarrow> net \<Rightarrow> byte list" where
  "in_pending str n = sb_buf (ibuf str) @ rx_bytes n"

lemma str_ok_create [simp, bt_wf]: "str_ok (kStream_create str sd)"
  by (simp add: str_ok_def kStream_create_def)

lemma kStream_readD:
  assumes "kStream_read str n mx = (r, bs, str', n')"
  shows "bs @ rx_bytes n' = rx_bytes n" and "ibuf str' = ibuf str" and "obuf str' = obuf str"
    and "sent n' = sent n" and "read_count str' = read_count str + int (length bs)"
    and "r = int (length bs) \<and> bs \<noteq> [] \<or> r = - 1 \<and> bs = []"
  using assms
  by (auto simp: kStream_read_def Let_def rx_bytes_def
      split: prod.splits if_splits list.splits rx_event.splits)

lemma kStream_read_live:
  assumes "rx n = Rx_data d # r" and "d \<noteq> []" and "0 < mx"
  shows "\<exists>bs str' n'. kStream_read str n mx = (int (length bs), bs, str', n') \<and> bs \<noteq> [] \<and>
    rx n' = (if length d \<le> mx then r else Rx_data (drop mx d) # r)"
  using assms by (auto simp: kStream_read_def Let_def)

lemma fpeek_loop_result:
  assumes "str_ok str"
  shows "\<exists>res str' n'. fpeek_loop str n want = Inr (res, str', n') \<and> str_ok str' \<and>
    in_pending str' n' = in_pending str n \<and> kStream_in_addr str' = kStream_in_addr str \<and>
    obuf str' = obuf str \<and> sent n' = sent n \<and>
    (res = int want \<and> want \<le> length (sb_buf (ibuf str')) \<or> res = - 1)"
  using assms
proof (induction str n want rule: fpeek_loop.induct)
  case (1 str n want)
  show ?case
  proof (cases "length (sb_buf (ibuf str)) < want")
    case False
    then show ?thesis using 1(2) by (subst fpeek_loop.simps) simp
  next
    case True
    obtain r bs str' n' where r: "kStream_read str n 1024 = (r, bs, str', n')"
      by (metis prod_cases4)
    note d = kStream_readD [OF r]
    from d(6) show ?thesis
    proof
      assume "r = - 1 \<and> bs = []"
      then show ?thesis using 1(2) True r d(1-5)
        by (subst fpeek_loop.simps) (simp add: str_ok_def in_pending_def kStream_in_addr_def)
    next
      assume bs: "r = int (length bs) \<and> bs \<noteq> []"
      then have pos: "\<not> r < 0" "r \<noteq> 0" by auto
      obtain ib where ib: "sbcat (ibuf str') bs r = Inr ib" "sb_ok ib" "sb_buf ib = sb_buf (ibuf str) @ bs"
        using sbcat_all [of "ibuf str'" bs] bs d(2) 1(2) by (auto simp: str_ok_def)
      let ?s = "str'\<lparr>ibuf := ib\<rparr>"
      have ok: "str_ok ?s" using ib(2) d(3) 1(2) by (simp add: str_ok_def)
      have keep: "in_pending ?s n' = in_pending str n" "kStream_in_addr ?s = kStream_in_addr str"
        using ib(3) d by (auto simp: in_pending_def kStream_in_addr_def)
      have "fpeek_loop str n want = fpeek_loop ?s n' want"
        using True r pos ib(1) by (subst fpeek_loop.simps) simp
      then show ?thesis
        using 1(1) [OF True r [symmetric] refl refl pos ib(1) ok] keep d(3,4) by simp
    qed
  qed
qed

lemma kStream_fread_result:
  assumes "str_ok str"
  shows "\<exists>res buf str' n'. kStream_fread str n (int k) = Inr (res, buf, str', n') \<and> str_ok str' \<and>
    buf @ in_pending str' n' = in_pending str n \<and>
    kStream_in_addr str' = kStream_in_addr str + int (length buf) \<and>
    (res = int k \<and> length buf = k \<or> res = - 1 \<and> buf = []) \<and>
    obuf str' = obuf str \<and> sent n' = sent n"
proof -
  obtain res str' n' where l: "fpeek_loop str n k = Inr (res, str', n')" "str_ok str'"
    "in_pending str' n' = in_pending str n" "kStream_in_addr str' = kStream_in_addr str"
    "obuf str' = obuf str" "sent n' = sent n"
    "res = int k \<and> k \<le> length (sb_buf (ibuf str')) \<or> res = - 1"
    using fpeek_loop_result [OF assms] by blast
  from l(7) show ?thesis
  proof
    assume "res = - 1"
    then show ?thesis using l(1-6) by (simp add: kStream_fread_def kStream_fpeek_def)
  next
    assume k: "res = int k \<and> k \<le> length (sb_buf (ibuf str'))"
    show ?thesis
    proof (cases "k = 0")
      case True
      then show ?thesis using k l(1-6) by (simp add: kStream_fread_def kStream_fpeek_def)
    next
      case False
      obtain ib where "sbtail (ibuf str') (int k) = Inr ib" "sb_ok ib" "sb_buf ib = drop k (sb_buf (ibuf str'))"
        using sbtail_result [of "ibuf str'" "int k"] k l(2) by (auto simp: str_ok_def)
      then show ?thesis using k False l
        by (auto simp: kStream_fread_def kStream_fpeek_def str_ok_def in_pending_def kStream_in_addr_def
            append_assoc [symmetric] simp del: append_assoc)
    qed
  qed
qed

text \<open>When enough bytes have arrived, whatever the pieces, the read completes.\<close>

lemma fpeek_loop_live:
  assumes "str_ok str" and "\<forall>e \<in> set (rx n). \<exists>d. e = Rx_data d \<and> d \<noteq> []"
    and "want \<le> length (in_pending str n)"
  shows "\<exists>str' n'. fpeek_loop str n want = Inr (int want, str', n')"
  using assms
proof (induction str n want rule: fpeek_loop.induct)
  case (1 str n want)
  show ?case
  proof (cases "length (sb_buf (ibuf str)) < want")
    case False
    then show ?thesis by (subst fpeek_loop.simps) simp
  next
    case True
    have "rx n \<noteq> []" using True 1(4) by (auto simp: in_pending_def rx_bytes_def)
    then obtain d r where rx: "rx n = Rx_data d # r" "d \<noteq> []"
      using 1(3) by (cases "rx n") auto
    obtain bs str' n' where read: "kStream_read str n 1024 = (int (length bs), bs, str', n')"
      and bs: "bs \<noteq> []" and rx': "rx n' = (if length d \<le> 1024 then r else Rx_data (drop 1024 d) # r)"
      using kStream_read_live [OF rx, of 1024 str] by auto
    note d = kStream_readD [OF read]
    obtain ib where ib: "sbcat (ibuf str') bs (int (length bs)) = Inr ib" "sb_ok ib"
      "sb_buf ib = sb_buf (ibuf str) @ bs"
      using sbcat_all [of "ibuf str'" bs] d(2) 1(2) by (auto simp: str_ok_def)
    let ?s = "str'\<lparr>ibuf := ib\<rparr>"
    have "str_ok ?s" using ib(2) d(3) 1(2) by (simp add: str_ok_def)
    moreover have "in_pending ?s n' = in_pending str n"
      using ib(3) d by (auto simp: in_pending_def)
    moreover have "\<forall>e \<in> set (rx n'). \<exists>d. e = Rx_data d \<and> d \<noteq> []"
      using 1(3) rx rx' by (auto split: if_splits)
    moreover have pos: "\<not> int (length bs) < 0" "int (length bs) \<noteq> 0" using bs by auto
    moreover have "fpeek_loop str n want = fpeek_loop ?s n' want"
      using True read pos ib(1) by (subst fpeek_loop.simps) simp
    ultimately show ?thesis
      using 1(1) [OF True read [symmetric] refl refl pos ib(1)] 1(4) by simp
  qed
qed

lemma kStream_fread_live:
  assumes "str_ok str" and "\<forall>e \<in> set (rx n). \<exists>d. e = Rx_data d \<and> d \<noteq> []"
    and "k \<le> length (in_pending str n)"
  shows "\<exists>str' n'. kStream_fread str n (int k) = Inr (int k, take k (in_pending str n), str', n')"
proof -
  obtain str1 n1 where l: "fpeek_loop str n k = Inr (int k, str1, n1)"
    using fpeek_loop_live [OF assms] by blast
  obtain res buf str' n' where f: "kStream_fread str n (int k) = Inr (res, buf, str', n')"
    "buf @ in_pending str' n' = in_pending str n"
    "res = int k \<and> length buf = k \<or> res = - 1 \<and> buf = []"
    using kStream_fread_result [OF assms(1), of n k] by blast
  have "res = int k"
    using f(1) l by (auto simp: kStream_fread_def kStream_fpeek_def bt_bind split: if_splits)
  then have "length buf = k" using f(3) by auto
  then have "buf = take k (in_pending str n)" using f(2) by (metis append_eq_conv_conj)
  then show ?thesis using f(1) \<open>res = int k\<close> by blast
qed

section \<open>Writing\<close>

lemma kStream_writeD:
  assumes "kStream_write str n bs = (r, str', n')"
  shows "sent n' = sent n @ take (nat r) bs" and "r \<le> int (length bs)" and "- 1 \<le> r"
    and "ibuf str' = ibuf str" and "obuf str' = obuf str" and "rx n' = rx n"
    and "read_count str' = read_count str"
    and "write_count str' = write_count str + int (nat r)"
    and "0 < r \<and> nat r < length bs \<Longrightarrow> str_error str' = EAGAIN"
  using assms
  by (auto simp: kStream_write_def Let_def split: prod.splits if_splits list.splits tx_event.splits)

lemma kStream_flush_result:
  assumes "str_ok str"
  shows "\<exists>res str' n'. kStream_flush str n = Inr (res, str', n') \<and> str_ok str' \<and>
    sent n' @ sb_buf (obuf str') = sent n @ sb_buf (obuf str) \<and>
    kStream_out_addr str' = kStream_out_addr str \<and>
    in_pending str' n' = in_pending str n \<and> kStream_in_addr str' = kStream_in_addr str \<and>
    (res = kStream_oqlen str' \<or> res = - 1 \<and> str_error str' \<noteq> EAGAIN \<and> sent n' = sent n)"
proof -
  let ?bs = "sb_buf (obuf str)"
  obtain r str1 n1 where w: "kStream_write str n ?bs = (r, str1, n1)" by (metis prod_cases3)
  note d = kStream_writeD [OF w]
  show ?thesis
  proof (cases "r > 0")
    case False
    then show ?thesis using w d(1-8) assms
      by (auto simp: kStream_flush_def Let_def str_ok_def kStream_out_addr_def in_pending_def
          rx_bytes_def kStream_in_addr_def kStream_oqlen_def)
  next
    case True
    obtain ob where ob: "sbtail (obuf str1) r = Inr ob" "sb_ok ob" "sb_buf ob = drop (nat r) ?bs"
      using sbtail_result [of "obuf str1" r] True d(2,5) assms by (auto simp: str_ok_def)
    have out: "write_count str + int (nat r) + int (length (drop (nat r) ?bs)) = write_count str + int (length ?bs)"
      using True d(2) by auto
    show ?thesis using w d(1,4,6-8) True ob assms out
      by (simp add: kStream_flush_def Let_def str_ok_def kStream_out_addr_def in_pending_def
          rx_bytes_def kStream_in_addr_def kStream_oqlen_def)
  qed
qed

lemma kStream_fwrite_result:
  assumes "str_ok str"
  shows "\<exists>res str' n'. kStream_fwrite str n buf (int (length buf)) = Inr (res, str', n') \<and> str_ok str' \<and>
    sent n' @ sb_buf (obuf str') = sent n @ sb_buf (obuf str) @ buf \<and>
    kStream_out_addr str' = kStream_out_addr str + int (length buf) \<and>
    in_pending str' n' = in_pending str n \<and> kStream_in_addr str' = kStream_in_addr str \<and>
    (res = kStream_oqlen str' \<or> res = - 1 \<and> str_error str' \<noteq> EAGAIN \<and> sent n' = sent n)"
proof -
  obtain ob where ob: "sbcat (obuf str) buf (int (length buf)) = Inr ob" "sb_ok ob"
    "sb_buf ob = sb_buf (obuf str) @ buf"
    using sbcat_all [of "obuf str" buf] assms by (auto simp: str_ok_def)
  have ok: "str_ok (str\<lparr>obuf := ob\<rparr>)" using ob(2) assms by (simp add: str_ok_def)
  show ?thesis
    using kStream_flush_result [OF ok, of n] ob(1,3)
    by (auto simp: kStream_fwrite_def kStream_out_addr_def in_pending_def kStream_in_addr_def)
qed

text \<open>
  Flushing an empty queue reports an error unless an \<open>EAGAIN\<close> of an earlier call is still
  recorded: \<open>write\<close> of nothing returns 0 and \<open>nwrite <= 0\<close> is taken for a failure.
\<close>

lemma kStream_flush_empty:
  assumes "sb_buf (obuf str) = []" and "str_error str \<noteq> EAGAIN" and "tx n = Tx_takes k # r"
  shows "\<exists>str' n'. kStream_flush str n = Inr (- 1, str', n')"
  using assms by (simp add: kStream_flush_def kStream_write_def Let_def)

text \<open>A socket that is polled readable but has no data is given up at the eleventh attempt.\<close>

fun dry_reads :: "nat \<Rightarrow> net \<Rightarrow> kStream \<Rightarrow> kStream" where
  "dry_reads 0 n str = str"
| "dry_reads (Suc k) n str = (case kStream_read (dry_reads k n str) n 1024 of (_, _, s, _) \<Rightarrow> s)"

lemma dry_reads_result:
  assumes "rx n = []"
  shows "error_count (dry_reads k n str) = error_count str + int k \<and>
    (0 < k \<longrightarrow> str_error (dry_reads k n str) =
       (if error_count str + int k > 10 then BTERR_NETWORK_ERROR else EAGAIN))"
  using assms by (induction k) (auto simp: kStream_read_def Let_def EAGAIN_def)

section \<open>What the stream promises\<close>


definition demo_net :: net where
  "demo_net = \<lparr>rx = [Rx_data [1, 2], Rx_data [3, 4, 5]], tx = [Tx_takes 2], sent = []\<rparr>"


text \<open>
  C7. \<open>kStream_fwrite\<close> queues the bytes behind those already queued and hands the kernel a prefix
  of the queue: bytes accepted by the kernel followed by bytes still queued are the old ones
  followed by the new ones. The result is the number of bytes still queued, or -1 when the
  write failed with a recorded error other than \<open>EAGAIN\<close> (or took nothing while one was recorded) and no byte went out.
\<close>

theorem kStream_fwrite_in_order:
  assumes "str_ok str"
  shows "\<exists>res str' n'. kStream_fwrite str n buf (int (length buf)) = Inr (res, str', n') \<and> str_ok str' \<and>
    sent n' @ sb_buf (obuf str') = sent n @ sb_buf (obuf str) @ buf \<and>
    kStream_out_addr str' = kStream_out_addr str + int (length buf) \<and>
    in_pending str' n' = in_pending str n \<and>
    (res = kStream_oqlen str' \<or> res = - 1 \<and> str_error str' \<noteq> EAGAIN \<and> sent n' = sent n)"
  using kStream_fwrite_result [OF assms, of n buf] by blast

theorem kStream_fwrite_in_order_witness:
  "\<exists>res str' n'. kStream_fwrite (kStream_create kStream_zero 5) demo_net [9, 8, 7] 3 = Inr (res, str', n') \<and>
     sent n' @ sb_buf (obuf str') = [9, 8, 7] \<and> kStream_out_addr str' = 3"
proof -
  have "sent demo_net @ sb_buf (obuf (kStream_create kStream_zero 5)) = []"
    "kStream_out_addr (kStream_create kStream_zero 5) = 0"
    by (simp_all add: demo_net_def kStream_create_def kStream_zero_def kStream_out_addr_def)
  then show ?thesis
    using kStream_fwrite_in_order [of "kStream_create kStream_zero 5" demo_net "[9, 8, 7]"]
    by fastforce
qed

text \<open>
  Attempts to read from a socket without data record \<open>EAGAIN\<close> up to the tenth and
  \<open>BTERR_NETWORK_ERROR\<close> from the eleventh on, counted over all attempts since the last data.
\<close>

theorem kStream_read_gives_up:
  assumes "rx n = []" and "error_count str = 0" and "0 < k"
  shows "str_error (dry_reads k n str) = (if k \<le> 10 then EAGAIN else BTERR_NETWORK_ERROR)"
  using dry_reads_result [OF assms(1), of k str] assms(2,3) by auto

theorem kStream_read_gives_up_witness:
  "str_error (dry_reads 11 (demo_net\<lparr>rx := []\<rparr>) (kStream_create kStream_zero 5)) = BTERR_NETWORK_ERROR"
  using kStream_read_gives_up [of "demo_net\<lparr>rx := []\<rparr>" "kStream_create kStream_zero 5" 11]
  by (simp add: kStream_create_def kStream_zero_def)

end
