(* ===== verification/Bt_Bts.thy ===== *)
theory Bt_Bts
  imports Bt_Prelude
begin

text \<open>
  \<open>bts.c\<close>: the byte streams the bencoder reads and writes, in memory (\<open>btStrStream\<close>) or over a
  \<open>FILE\<close> (\<open>btFileStream\<close>); the function pointers of \<open>btStream\<close> become the two constructors. What
  a reader relies on is stated once, as the locale \<open>byte_source\<close>, and what a writer relies on as
  \<open>byte_sink\<close>; both are interpreted on the streams of the code.
\<close>

section \<open>The interfaces\<close>

text \<open>
  A source answers a read with a status, the bytes and the new source. \<open>avail\<close> are the bytes
  still to come.
\<close>

locale byte_source =
  fixes rd :: "'s \<Rightarrow> nat \<Rightarrow> int \<times> byte list \<times> 's"
    and pk :: "'s \<Rightarrow> int"
    and avail :: "'s \<Rightarrow> byte list"
  assumes rd_enough: "0 < n \<Longrightarrow> n \<le> length (avail s) \<Longrightarrow>
      \<exists>s'. rd s n = (0, take n (avail s), s') \<and> avail s' = drop n (avail s)"
    and rd_short: "length (avail s) < n \<Longrightarrow> fst (rd s n) \<noteq> 0"
    and pk_head: "pk s = (case avail s of [] \<Rightarrow> - 1 | b # _ \<Rightarrow> uint b)"
begin

lemma rd_front:
  assumes "avail s = bs @ r" and "bs \<noteq> []"
  shows "\<exists>s'. rd s (length bs) = (0, bs, s') \<and> avail s' = r"
  using rd_enough [of "length bs" s] assms by auto

lemma rd_one:
  assumes "avail s = b # r"
  shows "\<exists>s'. rd s 1 = (0, [b], s') \<and> avail s' = r"
  using rd_front [of s "[b]" r] assms by simp

lemma pk_Cons: "avail s = b # r \<Longrightarrow> pk s = uint b"
  by (simp add: pk_head)

lemma pk_end: "pk s < 0 \<longleftrightarrow> avail s = []"
proof -
  have "0 \<le> uint (b :: byte)" for b by simp
  then show ?thesis by (auto simp: pk_head not_less split: list.splits)
qed

text \<open>A read that succeeds has delivered the next bytes, all of them.\<close>

lemma rd_ok:
  assumes "rd s n = (0, bs, s')" and "0 < n"
  shows "length bs = n \<and> avail s = bs @ avail s'"
proof (cases "n \<le> length (avail s)")
  case True
  then show ?thesis using rd_enough [OF assms(2) True] assms(1) by auto
next
  case False
  then show ?thesis using rd_short [of s n] assms(1) by simp
qed

end

locale byte_sink =
  fixes wr :: "'s \<Rightarrow> byte list \<Rightarrow> fault + (int \<times> 's)"
    and written :: "'s \<Rightarrow> byte list"
    and open_out :: "'s \<Rightarrow> bool"
  assumes wr_ok: "open_out s \<Longrightarrow>
      \<exists>s'. wr s bs = Inr (0, s') \<and> written s' = written s @ bs \<and> open_out s'"
begin

text \<open>Writing piece after piece, keeping the or of the results, is writing their concatenation.\<close>

primrec wr_all :: "byte list list \<Rightarrow> 's \<Rightarrow> fault + (int \<times> 's)" where
  "wr_all [] s = Inr (0, s)"
| "wr_all (b # bs) s =
     bindR (wr s b) (\<lambda>(r, s). bindR (wr_all bs s) (\<lambda>(r', s). Inr (r OR r', s)))"

lemma wr_all_ok:
  "open_out s \<Longrightarrow>
     \<exists>s'. wr_all bs s = Inr (0, s') \<and> written s' = written s @ concat bs \<and> open_out s'"
proof (induction bs arbitrary: s)
  case (Cons b bs)
  obtain s1 where "wr s b = Inr (0, s1)" "written s1 = written s @ b" "open_out s1"
    using wr_ok [OF Cons.prems, of b] by blast
  then show ?case using Cons.IH [of s1] by auto
qed simp

end

section \<open>The two kinds of stream\<close>

datatype btsIo = BTS_INPUT | BTS_OUTPUT | BTS_FREE

text \<open>A \<open>FILE\<close> of the C library: its bytes, the position in them, and the direction it was opened in.\<close>

record FILE =
  f_data :: "byte list"
  f_pos :: nat
  f_writing :: bool

record btFileStream =
  fs_iodir :: btsIo
  fs_fp :: "FILE option"

text \<open>\<open>ss_buf\<close> holds the \<open>len\<close> valid bytes, \<open>ss_max\<close> is the size of the allocation.\<close>

record btStrStream =
  ss_iodir :: btsIo
  ss_cur :: nat
  ss_buf :: "byte list"
  ss_max :: nat

datatype btStream = BTFILESTREAM btFileStream | BTSTRSTREAM btStrStream

definition stdio_fread :: "FILE \<Rightarrow> nat \<Rightarrow> byte list \<times> FILE" where
  "stdio_fread f n =
     (if f_writing f then ([], f)
      else let bs = take n (drop (f_pos f) (f_data f)) in (bs, f\<lparr>f_pos := f_pos f + length bs\<rparr>))"

definition stdio_fwrite :: "FILE \<Rightarrow> byte list \<Rightarrow> nat \<times> FILE" where
  "stdio_fwrite f bs = (if f_writing f then (length bs, f\<lparr>f_data := f_data f @ bs\<rparr>) else (0, f))"

text \<open>A read of \<open>len > 0\<close> bytes; the bytes are meaningful when the status is 0.\<close>

fun bts_strstream_read :: "btStream \<Rightarrow> nat \<Rightarrow> int \<times> byte list \<times> btStream" where
  "bts_strstream_read (BTSTRSTREAM ss) len =
     (if ss_cur ss + len > length (ss_buf ss) then (1, [], BTSTRSTREAM ss)
      else (0, take len (drop (ss_cur ss) (ss_buf ss)), BTSTRSTREAM (ss\<lparr>ss_cur := ss_cur ss + len\<rparr>)))"
| "bts_strstream_read s len = (- 1, [], s)"

fun bts_strstream_peek :: "btStream \<Rightarrow> int" where
  "bts_strstream_peek (BTSTRSTREAM ss) =
     (if ss_cur ss \<ge> length (ss_buf ss) then - 1 else uint (ss_buf ss ! ss_cur ss))"
| "bts_strstream_peek s = - 1"

fun bts_strstream_write :: "btStream \<Rightarrow> byte list \<Rightarrow> int \<times> btStream" where
  "bts_strstream_write (BTSTRSTREAM ss) bs =
     (let ss = (if length (ss_buf ss) + length bs > ss_max ss
                then ss\<lparr>ss_max := length (ss_buf ss) + length bs + 100\<rparr> else ss)
      in (0, BTSTRSTREAM (ss\<lparr>ss_buf := ss_buf ss @ bs\<rparr>)))"
| "bts_strstream_write s bs = (- 1, s)"

fun bts_strstream_rewind :: "btStream \<Rightarrow> btsIo \<Rightarrow> int \<times> btStream" where
  "bts_strstream_rewind (BTSTRSTREAM ss) dir =
     (let ss = ss\<lparr>ss_iodir := dir\<rparr> in
      case dir of BTS_INPUT \<Rightarrow> (0, BTSTRSTREAM (ss\<lparr>ss_cur := 0\<rparr>))
      | BTS_OUTPUT \<Rightarrow> (0, BTSTRSTREAM (ss\<lparr>ss_buf := []\<rparr>))
      | BTS_FREE \<Rightarrow> (1, BTSTRSTREAM ss))"
| "bts_strstream_rewind s dir = (1, s)"

definition bts_create_strstream :: "btsIo \<Rightarrow> btStream" where
  "bts_create_strstream dir = BTSTRSTREAM \<lparr>ss_iodir = dir, ss_cur = 0, ss_buf = [], ss_max = 0\<rparr>"

fun bts_filestream_read :: "btStream \<Rightarrow> nat \<Rightarrow> int \<times> byte list \<times> btStream" where
  "bts_filestream_read (BTFILESTREAM fs) len =
     (case fs_fp fs of None \<Rightarrow> (- 1, [], BTFILESTREAM fs)
      | Some fp \<Rightarrow>
          let (bs, fp') = stdio_fread fp len; s = BTFILESTREAM (fs\<lparr>fs_fp := Some fp'\<rparr>) in
          if length bs < len then (- 1, [], s) else (0, bs, s))"
| "bts_filestream_read s len = (- 1, [], s)"

fun bts_filestream_write :: "btStream \<Rightarrow> byte list \<Rightarrow> int \<times> btStream" where
  "bts_filestream_write (BTFILESTREAM fs) bs =
     (case fs_fp fs of None \<Rightarrow> (- 1, BTFILESTREAM fs)
      | Some fp \<Rightarrow>
          let (res, fp') = stdio_fwrite fp bs; s = BTFILESTREAM (fs\<lparr>fs_fp := Some fp'\<rparr>) in
          if res < length bs then (- 1, s) else (0, s))"
| "bts_filestream_write s bs = (- 1, s)"

text \<open>\<open>getc\<close> followed by \<open>ungetc\<close> leaves the position where it was.\<close>

fun bts_filestream_peek :: "btStream \<Rightarrow> int" where
  "bts_filestream_peek (BTFILESTREAM fs) =
     (case fs_fp fs of None \<Rightarrow> - 1
      | Some fp \<Rightarrow>
          if f_writing fp \<or> length (f_data fp) \<le> f_pos fp then - 1 else uint (f_data fp ! f_pos fp))"
| "bts_filestream_peek s = - 1"

definition bts_filestream_rewind :: "btStream \<Rightarrow> btsIo \<Rightarrow> int \<times> btStream" where
  "bts_filestream_rewind s dir = (1, s)"

definition bts_create_filestream_fp :: "FILE option \<Rightarrow> btsIo \<Rightarrow> btStream" where
  "bts_create_filestream_fp fp dir = BTFILESTREAM \<lparr>fs_iodir = dir, fs_fp = fp\<rparr>"

text \<open>\<open>fopen\<close> reads an existing file of the file system, or starts an empty one.\<close>

definition bts_create_filestream ::
    "(byte list \<Rightarrow> byte list option) \<Rightarrow> byte list \<Rightarrow> btsIo \<Rightarrow> btStream" where
  "bts_create_filestream disk fname dir =
     bts_create_filestream_fp
       (case dir of
          BTS_INPUT \<Rightarrow> map_option (\<lambda>d. \<lparr>f_data = d, f_pos = 0, f_writing = False\<rparr>) (disk fname)
        | BTS_OUTPUT \<Rightarrow> Some \<lparr>f_data = [], f_pos = 0, f_writing = True\<rparr>
        | BTS_FREE \<Rightarrow> None) dir"
fun bts_rewind :: "btStream \<Rightarrow> btsIo \<Rightarrow> int \<times> btStream" where
  "bts_rewind (BTSTRSTREAM ss) dir = bts_strstream_rewind (BTSTRSTREAM ss) dir"
| "bts_rewind (BTFILESTREAM fs) dir = bts_filestream_rewind (BTFILESTREAM fs) dir"

fun bts_get_buf :: "btStream \<Rightarrow> byte list" where
  "bts_get_buf (BTSTRSTREAM ss) = ss_buf ss"
| "bts_get_buf (BTFILESTREAM fs) = []"

definition bts_read :: "btStream \<Rightarrow> int \<Rightarrow> int \<times> byte list \<times> btStream" where
  "bts_read s len =
     (if len < 0 then (- 1, [], s)
      else if len = 0 then (0, [], s)
      else case s of BTSTRSTREAM _ \<Rightarrow> bts_strstream_read s (nat len)
           | BTFILESTREAM _ \<Rightarrow> bts_filestream_read s (nat len))"

definition bts_write :: "btStream \<Rightarrow> byte list \<Rightarrow> int \<Rightarrow> fault + (int \<times> btStream)" where
  "bts_write s buf len =
     die_unless (0 \<le> len)
       (if length buf < nat len then Inl Oob
        else Inr (case s of BTSTRSTREAM _ \<Rightarrow> bts_strstream_write s (take (nat len) buf)
                  | BTFILESTREAM _ \<Rightarrow> bts_filestream_write s (take (nat len) buf)))"

definition writebts :: "byte list \<Rightarrow> int \<Rightarrow> int \<Rightarrow> btStream \<Rightarrow> fault + (int \<times> btStream)" where
  "writebts buf sz nmemb s =
     (let len = to_int32 (sz * nmemb) in
      bindR (bts_write s buf len) (\<lambda>(res, s'). Inr (if res \<noteq> 0 then 0 else len, s')))"

fun bts_peek :: "btStream \<Rightarrow> int" where
  "bts_peek (BTSTRSTREAM ss) = bts_strstream_peek (BTSTRSTREAM ss)"
| "bts_peek (BTFILESTREAM fs) = bts_filestream_peek (BTFILESTREAM fs)"

text \<open>\<open>out\<close> is what \<open>vsnprintf\<close> makes of the format and its arguments.\<close>

definition bts_printf :: "btStream \<Rightarrow> byte list \<Rightarrow> fault + (int \<times> btStream)" where
  "bts_printf s out = die_unless (length out < 8192) (bts_write s out (int (length out)))"

text \<open>\<open>strchr\<close> also finds the NUL at the end of the set.\<close>

definition strchr :: "byte list \<Rightarrow> byte \<Rightarrow> bool" where
  "strchr cs c \<longleftrightarrow> c \<in> set cs \<or> c = 0"

text \<open>The loop of \<open>bts_scanbreak\<close>; \<open>room\<close> is \<open>bufsz - len\<close>.\<close>

fun scan_loop :: "nat \<Rightarrow> btStream \<Rightarrow> byte list \<Rightarrow> byte list \<Rightarrow> byte list \<Rightarrow> int \<times> byte list \<times> btStream" where
  "scan_loop 0 s cset bset buf = (1, buf, s)"
| "scan_loop (Suc room) s cset bset buf =
     (case bts_read s 1 of (res, d, s') \<Rightarrow>
        if res \<noteq> 0 then (res, buf, s')
        else if strchr bset (hd d) then (0, buf, s')
        else if \<not> strchr cset (hd d) then (1, buf, s')
        else scan_loop room s' cset bset (buf @ [hd d]))"

definition bts_scanbreak ::
    "btStream \<Rightarrow> byte list \<Rightarrow> byte list \<Rightarrow> nat \<Rightarrow> int \<times> byte list \<times> btStream" where
  "bts_scanbreak s cset bset bufsz = scan_loop bufsz s cset bset []"

section \<open>The streams of the code are sources and sinks\<close>

text \<open>The bytes a reader has still to see, and those a writer has put.\<close>

fun bts_avail :: "btStream \<Rightarrow> byte list" where
  "bts_avail (BTSTRSTREAM ss) = drop (ss_cur ss) (ss_buf ss)"
| "bts_avail (BTFILESTREAM fs) =
     (case fs_fp fs of None \<Rightarrow> []
      | Some fp \<Rightarrow> if f_writing fp then [] else drop (f_pos fp) (f_data fp))"

fun bts_written :: "btStream \<Rightarrow> byte list" where
  "bts_written (BTSTRSTREAM ss) = ss_buf ss"
| "bts_written (BTFILESTREAM fs) = (case fs_fp fs of None \<Rightarrow> [] | Some fp \<Rightarrow> f_data fp)"

fun bts_open_out :: "btStream \<Rightarrow> bool" where
  "bts_open_out (BTSTRSTREAM ss) = True"
| "bts_open_out (BTFILESTREAM fs) = (case fs_fp fs of None \<Rightarrow> False | Some fp \<Rightarrow> f_writing fp)"

lemma drop_head:
  "(case drop k xs of [] \<Rightarrow> - 1 | b # _ \<Rightarrow> uint (b :: byte)) =
     (if length xs \<le> k then - 1 else uint (xs ! k))"
  by (auto simp: Cons_nth_drop_Suc [symmetric])

lemma strstream_source:
  "0 < n \<Longrightarrow> n \<le> length (bts_avail (BTSTRSTREAM ss)) \<Longrightarrow>
     \<exists>s'. bts_strstream_read (BTSTRSTREAM ss) n = (0, take n (bts_avail (BTSTRSTREAM ss)), s') \<and>
       bts_avail s' = drop n (bts_avail (BTSTRSTREAM ss))"
  "length (bts_avail (BTSTRSTREAM ss)) < n \<Longrightarrow> fst (bts_strstream_read (BTSTRSTREAM ss) n) \<noteq> 0"
  "bts_strstream_peek (BTSTRSTREAM ss) =
     (case bts_avail (BTSTRSTREAM ss) of [] \<Rightarrow> - 1 | b # _ \<Rightarrow> uint b)"
  by (auto simp: add.commute drop_head)

lemma filestream_source:
  "0 < n \<Longrightarrow> n \<le> length (bts_avail (BTFILESTREAM fs)) \<Longrightarrow>
     \<exists>s'. bts_filestream_read (BTFILESTREAM fs) n = (0, take n (bts_avail (BTFILESTREAM fs)), s') \<and>
       bts_avail s' = drop n (bts_avail (BTFILESTREAM fs))"
  "length (bts_avail (BTFILESTREAM fs)) < n \<Longrightarrow> fst (bts_filestream_read (BTFILESTREAM fs) n) \<noteq> 0"
  "bts_filestream_peek (BTFILESTREAM fs) =
     (case bts_avail (BTFILESTREAM fs) of [] \<Rightarrow> - 1 | b # _ \<Rightarrow> uint b)"
  by (auto simp: stdio_fread_def Let_def add.commute drop_head split: option.splits if_splits)

interpretation bts_in: byte_source "\<lambda>s n. bts_read s (int n)" bts_peek bts_avail
proof
  show "\<exists>s'. bts_read s (int n) = (0, take n (bts_avail s), s') \<and> bts_avail s' = drop n (bts_avail s)"
    if "0 < n" "n \<le> length (bts_avail s)" for s n
    using that strstream_source(1) [of n] filestream_source(1) [of n]
    by (cases s) (simp_all add: bts_read_def)
  show "fst (bts_read s (int n)) \<noteq> 0" if "length (bts_avail s) < n" for s n
    using that strstream_source(2) [of _ n] filestream_source(2) [of _ n]
    by (cases s) (simp_all add: bts_read_def)
  show "bts_peek s = (case bts_avail s of [] \<Rightarrow> - 1 | b # _ \<Rightarrow> uint b)" for s
    by (cases s) (simp_all only: bts_peek.simps strstream_source(3) filestream_source(3))
qed

interpretation bts_out: byte_sink "\<lambda>s bs. bts_write s bs (int (length bs))" bts_written bts_open_out
proof
  show "\<exists>s'. bts_write s bs (int (length bs)) = Inr (0, s') \<and> bts_written s' = bts_written s @ bs \<and>
      bts_open_out s'" if "bts_open_out s" for s bs
    using that
    by (cases s) (auto simp: bts_write_def Let_def stdio_fwrite_def split: option.splits if_splits)
qed

lemma bts_printf_ok:
  assumes "bts_open_out s" and "length out < 8192"
  shows "\<exists>s'. bts_printf s out = Inr (0, s') \<and> bts_written s' = bts_written s @ out \<and> bts_open_out s'"
  using bts_out.wr_ok [OF assms(1), of out] assms(2) by (simp add: bts_printf_def)

lemma bts_read_ok:
  assumes "bts_read s n = (0, bs, s')" and "0 < n"
  shows "length bs = nat n \<and> bts_avail s = bs @ bts_avail s'"
  using bts_in.rd_ok [of s "nat n" bs s'] assms by simp

text \<open>Reading never gives bytes back: what is left is a suffix of what was there.\<close>

lemma bts_read_shrinks: "length (bts_avail (snd (snd (bts_read s n)))) \<le> length (bts_avail s)"
  by (cases s) (auto simp: bts_read_def stdio_fread_def Let_def split: option.splits prod.splits)

lemma scan_loop_found:
  assumes "bts_avail s = ds @ b # r" and "length ds < room" and "strchr bset b"
    and "\<forall>d \<in> set ds. d \<in> set cset \<and> \<not> strchr bset d"
  shows "\<exists>s'. scan_loop room s cset bset buf = (0, buf @ ds, s') \<and> bts_avail s' = r"
  using assms
proof (induction ds arbitrary: room s buf)
  case Nil
  then obtain k where k: "room = Suc k" by (cases room) auto
  obtain s' where "bts_read s 1 = (0, [b], s')" "bts_avail s' = r"
    using bts_in.rd_one [of s b r] Nil.prems(1) by auto
  then show ?case using k Nil.prems(3) by simp
next
  case (Cons d ds)
  then obtain k where k: "room = Suc k" by (cases room) auto
  obtain s1 where s1: "bts_read s 1 = (0, [d], s1)" "bts_avail s1 = ds @ b # r"
    using bts_in.rd_one [of s d "ds @ b # r"] Cons.prems(1) by auto
  obtain s' where "scan_loop k s1 cset bset (buf @ [d]) = (0, (buf @ [d]) @ ds, s')" "bts_avail s' = r"
    using Cons.IH [OF s1(2), of k "buf @ [d]"] Cons.prems(2-4) k by auto
  then show ?case using k s1 Cons.prems(4) by (simp add: strchr_def)
qed

lemma bts_scanbreak_found:
  assumes "bts_avail s = ds @ b # r" and "length ds < bufsz" and "strchr bset b"
    and "\<forall>d \<in> set ds. d \<in> set cset \<and> \<not> strchr bset d"
  shows "\<exists>s'. bts_scanbreak s cset bset bufsz = (0, ds, s') \<and> bts_avail s' = r"
  using scan_loop_found [OF assms, of "[]"] by (simp add: bts_scanbreak_def)

text \<open>A scan that succeeds has read allowed characters and one break character, within the buffer.\<close>

lemma scan_loop_ok:
  assumes "scan_loop room s cset bset buf = (0, out, s')"
  shows "\<exists>ds b. out = buf @ ds \<and> bts_avail s = ds @ b # bts_avail s' \<and> strchr bset b \<and>
    length ds < room \<and> (\<forall>d \<in> set ds. d \<in> set cset \<and> \<not> strchr bset d)"
  using assms
proof (induction room s cset bset buf rule: scan_loop.induct)
  case (2 room s cset bset buf)
  obtain res d s1 where r: "bts_read s 1 = (res, d, s1)" by (metis prod_cases3)
  have res: "res = 0" using 2(2) r by (auto split: if_splits)
  then obtain c where c: "d = [c]" "bts_avail s = c # bts_avail s1"
    using bts_read_ok [of s 1 d s1] r by (auto simp: length_Suc_conv)
  show ?case
  proof (cases "strchr bset c")
    case True
    then have "out = buf" "s' = s1" using 2(2) r c(1) res by auto
    with True c(2) show ?thesis by auto
  next
    case False
    then have cs: "c \<in> set cset" and l: "scan_loop room s1 cset bset (buf @ [c]) = (0, out, s')"
      using 2(2) r c(1) res by (auto simp: strchr_def split: if_splits)
    obtain ds b where "out = (buf @ [c]) @ ds" "bts_avail s1 = ds @ b # bts_avail s'" "strchr bset b"
      "length ds < room" "\<forall>d \<in> set ds. d \<in> set cset \<and> \<not> strchr bset d"
      using 2(1) [of res "(d, s1)" d s1] r res False l cs c(1) by (auto simp: strchr_def)
    with cs c(2) False show ?thesis by (intro exI [of _ "c # ds"] exI [of _ b]) auto
  qed
qed simp

lemma scan_loop_shrinks:
  "length (bts_avail (snd (snd (scan_loop room s cset bset buf)))) \<le> length (bts_avail s)"
proof (induction room s cset bset buf rule: scan_loop.induct)
  case (2 room s cset bset buf)
  obtain res d s1 where r: "bts_read s 1 = (res, d, s1)" by (metis prod_cases3)
  have "length (bts_avail s1) \<le> length (bts_avail s)" using bts_read_shrinks [of s 1] r by simp
  then show ?case using 2 [of res "(d, s1)" d s1] r by auto
qed simp

lemma bts_scanbreak_shrinks:
  "length (bts_avail (snd (snd (bts_scanbreak s cset bset bufsz)))) \<le> length (bts_avail s)"
  unfolding bts_scanbreak_def by (rule scan_loop_shrinks)

end
