(* ===== verification/Bt_Types.thy ===== *)
theory Bt_Types
  imports Bt_Prelude "HOL-Library.List_Lexorder" "HOL-Library.Product_Lexorder"
begin

text \<open>
  \<open>types.c\<close>: the objects of the bencoding. A string is its \<open>len\<close> bytes (the code also keeps a NUL
  behind them), a list its elements, a dictionary its parallel arrays \<open>key\<close> and \<open>value\<close> as one
  list of pairs. Dictionaries are kept sorted by \<open>btString_cmp\<close>; the theory shows which order that
  is, that the two binary searches implement a finite map over it, and what lookups by path do.
\<close>

datatype btObject =
  BT_STRING "byte list"
| BT_INTEGER int
| BT_LIST "btObject list"
| BT_DICT "(byte list \<times> btObject) list"

type_synonym btDict = "(byte list \<times> btObject) list"

section \<open>Casts\<close>

text \<open>\<open>NULL\<close> is passed through; only the integer cast answers a wrong type with \<open>NULL\<close>.\<close>

fun btInteger_cast :: "btObject option \<Rightarrow> int option" where
  "btInteger_cast (Some (BT_INTEGER i)) = Some i"
| "btInteger_cast _ = None"

fun btString_cast :: "btObject option \<Rightarrow> fault + byte list option" where
  "btString_cast None = Inr None"
| "btString_cast (Some (BT_STRING s)) = Inr (Some s)"
| "btString_cast (Some _) = Inl Abort"

fun btList_cast :: "btObject option \<Rightarrow> fault + btObject list option" where
  "btList_cast None = Inr None"
| "btList_cast (Some (BT_LIST l)) = Inr (Some l)"
| "btList_cast (Some _) = Inl Abort"

fun btDict_cast :: "btObject option \<Rightarrow> fault + btDict option" where
  "btDict_cast None = Inr None"
| "btDict_cast (Some (BT_DICT d)) = Inr (Some d)"
| "btDict_cast (Some _) = Inl Abort"

section \<open>Strings and lists\<close>

text \<open>Only the sign of the result of \<open>strncmp\<close> is specified; the model returns the difference.\<close>

fun strncmp :: "byte list \<Rightarrow> byte list \<Rightarrow> nat \<Rightarrow> int" where
  "strncmp as bs 0 = 0"
| "strncmp (a # as) (b # bs) (Suc n) =
     (if a \<noteq> b then uint a - uint b else if a = 0 then 0 else strncmp as bs n)"
| "strncmp [] (b # bs) (Suc n) = 0 - uint b"
| "strncmp (a # as) [] (Suc n) = uint a"
| "strncmp [] [] (Suc n) = 0"

definition btString_cmp :: "byte list \<Rightarrow> byte list \<Rightarrow> int" where
  "btString_cmp a b =
     (let (n, along) =
        (if length a > length b then (length b, 1)
         else (length a, if length a < length b then - 1 else 0));
        res = strncmp a b n
      in if res = 0 then along else res)"

definition btString_create_str :: "byte list \<Rightarrow> byte list" where
  "btString_create_str init = c_string init"

definition btList_add :: "btObject list \<Rightarrow> btObject \<Rightarrow> btObject list" where
  "btList_add l v = l @ [v]"

definition btList_index :: "btObject list \<Rightarrow> int \<Rightarrow> fault + btObject" where
  "btList_index l idx = die_unless (0 \<le> idx \<and> idx < int (length l)) (arr_get l idx)"

section \<open>Dictionaries\<close>

text \<open>The binary search of \<open>btDict_add\<close>: \<open>None\<close> when the key is there, else the slot for it.\<close>

function dict_ipos :: "btDict \<Rightarrow> byte list \<Rightarrow> nat \<Rightarrow> nat \<Rightarrow> nat \<Rightarrow> nat option" where
  "dict_ipos d k lo hi ipos =
     (if lo < hi then
        let mid = (lo + hi) div 2; res = btString_cmp k (fst (d ! mid)) in
        if res = 0 then None
        else if res < 0 then dict_ipos d k lo mid mid
        else dict_ipos d k (mid + 1) hi ipos
      else Some ipos)"
  by pat_completeness auto
termination
  by (relation "measure (\<lambda>(d, k, lo, hi, ipos). hi - lo)") auto

declare dict_ipos.simps [simp del]

text \<open>
  \<open>len\<close> is bumped before the search, so a refused key leaves a slot with unspecified contents
  (\<open>junk\<close>) at the end.
\<close>

definition btDict_add :: "byte list \<times> btObject \<Rightarrow> btDict \<Rightarrow> byte list \<Rightarrow> btObject \<Rightarrow> int \<times> btDict" where
  "btDict_add junk d k v =
     (case dict_ipos d k 0 (length d) (length d) of
        None \<Rightarrow> (- 1, d @ [junk])
      | Some ipos \<Rightarrow> (0, take ipos d @ (k, v) # drop ipos d))"

function dict_search :: "btDict \<Rightarrow> byte list \<Rightarrow> nat \<Rightarrow> nat \<Rightarrow> btObject option" where
  "dict_search d k lo hi =
     (if lo < hi then
        let mid = (lo + hi) div 2; res = btString_cmp k (fst (d ! mid)) in
        if res = 0 then Some (snd (d ! mid))
        else if res < 0 then dict_search d k lo mid
        else dict_search d k (mid + 1) hi
      else None)"
  by pat_completeness auto
termination
  by (relation "measure (\<lambda>(d, k, lo, hi). hi - lo)") auto

declare dict_search.simps [simp del]

definition btDict_find :: "btDict \<Rightarrow> byte list \<Rightarrow> btObject option" where
  "btDict_find d k = dict_search d k 0 (length d)"

section \<open>Iteration\<close>

text \<open>An iterator is the dictionary and an index. \<open>first\<close> is \<open>&key[0]\<close>, \<open>NULL\<close> when no array was allocated.\<close>

definition btDictIt_hasNext :: "btDict \<Rightarrow> nat \<Rightarrow> bool" where
  "btDictIt_hasNext d idx \<longleftrightarrow> int idx < int (length d) - 1"

definition btDictIt_first :: "btDict \<Rightarrow> nat \<times> byte list option" where
  "btDictIt_first d = (0, if d = [] then None else Some (fst (d ! 0)))"

definition btDictIt_next :: "btDict \<Rightarrow> nat \<Rightarrow> nat \<times> byte list option" where
  "btDictIt_next d idx =
     (if \<not> btDictIt_hasNext d idx then (idx, None) else (idx + 1, Some (fst (d ! (idx + 1)))))"

section \<open>Paths\<close>

text \<open>\<open>atoi\<close>: white space, a sign, digits; 0 without digits. The code passes numbers in range.\<close>

definition is_digit :: "byte \<Rightarrow> bool" where
  "is_digit b \<longleftrightarrow> 48 \<le> b \<and> b \<le> 57"

definition digits_val :: "byte list \<Rightarrow> int" where
  "digits_val ds = foldl (\<lambda>n d. n * 10 + (uint d - 48)) 0 ds"

definition is_blank :: "byte \<Rightarrow> bool" where
  "is_blank b \<longleftrightarrow> b = 32 \<or> 9 \<le> b \<and> b \<le> 13"

definition atoi :: "byte list \<Rightarrow> int" where
  "atoi s =
     (let t = dropWhile is_blank s in
      case t of
        [] \<Rightarrow> 0
      | c # cs \<Rightarrow>
          if c = 45 then - digits_val (takeWhile is_digit cs)
          else if c = 43 then digits_val (takeWhile is_digit cs)
          else digits_val (takeWhile is_digit t))"

text \<open>One turn of the loop for each component of the path; a missing key makes the next turn read \<open>NULL\<close>.\<close>

function btObject_val :: "btObject option \<Rightarrow> byte list \<Rightarrow> fault + btObject option" where
  "btObject_val ob path =
     (let buf = takeWhile (\<lambda>c. c \<noteq> 47) path; rest = dropWhile (\<lambda>c. c \<noteq> 47) path;
          next_ob = (case ob of
              None \<Rightarrow> Inl Oob
            | Some (BT_LIST l) \<Rightarrow> bindR (btList_index l (atoi buf)) (\<lambda>x. Inr (True, Some x))
            | Some (BT_DICT d) \<Rightarrow> Inr (True, btDict_find d (btString_create_str buf))
            | Some _ \<Rightarrow> Inr (False, None))
      in bindR next_ob (\<lambda>(go, x).
           if \<not> go then Inr None
           else if rest = [] then Inr x
           else btObject_val x (tl rest)))"
  by pat_completeness auto
termination
proof (relation "measure (\<lambda>(ob, path). length path)", goal_cases)
  case 1
  show ?case by simp
next
  case (2 ob path)
  have "length (dropWhile (\<lambda>c. c \<noteq> 47) path) \<le> length path" by (rule length_dropWhile_le)
  with 2 show ?case by (cases "dropWhile (\<lambda>c. c \<noteq> 47) path") auto
qed

declare btObject_val.simps [simp del]
section \<open>The order of keys\<close>

text \<open>
  \<open>strncmp\<close> stops at a NUL, so keys are ordered by their C strings, and by their lengths when
  these agree.
\<close>

definition btKey :: "byte list \<Rightarrow> byte list \<times> nat" where
  "btKey s = (c_string s, length s)"

lemma btKey_simps:
  "btKey [] = ([], 0)"
  "btKey (0 # s) = ([], Suc (length s))"
  "x \<noteq> 0 \<Longrightarrow> btKey (x # s) = (x # fst (btKey s), Suc (snd (btKey s)))"
  by (simp_all add: btKey_def c_string_def)

lemma btString_cmp_Nil:
  "btString_cmp [] b = (if b = [] then 0 else - 1)"
  "btString_cmp a [] = (if a = [] then 0 else 1)"
  by (auto simp: btString_cmp_def)

lemma btString_cmp_Cons:
  "btString_cmp (x # a) (y # b) =
     (if x \<noteq> y then uint x - uint y
      else if x = 0 then (if length a > length b then 1 else if length a < length b then - 1 else 0)
      else btString_cmp a b)"
  by (auto simp: btString_cmp_def Let_def word_uint_eq_iff)

lemma btKey_less_Cons:
  "btKey (x # a) < btKey (y # b) \<longleftrightarrow>
     (if x \<noteq> y then x < y else if x = 0 then length a < length b else btKey a < btKey b)"
proof -
  have z: "0 < w \<longleftrightarrow> w \<noteq> 0" for w :: byte by (rule word_neq_0_conv [symmetric])
  have k: "btKey (c # s) = (if c = 0 then [] else c # c_string s, Suc (length s))" for c s
    by (simp add: btKey_def c_string_def)
  have n: "[] < c # (s :: byte list)" "\<not> c # s < []" "\<not> c # s \<le> []" "[] \<le> c # s" for c s
    by (simp_all add: not_le)
  consider "x = 0" "y = 0" | "x = 0" "y \<noteq> 0" | "x \<noteq> 0" "y = 0" | "x \<noteq> 0" "y \<noteq> 0" by blast
  then show ?thesis
  proof cases
    case 4
    then have "c_string (x # a) = x # c_string a" "c_string (y # b) = y # c_string b"
      by (simp_all add: c_string_def)
    with 4 show ?thesis by (auto simp: btKey_def)
  qed (simp_all add: k z n)
qed

lemma btString_cmp_less: "btString_cmp a b < 0 \<longleftrightarrow> btKey a < btKey b"
proof (induction a arbitrary: b)
  case Nil
  then show ?case
    by (cases b) (auto simp: btString_cmp_Nil btKey_def c_string_def prod_less_def prod_le_def)
next
  case (Cons x a)
  then show ?case
  proof (cases b)
    case Nil
    then show ?thesis
      by (auto simp: btString_cmp_Nil btKey_def c_string_def prod_less_def prod_le_def)
  next
    case (Cons y b')
    then show ?thesis using Cons.IH [of b']
      by (simp add: btString_cmp_Cons btKey_less_Cons word_less_def)
  qed
qed

lemma btString_cmp_sym: "0 < btString_cmp a b \<longleftrightarrow> btString_cmp b a < 0"
proof (induction a arbitrary: b)
  case Nil
  then show ?case by (cases b) (auto simp: btString_cmp_Nil)
next
  case (Cons x a)
  then show ?case by (cases b) (auto simp: btString_cmp_Nil btString_cmp_Cons)
qed

lemma btString_cmp_greater: "0 < btString_cmp a b \<longleftrightarrow> btKey b < btKey a"
  by (simp add: btString_cmp_sym btString_cmp_less)

lemma btString_cmp_zero: "btString_cmp a b = 0 \<longleftrightarrow> btKey a = btKey b"
  using btString_cmp_less [of a b] btString_cmp_greater [of a b]
  by (metis less_irrefl linorder_cases)

lemmas btString_cmp_iff = btString_cmp_less btString_cmp_greater btString_cmp_zero

lemma btKey_inj: "0 \<notin> set a \<Longrightarrow> 0 \<notin> set b \<Longrightarrow> btKey a = btKey b \<longleftrightarrow> a = b"
  by (auto simp: btKey_def c_string_id)

section \<open>A dictionary is a finite map\<close>

definition dict_sorted :: "btDict \<Rightarrow> bool" where
  "dict_sorted d \<longleftrightarrow> sorted_wrt (\<lambda>a b. btKey (fst a) < btKey (fst b)) d"

lemma dict_sorted_nth:
  "dict_sorted d \<Longrightarrow> i < j \<Longrightarrow> j < length d \<Longrightarrow> btKey (fst (d ! i)) < btKey (fst (d ! j))"
  by (simp add: dict_sorted_def sorted_wrt_iff_nth_less)

text \<open>The slots below \<open>lo\<close> hold smaller keys, those from \<open>hi\<close> on larger ones.\<close>

definition bracket :: "btDict \<Rightarrow> byte list \<Rightarrow> nat \<Rightarrow> nat \<Rightarrow> bool" where
  "bracket d k lo hi \<longleftrightarrow> hi \<le> length d \<and> (\<forall>i < lo. btKey (fst (d ! i)) < btKey k) \<and>
     (\<forall>i. hi \<le> i \<and> i < length d \<longrightarrow> btKey k < btKey (fst (d ! i)))"

lemma bracket_left:
  assumes "dict_sorted d" and "bracket d k lo hi" and "mid < hi" and "btKey k < btKey (fst (d ! mid))"
  shows "bracket d k lo mid"
  unfolding bracket_def
proof (intro conjI allI impI)
  fix i assume "mid \<le> i \<and> i < length d"
  then show "btKey k < btKey (fst (d ! i))"
    using dict_sorted_nth [OF assms(1), of mid i] assms(4) by (cases "i = mid") auto
qed (use assms in \<open>auto simp: bracket_def\<close>)

lemma bracket_right:
  assumes "dict_sorted d" and "bracket d k lo hi" and "mid < hi" and "btKey (fst (d ! mid)) < btKey k"
  shows "bracket d k (mid + 1) hi"
  unfolding bracket_def
proof (intro conjI allI impI)
  fix i assume "i < mid + 1"
  then show "btKey (fst (d ! i)) < btKey k"
    using dict_sorted_nth [OF assms(1), of i mid] assms(2-4)
    by (cases "i = mid") (auto simp: bracket_def)
qed (use assms in \<open>auto simp: bracket_def\<close>)

lemma bracket_empty:
  assumes "bracket d k lo hi" and "\<not> lo < hi" and "i < length d"
  shows "btKey (fst (d ! i)) \<noteq> btKey k"
proof (cases "i < hi")
  case True
  then have "i < lo" using assms(2) by simp
  then show ?thesis using assms(1) by (auto simp: bracket_def)
next
  case False
  then have "btKey k < btKey (fst (d ! i))" using assms(1,3) by (simp add: bracket_def)
  then show ?thesis by auto
qed

lemma dict_search_result:
  assumes "dict_sorted d" and "bracket d k lo hi"
  shows "case dict_search d k lo hi of
      None \<Rightarrow> \<forall>i < length d. btKey (fst (d ! i)) \<noteq> btKey k
    | Some v \<Rightarrow> \<exists>i < length d. btKey (fst (d ! i)) = btKey k \<and> v = snd (d ! i)"
  using assms
proof (induction d k lo hi rule: dict_search.induct)
  case (1 d k lo hi)
  show ?case
  proof (cases "lo < hi")
    case False
    then show ?thesis using bracket_empty [OF 1(4)] by (subst dict_search.simps) auto
  next
    case True
    define m where "m = (lo + hi) div 2"
    have m: "m < hi" "m < length d" using True 1(4) by (auto simp: m_def bracket_def)
    consider "btKey k < btKey (fst (d ! m))" | "btKey k = btKey (fst (d ! m))" | "btKey (fst (d ! m)) < btKey k"
      by (metis linorder_cases)
    then show ?thesis
    proof cases
      case 1
      then show ?thesis using "1.IH"(1) [OF True refl refl] bracket_left [OF "1.prems" m(1)] "1.prems" True
          btString_cmp_less [of k "fst (d ! m)"]
        by (subst dict_search.simps) (simp add: Let_def m_def)
    next
      case 2
      then show ?thesis using m True btString_cmp_zero [of k "fst (d ! m)"]
        by (subst dict_search.simps) (auto simp: Let_def m_def)
    next
      case 3
      then show ?thesis using "1.IH"(2) [OF True refl refl] bracket_right [OF "1.prems" m(1)] "1.prems" True
          btString_cmp_greater [of k "fst (d ! m)"]
        by (subst dict_search.simps) (simp add: Let_def m_def)
    qed
  qed
qed

lemma dict_ipos_result:
  assumes "dict_sorted d" and "bracket d k lo hi" and "ipos = hi" and "lo \<le> hi"
  shows "case dict_ipos d k lo hi ipos of
      None \<Rightarrow> \<exists>i < length d. btKey (fst (d ! i)) = btKey k
    | Some p \<Rightarrow> p \<le> length d \<and> bracket d k p p"
  using assms
proof (induction d k lo hi ipos rule: dict_ipos.induct)
  case (1 d k lo hi ipos)
  show ?case
  proof (cases "lo < hi")
    case False
    then show ?thesis using 1(4-6) by (subst dict_ipos.simps) (auto simp: bracket_def)
  next
    case True
    define m where "m = (lo + hi) div 2"
    have m: "m < hi" "m < length d" "lo \<le> m" using True 1(4) by (auto simp: m_def bracket_def)
    consider "btKey k < btKey (fst (d ! m))" | "btKey k = btKey (fst (d ! m))" | "btKey (fst (d ! m)) < btKey k"
      by (metis linorder_cases)
    then show ?thesis
    proof cases
      case 1
      then show ?thesis using "1.IH"(1) [OF True refl refl] bracket_left [OF "1.prems"(1,2) m(1)] "1.prems" True m
          btString_cmp_less [of k "fst (d ! m)"]
        by (subst dict_ipos.simps) (simp add: Let_def m_def)
    next
      case 2
      then show ?thesis using m True btString_cmp_zero [of k "fst (d ! m)"]
        by (subst dict_ipos.simps) (auto simp: Let_def m_def)
    next
      case 3
      then show ?thesis using "1.IH"(2) [OF True refl refl] bracket_right [OF "1.prems"(1,2) m(1)] "1.prems" True m
          btString_cmp_greater [of k "fst (d ! m)"]
        by (subst dict_ipos.simps) (simp add: Let_def m_def)
    qed
  qed
qed

lemma bracket_whole [simp]: "bracket d k 0 (length d)"
  by (auto simp: bracket_def)

text \<open>The finite map a dictionary stands for, over the order's notion of equal keys.\<close>

definition dict_map :: "btDict \<Rightarrow> byte list \<times> nat \<Rightarrow> btObject option" where
  "dict_map d = map_of (map (\<lambda>e. (btKey (fst e), snd e)) d)"

lemma dict_map_simps [simp]:
  "dict_map [] x = None"
  "dict_map ((k, v) # d) x = (if x = btKey k then Some v else dict_map d x)"
  by (auto simp: dict_map_def)

lemma dict_map_append: "dict_map (d @ e) x = (case dict_map d x of None \<Rightarrow> dict_map e x | Some v \<Rightarrow> Some v)"
  by (simp add: dict_map_def map_add_def map_of_append split: option.splits)

lemma dict_map_None: "dict_map d x = None \<longleftrightarrow> (\<forall>i < length d. btKey (fst (d ! i)) \<noteq> x)"
proof -
  have "(\<forall>i < length d. btKey (fst (d ! i)) \<noteq> x) \<longleftrightarrow> (\<forall>e \<in> set d. btKey (fst e) \<noteq> x)"
    by (simp add: all_set_conv_all_nth)
  then show ?thesis by (auto simp: dict_map_def map_of_eq_None_iff image_image)
qed

lemma dict_sorted_distinct: "dict_sorted d \<Longrightarrow> distinct (map (btKey \<circ> fst) d)"
  unfolding dict_sorted_def by (induction d) auto

lemma dict_map_nth:
  assumes "dict_sorted d" and "i < length d"
  shows "dict_map d (btKey (fst (d ! i))) = Some (snd (d ! i))"
proof -
  have "distinct (map fst (map (\<lambda>e. (btKey (fst e), snd e)) d))"
    using dict_sorted_distinct [OF assms(1)] by (simp add: o_def)
  moreover have "(btKey (fst (d ! i)), snd (d ! i)) \<in> set (map (\<lambda>e. (btKey (fst e), snd e)) d)"
    using assms(2) by simp
  ultimately show ?thesis unfolding dict_map_def by (rule map_of_is_SomeI)
qed

lemma btDict_find_map:
  assumes "dict_sorted d"
  shows "btDict_find d k = dict_map d (btKey k)"
proof (cases "dict_search d k 0 (length d)")
  case None
  then have "dict_map d (btKey k) = None" using dict_search_result [OF assms, of k 0 "length d"]
    by (simp add: dict_map_None)
  then show ?thesis using None by (simp add: btDict_find_def)
next
  case (Some v)
  then obtain i where "i < length d" "btKey (fst (d ! i)) = btKey k" "v = snd (d ! i)"
    using dict_search_result [OF assms, of k 0 "length d"] by auto
  then show ?thesis using Some dict_map_nth [OF assms, of i] by (simp add: btDict_find_def)
qed

lemma dict_sorted_insert:
  assumes "dict_sorted d" and "bracket d k p p"
  shows "dict_sorted (take p d @ (k, v) # drop p d)"
proof -
  have "sorted_wrt (\<lambda>a b. btKey (fst a) < btKey (fst b)) (take p d @ drop p d)"
    using assms(1) by (simp add: dict_sorted_def)
  moreover have "\<forall>x \<in> set (take p d). btKey (fst x) < btKey k"
    using assms(2) unfolding all_set_conv_all_nth by (simp add: bracket_def)
  moreover have "\<forall>x \<in> set (drop p d). btKey k < btKey (fst x)"
    using assms(2) unfolding all_set_conv_all_nth by (simp add: bracket_def)
  ultimately show ?thesis unfolding dict_sorted_def sorted_wrt_append by auto
qed

lemma dict_map_insert:
  assumes "bracket d k p p"
  shows "dict_map (take p d @ (k, v) # drop p d) = (dict_map d)(btKey k \<mapsto> v)"
proof
  fix x
  have t: "dict_map (take p d) (btKey k) = None"
    using assms by (auto simp: dict_map_None bracket_def)
  have "dict_map d x = (case dict_map (take p d) x of None \<Rightarrow> dict_map (drop p d) x | Some v \<Rightarrow> Some v)"
    using dict_map_append [of "take p d" "drop p d" x] by simp
  then show "dict_map (take p d @ (k, v) # drop p d) x = ((dict_map d)(btKey k \<mapsto> v)) x"
    using t by (auto simp: dict_map_append split: option.splits)
qed

lemma btDict_add_result:
  assumes "dict_sorted d"
  shows "dict_map d (btKey k) \<noteq> None \<Longrightarrow> btDict_add junk d k v = (- 1, d @ [junk])"
    and "dict_map d (btKey k) = None \<Longrightarrow> \<exists>d'. btDict_add junk d k v = (0, d') \<and> dict_sorted d' \<and>
      dict_map d' = (dict_map d)(btKey k \<mapsto> v) \<and> length d' = Suc (length d)"
proof -
  have r: "case dict_ipos d k 0 (length d) (length d) of
      None \<Rightarrow> \<exists>i < length d. btKey (fst (d ! i)) = btKey k
    | Some p \<Rightarrow> p \<le> length d \<and> bracket d k p p"
    by (rule dict_ipos_result [OF assms bracket_whole refl le0])
  {
    assume "dict_map d (btKey k) \<noteq> None"
    then obtain i where i: "i < length d" "btKey (fst (d ! i)) = btKey k"
      using dict_map_None [of d "btKey k"] by auto
    have "dict_ipos d k 0 (length d) (length d) = None"
    proof (rule ccontr)
      assume "\<not> ?thesis"
      then obtain p where "bracket d k p p" using r by auto
      then show False using bracket_empty [of d k p p i] i by simp
    qed
    then show "btDict_add junk d k v = (- 1, d @ [junk])" by (simp add: btDict_add_def)
  }
  assume none: "dict_map d (btKey k) = None"
  then obtain p where p: "dict_ipos d k 0 (length d) (length d) = Some p" "p \<le> length d" "bracket d k p p"
    using r by (auto simp: dict_map_None split: option.splits)
  then show "\<exists>d'. btDict_add junk d k v = (0, d') \<and> dict_sorted d' \<and>
      dict_map d' = (dict_map d)(btKey k \<mapsto> v) \<and> length d' = Suc (length d)"
    using dict_sorted_insert [OF assms p(3)] dict_map_insert [OF p(3)] by (simp add: btDict_add_def)
qed

section \<open>Insert and look up as an interface\<close>

text \<open>
  What the parser of dictionaries and the readers of torrent files rely on: a table that
  refuses keys it has, and finds what was inserted. Keys are compared through \<open>norm\<close>.
\<close>

locale lookup_table =
  fixes ins :: "'m \<Rightarrow> 'k \<Rightarrow> 'v \<Rightarrow> 'm option"
    and look :: "'m \<Rightarrow> 'k \<Rightarrow> 'v option"
    and inv :: "'m \<Rightarrow> bool"
    and norm :: "'k \<Rightarrow> 'n"
  assumes ins_refuses: "inv m \<Longrightarrow> ins m k v = None \<longleftrightarrow> look m k \<noteq> None"
    and ins_inv: "inv m \<Longrightarrow> ins m k v = Some m' \<Longrightarrow> inv m'"
    and ins_look: "inv m \<Longrightarrow> ins m k v = Some m' \<Longrightarrow>
      look m' k' = (if norm k' = norm k then Some v else look m k')"
begin

primrec ins_all :: "('k \<times> 'v) list \<Rightarrow> 'm \<Rightarrow> 'm option" where
  "ins_all [] m = Some m"
| "ins_all (e # es) m = (case ins m (fst e) (snd e) of None \<Rightarrow> None | Some m' \<Rightarrow> ins_all es m')"

text \<open>New keys, no two alike, all go in, in whatever order they come.\<close>

lemma ins_all_ok:
  assumes "inv m" and "distinct (map (norm \<circ> fst) es)" and "\<forall>e \<in> set es. look m (fst e) = None"
  shows "\<exists>m'. ins_all es m = Some m' \<and> inv m' \<and>
    (\<forall>k. norm k \<notin> norm ` fst ` set es \<longrightarrow> look m' k = look m k) \<and>
    (\<forall>e \<in> set es. look m' (fst e) = Some (snd e))"
  using assms
proof (induction es arbitrary: m)
  case (Cons e es)
  obtain m1 where m1: "ins m (fst e) (snd e) = Some m1"
    using ins_refuses [OF Cons.prems(1), of "fst e" "snd e"] Cons.prems(3) by auto
  note l = ins_look [OF Cons.prems(1) m1]
  have fresh: "norm (fst e) \<notin> norm ` fst ` set es" using Cons.prems(2) by (auto simp: image_image)
  then have "\<forall>x \<in> set es. look m1 (fst x) = None" unfolding l using Cons.prems(3)
    by (auto simp: image_iff)
  then obtain m' where m': "ins_all es m1 = Some m'" "inv m'"
    "\<forall>k. norm k \<notin> norm ` fst ` set es \<longrightarrow> look m' k = look m1 k"
    "\<forall>e \<in> set es. look m' (fst e) = Some (snd e)"
    using Cons.IH [OF ins_inv [OF Cons.prems(1) m1]] Cons.prems(2) by auto
  have "look m' (fst e) = Some (snd e)" using m'(3) fresh l by simp
  with m' m1 l show ?case by simp
qed simp

end

definition dict_put :: "btDict \<Rightarrow> byte list \<Rightarrow> btObject \<Rightarrow> btDict option" where
  "dict_put d k v = (case btDict_add (k, v) d k v of (res, d') \<Rightarrow> if res = 0 then Some d' else None)"

lemma dict_put_present: "dict_sorted d \<Longrightarrow> dict_map d (btKey k) \<noteq> None \<Longrightarrow> dict_put d k v = None"
  by (simp add: dict_put_def btDict_add_result(1))

lemma dict_put_new:
  assumes "dict_sorted d" and "dict_map d (btKey k) = None"
  shows "\<exists>d'. dict_put d k v = Some d' \<and> dict_sorted d' \<and> dict_map d' = (dict_map d)(btKey k \<mapsto> v)"
  using btDict_add_result(2) [OF assms, of "(k, v)" v] by (auto simp: dict_put_def)

interpretation dict: lookup_table dict_put btDict_find dict_sorted btKey
proof
  fix m k v
  assume m: "dict_sorted m"
  show "dict_put m k v = None \<longleftrightarrow> btDict_find m k \<noteq> None"
    unfolding btDict_find_map [OF m] using dict_put_present [OF m, of k v] dict_put_new [OF m, of k v]
    by (cases "dict_map m (btKey k)") auto
  fix m' assume p: "dict_put m k v = Some m'"
  then have "dict_map m (btKey k) = None" using dict_put_present [OF m, of k v]
    by (cases "dict_map m (btKey k)") auto
  from dict_put_new [OF m this, of v] p
  have m': "dict_sorted m'" "dict_map m' = (dict_map m)(btKey k \<mapsto> v)" by auto
  then show "dict_sorted m'" by simp
  show "btDict_find m' k' = (if btKey k' = btKey k then Some v else btDict_find m k')" for k'
    using m' by (simp add: btDict_find_map [OF m'(1)] btDict_find_map [OF m])
qed

section \<open>Decimal numbers\<close>

text \<open>What \<open>%d\<close> and \<open>%lld\<close> print.\<close>

fun dec_nat :: "nat \<Rightarrow> byte list" where
  "dec_nat n = (if n < 10 then [of_nat (48 + n)] else dec_nat (n div 10) @ [of_nat (48 + n mod 10)])"

declare dec_nat.simps [simp del]

definition dec_int :: "int \<Rightarrow> byte list" where
  "dec_int i = (if i < 0 then 45 # dec_nat (nat (- i)) else dec_nat (nat i))"

lemma digit_of_nat:
  assumes "n < 10"
  shows "is_digit (of_nat (48 + n))" and "uint (of_nat (48 + n) :: byte) = 48 + int n"
    and "(of_nat (48 + n) :: byte) \<in> set (ascii ''0123456789'')"
proof -
  have "\<forall>n \<in> set [0..<10]. is_digit (of_nat (48 + n)) \<and> uint (of_nat (48 + n) :: byte) = 48 + int n \<and>
      (of_nat (48 + n) :: byte) \<in> set (ascii ''0123456789'')"
    by code_simp
  with assms show "is_digit (of_nat (48 + n))" and "uint (of_nat (48 + n) :: byte) = 48 + int n"
    and "(of_nat (48 + n) :: byte) \<in> set (ascii ''0123456789'')" by simp_all
qed

lemma dec_nat_digits: "d \<in> set (dec_nat n) \<Longrightarrow> is_digit d \<and> d \<in> set (ascii ''0123456789'')"
proof (induction n rule: dec_nat.induct)
  case (1 n)
  show ?case
  proof (cases "n < 10")
    case True
    then show ?thesis using 1(2) digit_of_nat [OF True] by (subst (asm) dec_nat.simps) simp
  next
    case False
    then show ?thesis using 1 digit_of_nat [of "n mod 10"] by (subst (asm) (2) dec_nat.simps) auto
  qed
qed

lemma digits_val_append: "digits_val (ds @ [d]) = digits_val ds * 10 + (uint d - 48)"
  by (simp add: digits_val_def)

lemma digits_val_dec_nat: "digits_val (dec_nat n) = int n"
proof (induction n rule: dec_nat.induct)
  case (1 n)
  show ?case
  proof (cases "n < 10")
    case True
    then show ?thesis using digit_of_nat(2) [OF True]
      by (subst dec_nat.simps) (simp add: digits_val_def)
  next
    case False
    then show ?thesis using 1 digit_of_nat(2) [of "n mod 10"]
      by (subst dec_nat.simps) (simp only: if_False digits_val_append zdiv_int zmod_int, simp)
  qed
qed

lemma dec_nat_Cons: "\<exists>d ds. dec_nat n = d # ds"
  by (cases "dec_nat n") (subst (asm) dec_nat.simps, auto split: if_splits)

lemma digit_facts:
  "is_digit d \<Longrightarrow> \<not> is_blank d" "is_digit d \<Longrightarrow> d \<noteq> 45" "is_digit d \<Longrightarrow> d \<noteq> 43" "is_digit d \<Longrightarrow> d \<noteq> 47"
  "is_digit d \<Longrightarrow> d \<noteq> 0" "is_digit d \<Longrightarrow> d \<noteq> 58" "is_digit d \<Longrightarrow> d \<noteq> 101"
  by (auto simp: is_digit_def is_blank_def word_le_nat_alt)

lemma atoi_digits:
  assumes "\<forall>d \<in> set ds. is_digit d"
  shows "atoi ds = digits_val ds"
proof (cases ds)
  case Nil
  then show ?thesis by (simp add: atoi_def digits_val_def)
next
  case (Cons d r)
  then have "dropWhile is_blank ds = ds" "takeWhile is_digit ds = ds" "d \<noteq> 45" "d \<noteq> 43"
    using assms digit_facts [of d] by (auto simp: takeWhile_eq_all_conv)
  then show ?thesis using Cons by (simp add: atoi_def)
qed

lemma atoi_dec_nat [simp]: "atoi (dec_nat n) = int n"
  using atoi_digits [of "dec_nat n"] dec_nat_digits [of _ n] by (simp add: digits_val_dec_nat)

section \<open>What lookups by path do\<close>

text \<open>\<open>at_path o ks x\<close>: following the components \<open>ks\<close> from \<open>o\<close> leads to \<open>x\<close>.\<close>

inductive at_path :: "btObject \<Rightarrow> byte list list \<Rightarrow> btObject \<Rightarrow> bool" where
  here: "at_path x [] x"
| in_dict: "dict_map d (btKey k) = Some x \<Longrightarrow> at_path x ks y \<Longrightarrow> at_path (BT_DICT d) (k # ks) y"
| in_list: "i < length l \<Longrightarrow> at_path (l ! i) ks y \<Longrightarrow> at_path (BT_LIST l) (dec_nat i # ks) y"

inductive_cases at_path_ConsE: "at_path x (k # ks) y"
inductive_simps at_path_Nil [simp]: "at_path x [] y"

inductive obj_ok :: "btObject \<Rightarrow> bool" where
  ok_string: "obj_ok (BT_STRING s)"
| ok_integer: "obj_ok (BT_INTEGER i)"
| ok_list: "(\<And>x. x \<in> set l \<Longrightarrow> obj_ok x) \<Longrightarrow> obj_ok (BT_LIST l)"
| ok_dict: "dict_sorted d \<Longrightarrow> (\<And>e. e \<in> set d \<Longrightarrow> obj_ok (snd e)) \<Longrightarrow> obj_ok (BT_DICT d)"

inductive_simps obj_ok_simps [simp]:
  "obj_ok (BT_STRING s)" "obj_ok (BT_INTEGER i)" "obj_ok (BT_LIST l)" "obj_ok (BT_DICT d)"

fun join_path :: "byte list list \<Rightarrow> byte list" where
  "join_path [] = []"
| "join_path [k] = k"
| "join_path (k # ks) = k @ 47 # join_path ks"

definition name_ok :: "byte list \<Rightarrow> bool" where
  "name_ok k \<longleftrightarrow> 47 \<notin> set k \<and> 0 \<notin> set k"

text \<open>One step into an object, as one turn of the loop takes it.\<close>

definition obj_step :: "btObject \<Rightarrow> byte list \<Rightarrow> fault + (bool \<times> btObject option)" where
  "obj_step ob k = (case ob of
      BT_LIST l \<Rightarrow> bindR (btList_index l (atoi k)) (\<lambda>x. Inr (True, Some x))
    | BT_DICT d \<Rightarrow> Inr (True, btDict_find d (btString_create_str k))
    | _ \<Rightarrow> Inr (False, None))"

lemma takeWhile_slash:
  assumes "name_ok k"
  shows "takeWhile (\<lambda>c. c \<noteq> 47) (k @ 47 # r) = k" "dropWhile (\<lambda>c. c \<noteq> 47) (k @ 47 # r) = 47 # r"
    "takeWhile (\<lambda>c. c \<noteq> 47) k = k" "dropWhile (\<lambda>c. c \<noteq> 47) k = []"
  using assms by (auto simp: name_ok_def takeWhile_append dropWhile_append takeWhile_eq_all_conv)

lemma btObject_val_last:
  "name_ok k \<Longrightarrow> btObject_val (Some ob) k =
     bindR (obj_step ob k) (\<lambda>(go, x). if \<not> go then Inr None else Inr x)"
  by (subst btObject_val.simps) (auto simp: Let_def takeWhile_slash obj_step_def bindR_def
      split: btObject.splits sum.splits)

lemma btObject_val_more:
  "name_ok k \<Longrightarrow> btObject_val (Some ob) (k @ 47 # r) =
     bindR (obj_step ob k) (\<lambda>(go, x). if \<not> go then Inr None else btObject_val x r)"
  by (subst btObject_val.simps) (auto simp: Let_def takeWhile_slash obj_step_def bindR_def
      split: btObject.splits sum.splits)

lemma btObject_val_null: "btObject_val None path = Inl Oob"
  by (subst btObject_val.simps) (simp add: Let_def)

lemma obj_step_ok:
  assumes "at_path ob (k # ks) y" and "obj_ok ob" and "name_ok k"
  shows "\<exists>x. obj_step ob k = Inr (True, Some x) \<and> at_path x ks y \<and> obj_ok x"
proof -
  consider d x where "ob = BT_DICT d" "dict_map d (btKey k) = Some x" "at_path x ks y"
    | i l where "ob = BT_LIST l" "k = dec_nat i" "i < length l" "at_path (l ! i) ks y"
    using assms(1) by (auto elim: at_path_ConsE)
  then show ?thesis
  proof cases
    case 1
    then have d: "dict_sorted d" using assms(2) by simp
    have "btString_create_str k = k"
      using assms(3) by (simp add: btString_create_str_def name_ok_def c_string_id)
    moreover have "x \<in> snd ` set d" using 1(2) unfolding dict_map_def by (force dest: map_of_SomeD)
    ultimately show ?thesis using 1 d assms(2) by (auto simp: obj_step_def btDict_find_map)
  next
    case 2
    then show ?thesis using assms(2) by (auto simp: obj_step_def btList_index_def)
  qed
qed

lemma btObject_val_follows:
  assumes "at_path ob ks y" and "ks \<noteq> []" and "obj_ok ob" and "\<forall>k \<in> set ks. name_ok k"
  shows "btObject_val (Some ob) (join_path ks) = Inr (Some y)"
  using assms
proof (induction ks arbitrary: ob)
  case (Cons k ks)
  obtain x where x: "obj_step ob k = Inr (True, Some x)" "at_path x ks y" "obj_ok x"
    using obj_step_ok [OF Cons.prems(1,3)] Cons.prems(4) by auto
  show ?case
  proof (cases ks)
    case Nil
    then show ?thesis using x Cons.prems(4) by (simp add: btObject_val_last)
  next
    case (Cons k' ks')
    then show ?thesis using x Cons.IH [OF x(2) _ x(3)] Cons.prems(4) by (simp add: btObject_val_more)
  qed
qed simp

lemma join_path_more: "ks \<noteq> [] \<Longrightarrow> join_path (ks @ [k]) = join_path ks @ 47 # k"
  by (induction ks rule: join_path.induct) auto

lemma btObject_val_prefix:
  assumes "at_path ob ks y" and "ks \<noteq> []" and "obj_ok ob" and "\<forall>k \<in> set ks. name_ok k"
  shows "btObject_val (Some ob) (join_path ks @ 47 # r) = btObject_val (Some y) r \<and> obj_ok y"
  using assms
proof (induction ks arbitrary: ob)
  case (Cons k ks)
  obtain x where x: "obj_step ob k = Inr (True, Some x)" "at_path x ks y" "obj_ok x"
    using obj_step_ok [OF Cons.prems(1,3)] Cons.prems(4) by auto
  show ?case
  proof (cases ks)
    case Nil
    then show ?thesis using x Cons.prems(4) by (simp add: btObject_val_more)
  next
    case (Cons k' ks')
    then show ?thesis using x Cons.IH [OF x(2) _ x(3)] Cons.prems(4) by (simp add: btObject_val_more)
  qed
qed simp

lemma obj_step_missing:
  assumes "dict_sorted d" and "dict_map d (btKey k) = None" and "name_ok k"
  shows "obj_step (BT_DICT d) k = Inr (True, None)"
  using assms by (simp add: obj_step_def btString_create_str_def name_ok_def c_string_id btDict_find_map)

lemma btObject_val_missing:
  assumes "at_path ob ks (BT_DICT d)" and "obj_ok ob" and "\<forall>k \<in> set ks. name_ok k"
    and "dict_map d (btKey k) = None" and "name_ok k"
  shows "btObject_val (Some ob) (join_path (ks @ [k])) = Inr None \<and>
    btObject_val (Some ob) (join_path (ks @ [k]) @ 47 # r) = Inl Oob"
proof (cases "ks = []")
  case True
  then have "dict_sorted d" "ob = BT_DICT d" using assms(1,2) by auto
  then show ?thesis using True obj_step_missing [of d k] assms(4,5)
    by (simp add: btObject_val_last btObject_val_more btObject_val_null)
next
  case False
  note p = btObject_val_prefix [OF assms(1) False assms(2,3)]
  then have "dict_sorted d" by auto
  then show ?thesis using p False obj_step_missing [of d k] assms(4,5)
    by (simp add: join_path_more btObject_val_last btObject_val_more btObject_val_null)
qed

section \<open>What the objects promise\<close>

text \<open>
  \<open>btString_cmp\<close> is the three-way comparison of a linear order on keys: by the bytes up to
  the first NUL, then by the length. Keys without NULs are equal exactly when they compare
  equal; keys that differ only behind a NUL are taken for the same key.
\<close>

theorem btString_cmp_linear:
  "(btString_cmp a b < 0 \<longleftrightarrow> btKey a < btKey b) \<and> (btString_cmp a b = 0 \<longleftrightarrow> btKey a = btKey b) \<and>
   (0 < btString_cmp a b \<longleftrightarrow> btKey b < btKey a)"
  by (simp add: btString_cmp_iff)

text \<open>
  C8. On a sorted dictionary \<open>btDict_add\<close> refuses exactly the keys \<open>btDict_find\<close> finds. A new key
  leaves a sorted dictionary in which the lookup of it gives the value and every other lookup
  is unchanged; a refused one has bumped the count all the same and left an unset slot.
\<close>

theorem btDict_add_then_find:
  assumes "dict_sorted d"
  shows "(btDict_find d k = None \<and> (\<exists>d'. btDict_add junk d k v = (0, d') \<and> dict_sorted d' \<and>
            length d' = length d + 1 \<and>
            (\<forall>k'. btDict_find d' k' = (if btKey k' = btKey k then Some v else btDict_find d k')))) \<or>
         (btDict_find d k \<noteq> None \<and> btDict_add junk d k v = (- 1, d @ [junk]))"
proof (cases "dict_map d (btKey k)")
  case None
  then show ?thesis using btDict_add_result(2) [OF assms, of k junk v]
    by (auto simp: btDict_find_map assms)
next
  case (Some x)
  then show ?thesis using btDict_add_result(1) [OF assms, of k junk v]
    by (auto simp: btDict_find_map assms)
qed

definition demo_dict :: btDict where
  "demo_dict = [(ascii ''announce'', BT_STRING [1]), (ascii ''info'', BT_DICT [(ascii ''name'', BT_STRING [2, 3])])]"

lemma demo_dict_sorted: "dict_sorted demo_dict"
  by code_simp

theorem btDict_add_then_find_witness:
  "\<exists>d'. btDict_add ([], BT_INTEGER 0) demo_dict (ascii ''encoding'') (BT_INTEGER 7) = (0, d') \<and>
     dict_sorted d' \<and> btDict_find d' (ascii ''encoding'') = Some (BT_INTEGER 7)"
proof -
  have "btDict_find demo_dict (ascii ''encoding'') = None" by code_simp
  then show ?thesis
    using btDict_add_then_find [OF demo_dict_sorted, of "ascii ''encoding''" "([], BT_INTEGER 0)" "BT_INTEGER 7"]
    by auto
qed

text \<open>
  \<open>btObject_val\<close> follows a path of names and list positions through nested dictionaries and
  lists to the object it leads to.
\<close>

theorem btObject_val_finds:
  assumes "at_path ob ks y" and "ks \<noteq> []" and "obj_ok ob" and "\<forall>k \<in> set ks. name_ok k"
  shows "btObject_val (Some ob) (join_path ks) = Inr (Some y)"
  by (rule btObject_val_follows [OF assms])

lemma demo_dict_ok: "obj_ok (BT_DICT demo_dict)"
  "at_path (BT_DICT demo_dict) [ascii ''info'', ascii ''name''] (BT_STRING [2, 3])"
  "at_path (BT_DICT demo_dict) [ascii ''info''] (BT_DICT [(ascii ''name'', BT_STRING [2, 3])])"
proof -
  have s: "dict_sorted [(ascii ''name'', BT_STRING [2, 3])]" by (simp add: dict_sorted_def)
  show "obj_ok (BT_DICT demo_dict)" using demo_dict_sorted s by (auto simp: demo_dict_def)
  have m: "dict_map demo_dict (btKey (ascii ''info'')) = Some (BT_DICT [(ascii ''name'', BT_STRING [2, 3])])"
    by code_simp
  show "at_path (BT_DICT demo_dict) [ascii ''info''] (BT_DICT [(ascii ''name'', BT_STRING [2, 3])])"
    by (rule in_dict [OF m here])
  show "at_path (BT_DICT demo_dict) [ascii ''info'', ascii ''name''] (BT_STRING [2, 3])"
    by (rule in_dict [OF m in_dict [OF _ here]]) simp
qed

theorem btObject_val_finds_witness:
  "btObject_val (Some (BT_DICT demo_dict)) (ascii ''info/name'') = Inr (Some (BT_STRING [2, 3]))"
proof -
  have "join_path [ascii ''info'', ascii ''name''] = ascii ''info/name''"
    "\<forall>k \<in> set [ascii ''info'', ascii ''name'']. name_ok k" by code_simp+
  then show ?thesis
    using btObject_val_finds [OF demo_dict_ok(2) _ demo_dict_ok(1)] by simp
qed

text \<open>
  C9. A dictionary on the way that lacks the next name makes \<open>btObject_val\<close> answer \<open>NULL\<close> when
  the name is the last one, and dereference that \<open>NULL\<close> when the path goes on.
\<close>

theorem btObject_val_null_deref:
  assumes "at_path ob ks (BT_DICT d)" and "obj_ok ob" and "\<forall>k \<in> set ks. name_ok k"
    and "dict_map d (btKey k) = None" and "name_ok k"
  shows "btObject_val (Some ob) (join_path (ks @ [k])) = Inr None \<and>
    btObject_val (Some ob) (join_path (ks @ [k]) @ 47 # r) = Inl Oob"
  by (rule btObject_val_missing [OF assms])

theorem btObject_val_null_deref_witness:
  "btObject_val (Some (BT_DICT demo_dict)) (ascii ''info/files/0'') = Inl Oob"
proof -
  have "join_path ([ascii ''info''] @ [ascii ''files'']) @ 47 # ascii ''0'' = ascii ''info/files/0''"
    "\<forall>k \<in> set [ascii ''info'']. name_ok k" "name_ok (ascii ''files'')"
    "dict_map [(ascii ''name'', BT_STRING [2, 3])] (btKey (ascii ''files'')) = None" by code_simp+
  then show ?thesis
    using btObject_val_null_deref [OF demo_dict_ok(3,1), of "ascii ''files''" "ascii ''0''"] by simp
qed

end
