(* ===== verification/Bt_Benc.thy ===== *)
theory Bt_Benc
  imports Bt_Types Bt_Bts
begin

text \<open>
  \<open>benc.c\<close>: writing objects to a stream in the bencoding and reading them back. The writer and
  the reader are the mutually recursive functions of the source over the streams of \<open>bts.c\<close>;
  the bencoding itself is stated as a function from objects to bytes, which the writer is shown
  to produce and the reader to invert.
\<close>

section \<open>Writing\<close>

text \<open>\<open>res |= ...\<close> is a bitwise or on \<open>int\<close>.\<close>

definition benc_put_string :: "btStream \<Rightarrow> byte list \<Rightarrow> fault + (int \<times> btStream)" where
  "benc_put_string bts s =
     bindR (bts_printf bts (dec_nat (length s) @ ascii '':'')) (\<lambda>(res, bts).
     bindR (bts_write bts s (int (length s))) (\<lambda>(res', bts). Inr (res OR res', bts)))"

definition benc_put_int :: "btStream \<Rightarrow> int \<Rightarrow> fault + (int \<times> btStream)" where
  "benc_put_int bts i = bts_printf bts (ascii ''i'' @ dec_int i @ ascii ''e'')"

lemma dict_search_mem:
  "dict_search d k lo hi = Some v \<Longrightarrow> hi \<le> length d \<Longrightarrow> v \<in> snd ` set d"
proof (induction d k lo hi rule: dict_search.induct)
  case (1 d k lo hi)
  show ?case
  proof (cases "lo < hi")
    case False
    then show ?thesis using 1(3) by (subst (asm) dict_search.simps) simp
  next
    case True
    define m where "m = (lo + hi) div 2"
    have m: "m < hi" "m < length d" using True 1(4) by (auto simp: m_def)
    consider "btString_cmp k (fst (d ! m)) = 0" | "btString_cmp k (fst (d ! m)) < 0"
      | "0 < btString_cmp k (fst (d ! m))" by linarith
    then show ?thesis
    proof cases
      case 1
      then have "v = snd (d ! m)" using "1.prems"(1) True
        by (subst (asm) dict_search.simps) (simp add: Let_def m_def)
      then show ?thesis using m by simp
    next
      case 2
      then have "dict_search d k lo hi = dict_search d k lo m"
        using True by (subst dict_search.simps) (simp add: Let_def m_def)
      then show ?thesis using "1.IH"(1) [OF True refl refl] "1.prems" m 2 by (simp add: m_def)
    next
      case 3
      then have "dict_search d k lo hi = dict_search d k (m + 1) hi"
        using True by (subst dict_search.simps) (simp add: Let_def m_def)
      then show ?thesis using "1.IH"(2) [OF True refl refl] "1.prems" 3 by (simp add: m_def)
    qed
  qed
qed

lemma btDict_find_mem: "btDict_find d k = Some v \<Longrightarrow> v \<in> snd ` set d"
  by (simp add: btDict_find_def dict_search_mem)

lemma size_dict_value: "e \<in> set d \<Longrightarrow> size (snd e) < size_list (size_prod (\<lambda>_. 0) size) d"
  by (induction d) auto

lemma btDict_find_size:
  "btDict_find d k = Some v \<Longrightarrow> size v < size_list (size_prod (\<lambda>_. 0) size) d"
  using btDict_find_mem size_dict_value by fastforce

text \<open>
  The loop over a list goes on after an error and or-s the results together; the loop over a
  dictionary stops at the first error. The value of a key is looked up again.
\<close>

function benc_put_object :: "btStream \<Rightarrow> btObject \<Rightarrow> fault + (int \<times> btStream)"
  and put_items :: "btStream \<Rightarrow> btObject list \<Rightarrow> fault + (int \<times> btStream)"
  and put_entries :: "btStream \<Rightarrow> btDict \<Rightarrow> nat \<times> byte list option \<Rightarrow> fault + (int \<times> btStream)" where
  "benc_put_object bts (BT_STRING s) = benc_put_string bts s"
| "benc_put_object bts (BT_INTEGER i) = benc_put_int bts i"
| "benc_put_object bts (BT_LIST l) =
     bindR (bts_printf bts (ascii ''l'')) (\<lambda>(res, bts).
     bindR (put_items bts l) (\<lambda>(res', bts).
     bindR (bts_printf bts (ascii ''e'')) (\<lambda>(res'', bts). Inr (res OR res' OR res'', bts))))"
| "benc_put_object bts (BT_DICT d) =
     bindR (bts_printf bts (ascii ''d'')) (\<lambda>(res, bts).
       if res \<noteq> 0 then Inr (res, bts) else put_entries bts d (btDictIt_first d))"
| "put_items bts [] = Inr (0, bts)"
| "put_items bts (x # xs) =
     bindR (benc_put_object bts x) (\<lambda>(res, bts).
     bindR (put_items bts xs) (\<lambda>(res', bts). Inr (res OR res', bts)))"
| "put_entries bts d (idx, None) = bts_printf bts (ascii ''e'')"
| "put_entries bts d (idx, Some k) =
     (let v = btDict_find d k in
      bindR (benc_put_string bts k) (\<lambda>(res, bts).
        if res \<noteq> 0 then Inr (res, bts)
        else case v of
            None \<Rightarrow> Inl Oob
          | Some ob \<Rightarrow> bindR (benc_put_object bts ob) (\<lambda>(res, bts).
              if res \<noteq> 0 then Inr (res, bts) else put_entries bts d (btDictIt_next d idx))))"
  by pat_completeness auto
termination
proof (relation "inv_image (less_than <*lex*> less_than)
    (case_sum (\<lambda>(b, x). (size x, 0))
      (case_sum (\<lambda>(b, l). (size_list size l, 0))
        (\<lambda>(b, d, it). (size_list (size_prod (\<lambda>_. 0) size) d, case it of (i, None) \<Rightarrow> 0 | (i, Some _) \<Rightarrow> Suc (length d - i)))))",
    goal_cases)
  case 1
  show ?case by auto
qed (auto simp: btDictIt_next_def btDictIt_hasNext_def btDict_find_size)
section \<open>The bencoding\<close>

definition benc_string :: "byte list \<Rightarrow> byte list" where
  "benc_string s = dec_nat (length s) @ ascii '':'' @ s"

fun bencode :: "btObject \<Rightarrow> byte list" where
  "bencode (BT_STRING s) = benc_string s"
| "bencode (BT_INTEGER i) = ascii ''i'' @ dec_int i @ ascii ''e''"
| "bencode (BT_LIST l) = ascii ''l'' @ concat (map bencode l) @ ascii ''e''"
| "bencode (BT_DICT d) =
     ascii ''d'' @ concat (map (\<lambda>e. benc_string (fst e) @ bencode (snd e)) d) @ ascii ''e''"

text \<open>The numbers that occur fit their C types: \<open>int\<close> for lengths, 64 bits for integers.\<close>

definition str_fits :: "byte list \<Rightarrow> bool" where
  "str_fits s \<longleftrightarrow> length s < 2147483648"

fun obj_fits :: "btObject \<Rightarrow> bool" where
  "obj_fits (BT_STRING s) = str_fits s"
| "obj_fits (BT_INTEGER i) = (- 9223372036854775808 \<le> i \<and> i < 9223372036854775808)"
| "obj_fits (BT_LIST l) = (\<forall>x \<in> set l. obj_fits x)"
| "obj_fits (BT_DICT d) = (\<forall>e \<in> set d. str_fits (fst e) \<and> obj_fits (snd e))"

lemma length_dec_nat: "n < 10 ^ k \<Longrightarrow> 0 < k \<Longrightarrow> length (dec_nat n) \<le> k"
proof (induction n arbitrary: k rule: dec_nat.induct)
  case (1 n)
  show ?case
  proof (cases "n < 10")
    case True
    then show ?thesis using 1(3) by (subst dec_nat.simps) simp
  next
    case False
    then obtain j where j: "k = Suc j" "0 < j" using 1(2,3) by (cases k; cases "k - 1") auto
    then have "n div 10 < 10 ^ j" using 1(2) by (simp add: less_mult_imp_div_less mult.commute)
    then show ?thesis using 1(1) [OF False _ j(2)] j False by (subst dec_nat.simps) simp
  qed
qed

lemma length_dec_str: "str_fits s \<Longrightarrow> length (dec_nat (length s)) \<le> 10"
  by (rule length_dec_nat) (simp_all add: str_fits_def)

lemma length_dec_int:
  assumes "- 9223372036854775808 \<le> i" and "i < 9223372036854775808"
  shows "length (dec_int i) \<le> 20"
proof -
  have "nat (- i) < 10 ^ 19" "nat i < 10 ^ 19" using assms by simp_all
  then show ?thesis
    using length_dec_nat [of "nat (- i)" 19] length_dec_nat [of "nat i" 19] by (simp add: dec_int_def)
qed

lemma length_ascii [simp]: "length (ascii cs) = length cs"
  by (simp add: ascii_def)

section \<open>The writer produces the bencoding\<close>

text \<open>\<open>puts out f\<close>: on every open stream \<open>f\<close> succeeds and appends \<open>out\<close>.\<close>

definition puts :: "byte list \<Rightarrow> (btStream \<Rightarrow> fault + (int \<times> btStream)) \<Rightarrow> bool" where
  "puts out f \<longleftrightarrow> (\<forall>bts. bts_open_out bts \<longrightarrow>
     (\<exists>bts'. f bts = Inr (0, bts') \<and> bts_written bts' = bts_written bts @ out \<and> bts_open_out bts'))"

lemma putsD:
  assumes "puts out f" and "bts_open_out bts"
  obtains bts' where "f bts = Inr (0, bts')" "bts_written bts' = bts_written bts @ out" "bts_open_out bts'"
  using assms by (auto simp: puts_def)

lemma puts_seq:
  assumes "puts a f" and "puts b g"
  shows "puts (a @ b) (\<lambda>bts. bindR (f bts) (\<lambda>(r, bts). bindR (g bts) (\<lambda>(r', bts). Inr (r OR r', bts))))"
  unfolding puts_def
proof (intro allI impI)
  fix bts assume "bts_open_out bts"
  with assms(1) obtain b1 where "f bts = Inr (0, b1)" "bts_written b1 = bts_written bts @ a" "bts_open_out b1"
    by (rule putsD)
  moreover from assms(2) this(3) obtain b2
    where "g b1 = Inr (0, b2)" "bts_written b2 = bts_written b1 @ b" "bts_open_out b2" by (rule putsD)
  ultimately show "\<exists>bts'. bindR (f bts) (\<lambda>(r, bts). bindR (g bts) (\<lambda>(r', bts). Inr (r OR r', bts))) =
      Inr (0, bts') \<and> bts_written bts' = bts_written bts @ a @ b \<and> bts_open_out bts'"
    by auto
qed

lemma puts_printf: "length out < 8192 \<Longrightarrow> puts out (\<lambda>bts. bts_printf bts out)"
  by (simp add: puts_def bts_printf_ok)

lemma puts_write: "puts s (\<lambda>bts. bts_write bts s (int (length s)))"
  by (simp add: puts_def bts_out.wr_ok)

lemma puts_string: "str_fits s \<Longrightarrow> puts (benc_string s) (\<lambda>bts. benc_put_string bts s)"
  using puts_seq [OF puts_printf puts_write, of "dec_nat (length s) @ ascii '':''" s] length_dec_str [of s]
  by (simp add: benc_put_string_def [abs_def] benc_string_def)

lemma puts_int: "obj_fits (BT_INTEGER i) \<Longrightarrow> puts (bencode (BT_INTEGER i)) (\<lambda>bts. benc_put_int bts i)"
  using length_dec_int [of i] puts_printf [of "bencode (BT_INTEGER i)"] by (simp add: benc_put_int_def)

lemma puts_items:
  assumes "\<forall>x \<in> set l. puts (bencode x) (\<lambda>bts. benc_put_object bts x)"
  shows "puts (concat (map bencode l)) (\<lambda>bts. put_items bts l)"
  using assms
proof (induction l)
  case (Cons x l)
  then show ?case
    using puts_seq [of "bencode x" "\<lambda>bts. benc_put_object bts x" _ "\<lambda>bts. put_items bts l"] by simp
qed (simp add: puts_def)

lemma puts_entries:
  assumes "dict_sorted d" and "\<forall>e \<in> set d. puts (bencode (snd e)) (\<lambda>bts. benc_put_object bts (snd e))"
    and "\<forall>e \<in> set d. str_fits (fst e)" and "i < length d"
  shows "puts (concat (map (\<lambda>e. benc_string (fst e) @ bencode (snd e)) (drop i d)) @ ascii ''e'')
    (\<lambda>bts. put_entries bts d (i, Some (fst (d ! i))))"
  using assms(4)
proof (induction "length d - i" arbitrary: i)
  case (Suc n)
  let ?rest = "concat (map (\<lambda>e. benc_string (fst e) @ bencode (snd e)) (drop (Suc i) d)) @ ascii ''e''"
  have next_ok: "puts ?rest (\<lambda>bts. put_entries bts d (btDictIt_next d i))"
  proof (cases "Suc i < length d")
    case True
    then show ?thesis using Suc.hyps(1) [of "Suc i"] Suc.hyps(2)
      by (simp add: btDictIt_next_def btDictIt_hasNext_def)
  next
    case False
    then show ?thesis using puts_printf [of "ascii ''e''"]
      by (simp add: btDictIt_next_def btDictIt_hasNext_def)
  qed
  have f: "btDict_find d (fst (d ! i)) = Some (snd (d ! i))"
    using dict_map_nth [OF assms(1) Suc.prems] by (simp add: btDict_find_map [OF assms(1)])
  have e: "d ! i \<in> set d" using Suc.prems by simp
  show ?case unfolding puts_def
  proof (intro allI impI)
    fix bts assume "bts_open_out bts"
    with puts_string [of "fst (d ! i)"] assms(3) e obtain b1
      where b1: "benc_put_string bts (fst (d ! i)) = Inr (0, b1)"
        "bts_written b1 = bts_written bts @ benc_string (fst (d ! i))" "bts_open_out b1"
      by (auto elim: putsD)
    with assms(2) e obtain b2
      where b2: "benc_put_object b1 (snd (d ! i)) = Inr (0, b2)"
        "bts_written b2 = bts_written b1 @ bencode (snd (d ! i))" "bts_open_out b2"
      by (blast elim: putsD)
    from next_ok b2(3) obtain b3
      where "put_entries b2 d (btDictIt_next d i) = Inr (0, b3)" "bts_written b3 = bts_written b2 @ ?rest"
        "bts_open_out b3" by (rule putsD)
    then show "\<exists>bts'. put_entries bts d (i, Some (fst (d ! i))) = Inr (0, bts') \<and> bts_written bts' =
        bts_written bts @ concat (map (\<lambda>e. benc_string (fst e) @ bencode (snd e)) (drop i d)) @ ascii ''e'' \<and>
        bts_open_out bts'"
      using b1 b2 f Suc.prems by (simp add: Let_def Cons_nth_drop_Suc [symmetric])
  qed
qed simp

lemma puts_object: "obj_ok ob \<Longrightarrow> obj_fits ob \<Longrightarrow> puts (bencode ob) (\<lambda>bts. benc_put_object bts ob)"
proof (induction rule: obj_ok.induct)
  case (ok_string s)
  then show ?case using puts_string [of s] by simp
next
  case (ok_integer i)
  then show ?case using puts_int [of i] by simp
next
  case (ok_list l)
  then have "puts (concat (map bencode l)) (\<lambda>bts. put_items bts l)" by (intro puts_items) simp
  note items = this
  show ?case unfolding puts_def
  proof (intro allI impI)
    fix bts assume "bts_open_out bts"
    with puts_printf [of "ascii ''l''"] obtain b1 where b1: "bts_printf bts (ascii ''l'') = Inr (0, b1)"
      "bts_written b1 = bts_written bts @ ascii ''l''" "bts_open_out b1" by (auto elim: putsD)
    from items b1(3) obtain b2 where b2: "put_items b1 l = Inr (0, b2)"
      "bts_written b2 = bts_written b1 @ concat (map bencode l)" "bts_open_out b2" by (rule putsD)
    with puts_printf [of "ascii ''e''"] obtain b3 where "bts_printf b2 (ascii ''e'') = Inr (0, b3)"
      "bts_written b3 = bts_written b2 @ ascii ''e''" "bts_open_out b3" by (auto elim: putsD)
    then show "\<exists>bts'. benc_put_object bts (BT_LIST l) = Inr (0, bts') \<and>
        bts_written bts' = bts_written bts @ bencode (BT_LIST l) \<and> bts_open_out bts'"
      using b1 b2 by simp
  qed
next
  case (ok_dict d)
  show ?case unfolding puts_def
  proof (intro allI impI)
    fix bts assume "bts_open_out bts"
    with puts_printf [of "ascii ''d''"] obtain b1 where b1: "bts_printf bts (ascii ''d'') = Inr (0, b1)"
      "bts_written b1 = bts_written bts @ ascii ''d''" "bts_open_out b1" by (auto elim: putsD)
    have "puts (concat (map (\<lambda>e. benc_string (fst e) @ bencode (snd e)) d) @ ascii ''e'')
        (\<lambda>bts. put_entries bts d (btDictIt_first d))"
      using puts_entries [of d 0] ok_dict puts_printf [of "ascii ''e''"]
      by (cases "d = []") (simp_all add: btDictIt_first_def)
    from this b1(3) obtain b2 where "put_entries b1 d (btDictIt_first d) = Inr (0, b2)" "bts_open_out b2"
      "bts_written b2 = bts_written b1 @ concat (map (\<lambda>e. benc_string (fst e) @ bencode (snd e)) d) @ ascii ''e''"
      by (rule putsD)
    then show "\<exists>bts'. benc_put_object bts (BT_DICT d) = Inr (0, bts') \<and>
        bts_written bts' = bts_written bts @ bencode (BT_DICT d) \<and> bts_open_out bts'"
      using b1 by simp
  qed
qed

section \<open>Reading\<close>

text \<open>
  A reader returns its non-zero status on the left, or what it read on the right, and the
  stream; the partial objects an error leaves behind are not used by any caller.
\<close>

definition benc_get_string :: "btStream \<Rightarrow> fault + ((int + byte list) \<times> btStream)" where
  "benc_get_string bts =
     (case bts_scanbreak bts (ascii ''0123456789'') (ascii '':'') 10 of (res, ibuf, bts) \<Rightarrow>
        if res \<noteq> 0 then Inr (Inl res, bts)
        else let slen = atoi ibuf in
          die_unless (slen < 8 * 1024 * 1024)
            (if slen > 0 then
               (case bts_read bts slen of (res, sbuf, bts) \<Rightarrow>
                  Inr (if res \<noteq> 0 then Inl res else Inr sbuf, bts))
             else if slen < 0 then Inr (Inl (- 1), bts)
             else Inr (Inr [], bts)))"

text \<open>\<open>strtoll\<close> of digits stops at the largest \<open>long long\<close>.\<close>

definition strtoll :: "byte list \<Rightarrow> int" where
  "strtoll s = min (atoi s) 9223372036854775807"

definition benc_get_int :: "btStream \<Rightarrow> (int + int) \<times> btStream" where
  "benc_get_int bts =
     (case bts_read bts 1 of (res, c, bts) \<Rightarrow>
        if res \<noteq> 0 then (Inl res, bts)
        else if hd c \<noteq> 105 then (Inl 1, bts)
        else case bts_scanbreak bts (ascii ''0123456789'') (ascii ''e'') 25 of (res, ibuf, bts) \<Rightarrow>
          (if res \<noteq> 0 then Inl res else Inr (strtoll ibuf), bts))"

lemma bts_read_shrinksD: "bts_read s n = (r, b, s') \<Longrightarrow> length (bts_avail s') \<le> length (bts_avail s)"
  using bts_read_shrinks [of s n] by simp

lemma bts_scanbreak_shrinksD:
  "bts_scanbreak s cset bset n = (r, b, s') \<Longrightarrow> length (bts_avail s') \<le> length (bts_avail s)"
  using bts_scanbreak_shrinks [of s cset bset n] by simp

lemma bts_read_one_shrinks:
  "bts_read bts 1 = (0, c, bts') \<Longrightarrow> length (bts_avail bts) = Suc (length (bts_avail bts'))"
  using bts_read_ok [of bts 1 c bts'] by auto

lemma benc_get_string_shrinks:
  "benc_get_string bts = Inr (r, bts') \<Longrightarrow> length (bts_avail bts') \<le> length (bts_avail bts)"
  by (auto simp: benc_get_string_def Let_def die_unless_def split: prod.splits if_splits
      dest!: bts_scanbreak_shrinksD bts_read_shrinksD)

text \<open>
  The closing \<open>e\<close> of a list or a dictionary. The loops check that each turn has used up input,
  which makes the recursion well-founded; \<open>get_object_shrinks\<close> shows that it always has.
\<close>

definition get_close :: "btStream \<Rightarrow> btObject \<Rightarrow> (int + btObject) \<times> btStream" where
  "get_close bts ob =
     (case bts_read bts 1 of (res, buf, bts) \<Rightarrow>
        if res \<noteq> 0 then (Inl res, bts) else if hd buf \<noteq> 101 then (Inl 1, bts) else (Inr ob, bts))"

function benc_get_object :: "btStream \<Rightarrow> fault + ((int + btObject) \<times> btStream)"
  and benc_get_list :: "btStream \<Rightarrow> fault + ((int + btObject) \<times> btStream)"
  and get_list_loop :: "btStream \<Rightarrow> btObject list \<Rightarrow> fault + ((int + btObject) \<times> btStream)"
  and benc_get_dict :: "btStream \<Rightarrow> fault + ((int + btObject) \<times> btStream)"
  and get_dict_loop :: "btStream \<Rightarrow> btDict \<Rightarrow> fault + ((int + btObject) \<times> btStream)" where
  "benc_get_object bts =
     (let c = bts_peek bts in
      if c < 0 then Inr (Inl (- 1), bts)
      else if c = 100 then benc_get_dict bts
      else if c = 108 then benc_get_list bts
      else if c = 105 then
        Inr (case benc_get_int bts of (Inl e, bts) \<Rightarrow> (Inl e, bts) | (Inr i, bts) \<Rightarrow> (Inr (BT_INTEGER i), bts))
      else if 48 \<le> c \<and> c \<le> 57 then
        bindR (benc_get_string bts) (\<lambda>(r, bts).
          Inr (case r of Inl e \<Rightarrow> Inl e | Inr s \<Rightarrow> Inr (BT_STRING s), bts))
      else Inr (Inl (- 1), bts))"
| "benc_get_list bts =
     (case bts_read bts 1 of (res, buf, bts') \<Rightarrow>
        if res \<noteq> 0 then Inr (Inl res, bts')
        else if hd buf \<noteq> 108 then Inr (Inl 1, bts')
        else get_list_loop bts' [])"
| "get_list_loop bts a =
     (if bts_peek bts \<noteq> 101 then
        bindR (benc_get_object bts) (\<lambda>(r, bts'). case r of
            Inl e \<Rightarrow> Inr (Inl 1, bts')
          | Inr ob \<Rightarrow>
              if length (bts_avail bts') < length (bts_avail bts) then get_list_loop bts' (btList_add a ob)
              else Inl Oob)
      else Inr (get_close bts (BT_LIST a)))"
| "benc_get_dict bts =
     (case bts_read bts 1 of (res, buf, bts') \<Rightarrow>
        if res \<noteq> 0 then Inr (Inl res, bts')
        else if hd buf \<noteq> 100 then Inr (Inl 1, bts')
        else get_dict_loop bts' [])"
| "get_dict_loop bts a =
     (if bts_peek bts \<noteq> 101 then
        bindR (benc_get_string bts) (\<lambda>(rk, bts1). case rk of
            Inl e \<Rightarrow> Inr (Inl e, bts1)
          | Inr k \<Rightarrow>
              bindR (benc_get_object bts1) (\<lambda>(ro, bts'). case ro of
                  Inl e \<Rightarrow> Inr (Inl e, bts')
                | Inr ob \<Rightarrow>
                    (case btDict_add (k, ob) a k ob of (res, a') \<Rightarrow>
                       if res \<noteq> 0 then Inr (Inl 1, bts')
                       else if length (bts_avail bts') < length (bts_avail bts) then get_dict_loop bts' a'
                       else Inl Oob)))
      else Inr (get_close bts (BT_DICT a)))"
  by pat_completeness auto
termination
proof (relation "inv_image (less_than <*lex*> less_than)
    (case_sum (case_sum (\<lambda>b. (length (bts_avail b), 1)) (\<lambda>b. (length (bts_avail b), 0)))
      (case_sum (\<lambda>(b, a). (length (bts_avail b), 2)) 
        (case_sum (\<lambda>b. (length (bts_avail b), 0 :: nat)) (\<lambda>(b, a). (length (bts_avail b), 2)))))",
    goal_cases)
  case 1
  show ?case by auto
qed (auto dest: bts_read_one_shrinks [OF sym] benc_get_string_shrinks)

declare benc_get_object.simps [simp del] benc_get_list.simps [simp del] get_list_loop.simps [simp del]
  benc_get_dict.simps [simp del] get_dict_loop.simps [simp del]

section \<open>The reader is safe on every input\<close>

text \<open>What the reader can return: counts below 8 MiB, integers of 63 bits, sorted dictionaries.\<close>

definition str_readable :: "byte list \<Rightarrow> bool" where
  "str_readable s \<longleftrightarrow> length s < 8 * 1024 * 1024"

fun obj_readable :: "btObject \<Rightarrow> bool" where
  "obj_readable (BT_STRING s) = str_readable s"
| "obj_readable (BT_INTEGER i) = (0 \<le> i \<and> i < 9223372036854775808)"
| "obj_readable (BT_LIST l) = (\<forall>x \<in> set l. obj_readable x)"
| "obj_readable (BT_DICT d) = (\<forall>e \<in> set d. str_readable (fst e) \<and> obj_readable (snd e))"

text \<open>No fault but an abort; an object read is well-formed and has used up input.\<close>

definition good_read :: "btStream \<Rightarrow> fault + ((int + btObject) \<times> btStream) \<Rightarrow> bool" where
  "good_read bts res \<longleftrightarrow> res \<noteq> Inl Oob \<and>
     (\<forall>ob bts'. res = Inr (Inr ob, bts') \<longrightarrow>
        length (bts_avail bts') < length (bts_avail bts) \<and> obj_ok ob \<and> obj_readable ob)"

lemma good_readI:
  "(\<And>ob bts'. res = Inr (Inr ob, bts') \<Longrightarrow>
      length (bts_avail bts') < length (bts_avail bts) \<and> obj_ok ob \<and> obj_readable ob) \<Longrightarrow>
   res \<noteq> Inl Oob \<Longrightarrow> good_read bts res"
  by (simp add: good_read_def)

lemma good_read_status [simp]: "good_read bts (Inr (Inl e, bts'))" "good_read bts (Inl Abort)"
  by (simp_all add: good_read_def)

lemma good_read_mono:
  "good_read b1 res \<Longrightarrow> length (bts_avail b1) \<le> length (bts_avail b2) \<Longrightarrow> good_read b2 res"
  by (fastforce simp: good_read_def)

lemma foldl_digits_nonneg:
  "\<forall>d \<in> set ds. is_digit d \<Longrightarrow> 0 \<le> n \<Longrightarrow> 0 \<le> foldl (\<lambda>n d. n * 10 + (uint (d :: byte) - 48)) n ds"
  by (induction ds arbitrary: n) (auto simp: is_digit_def word_le_def)

lemma digit_chars: "d \<in> set (ascii ''0123456789'') \<Longrightarrow> is_digit d"
  by (auto simp: ascii_def is_digit_def)

lemma atoi_nonneg: "\<forall>d \<in> set ds. d \<in> set (ascii ''0123456789'') \<Longrightarrow> 0 \<le> atoi ds"
  using atoi_digits [of ds] foldl_digits_nonneg [of ds 0] digit_chars by (auto simp: digits_val_def)

lemma bts_scanbreak_ok:
  assumes "bts_scanbreak s cset bset n = (0, out, s')"
  shows "\<exists>b. bts_avail s = out @ b # bts_avail s' \<and> strchr bset b \<and> (\<forall>d \<in> set out. d \<in> set cset)"
  using scan_loop_ok [OF assms [unfolded bts_scanbreak_def]] by auto

lemma benc_get_string_good:
  "benc_get_string bts \<noteq> Inl Oob"
  "benc_get_string bts = Inr (Inr k, bts') \<Longrightarrow>
     length (bts_avail bts') < length (bts_avail bts) \<and> str_readable k"
proof -
  obtain res ibuf b1 where r: "bts_scanbreak bts (ascii ''0123456789'') (ascii '':'') 10 = (res, ibuf, b1)"
    by (metis prod_cases3)
  show "benc_get_string bts \<noteq> Inl Oob"
    by (auto simp: benc_get_string_def r Let_def die_unless_def split: prod.splits)
  assume g: "benc_get_string bts = Inr (Inr k, bts')"
  then have "res = 0" using r by (auto simp: benc_get_string_def split: if_splits)
  note scan = bts_scanbreak_ok [OF r [unfolded this]]
  have sl: "atoi ibuf < 8 * 1024 * 1024" "0 \<le> atoi ibuf"
    using g r \<open>res = 0\<close> atoi_nonneg [of ibuf] scan
    by (auto simp: benc_get_string_def Let_def die_unless_def split: if_splits)
  show "length (bts_avail bts') < length (bts_avail bts) \<and> str_readable k"
  proof (cases "atoi ibuf = 0")
    case True
    then show ?thesis using g r \<open>res = 0\<close> scan
      by (auto simp: benc_get_string_def Let_def str_readable_def)
  next
    case False
    then have "bts_read b1 (atoi ibuf) = (0, k, bts')"
      using g r \<open>res = 0\<close> sl by (auto simp: benc_get_string_def Let_def split: prod.splits if_splits)
    from bts_read_ok [OF this] False sl scan show ?thesis by (auto simp: str_readable_def)
  qed
qed

lemma benc_get_int_good:
  assumes "benc_get_int bts = (Inr i, bts')"
  shows "length (bts_avail bts') < length (bts_avail bts) \<and> 0 \<le> i \<and> i < 9223372036854775808"
proof -
  obtain c b1 where r: "bts_read bts 1 = (0, c, b1)"
    using assms by (auto simp: benc_get_int_def split: prod.splits if_splits)
  obtain ibuf where b: "bts_scanbreak b1 (ascii ''0123456789'') (ascii ''e'') 25 = (0, ibuf, bts')"
    "i = strtoll ibuf"
    using assms r by (auto simp: benc_get_int_def split: prod.splits if_splits)
  show ?thesis
    using bts_read_one_shrinks [OF r] bts_scanbreak_shrinksD [OF b(1)] bts_scanbreak_ok [OF b(1)]
      atoi_nonneg [of ibuf] b(2) by (auto simp: strtoll_def)
qed

lemma get_close_good:
  assumes "obj_ok ob" and "obj_readable ob"
  shows "good_read bts (Inr (get_close bts ob))"
  using assms by (auto simp: good_read_def get_close_def split: prod.splits if_splits
      dest!: bts_read_one_shrinks)

lemma btDict_add_keeps:
  assumes "dict_sorted a" and "btDict_add junk a k v = (0, a')"
  shows "dict_sorted a' \<and> set a' \<subseteq> insert (k, v) (set a)"
proof -
  have "dict_map a (btKey k) = None"
    using assms(2) btDict_add_result(1) [OF assms(1), of k junk v] by (cases "dict_map a (btKey k)") auto
  then have "dict_sorted a'" using btDict_add_result(2) [OF assms(1), of k junk v] assms(2) by auto
  moreover have "set a' \<subseteq> insert (k, v) (set a)"
    using assms(2) by (auto simp: btDict_add_def split: option.splits dest: in_set_takeD in_set_dropD)
  ultimately show ?thesis by simp
qed

lemma good_read_bind_object:
  assumes "good_read b1 (benc_get_object b1)"
    and "\<And>ob b'. benc_get_object b1 = Inr (Inr ob, b') \<Longrightarrow> length (bts_avail b') < length (bts_avail b1) \<Longrightarrow>
      obj_ok ob \<Longrightarrow> obj_readable ob \<Longrightarrow> good_read bts (f ob b')"
  shows "good_read bts (bindR (benc_get_object b1) (\<lambda>(r, b'). case r of
      Inl e \<Rightarrow> Inr (Inl (g e), b') | Inr ob \<Rightarrow> f ob b'))"
proof (cases "benc_get_object b1")
  case (Inl e)
  then show ?thesis using assms(1) by (cases e) (simp_all add: good_read_def)
next
  case (Inr x)
  then show ?thesis using assms by (cases x; cases "fst x") (simp_all add: good_read_def)
qed

lemma good_read_bind_string:
  assumes "\<And>k b'. benc_get_string b1 = Inr (Inr k, b') \<Longrightarrow> length (bts_avail b') < length (bts_avail b1) \<Longrightarrow>
      str_readable k \<Longrightarrow> good_read bts (f k b')"
  shows "good_read bts (bindR (benc_get_string b1) (\<lambda>(r, b'). case r of
      Inl e \<Rightarrow> Inr (Inl (g e), b') | Inr k \<Rightarrow> f k b'))"
proof (cases "benc_get_string b1")
  case (Inl e)
  then show ?thesis using benc_get_string_good(1) [of b1] by (cases e) simp_all
next
  case (Inr x)
  then show ?thesis using assms benc_get_string_good(2) [of b1] by (cases x; cases "fst x") simp_all
qed

lemma get_all_good:
  "good_read bts (benc_get_object bts)"
  "good_read b1 (benc_get_list b1)"
  "(\<forall>x \<in> set a. obj_ok x \<and> obj_readable x) \<longrightarrow> good_read b2 (get_list_loop b2 a)"
  "good_read b3 (benc_get_dict b3)"
  "dict_sorted d \<and> (\<forall>e \<in> set d. str_readable (fst e) \<and> obj_ok (snd e) \<and> obj_readable (snd e)) \<longrightarrow>
     good_read b4 (get_dict_loop b4 d)"
proof (induction bts and b1 and b2 a and b3 and b4 d
    rule: benc_get_object_benc_get_list_get_list_loop_benc_get_dict_get_dict_loop.induct)
  case (1 bts)
  have str: "good_read bts (bindR (benc_get_string bts) (\<lambda>(r, bts).
      Inr (case r of Inl e \<Rightarrow> Inl e | Inr s \<Rightarrow> Inr (BT_STRING s), bts)))"
  proof (cases "benc_get_string bts")
    case (Inl e)
    then show ?thesis using benc_get_string_good(1) [of bts] by (cases e) simp_all
  next
    case (Inr x)
    then show ?thesis using benc_get_string_good(2) [of bts] ok_string
      by (cases x; cases "fst x") (auto simp: good_read_def)
  qed
  have int: "good_read bts (Inr (case benc_get_int bts of (Inl e, bts) \<Rightarrow> (Inl e, bts)
      | (Inr i, bts) \<Rightarrow> (Inr (BT_INTEGER i), bts)))"
    using benc_get_int_good [of bts] ok_integer
    by (cases "benc_get_int bts"; cases "fst (benc_get_int bts)") (auto simp: good_read_def)
  show ?case using 1 str int by (subst benc_get_object.simps) (auto simp: Let_def)
next
  case (2 bts)
  obtain res buf b' where r: "bts_read bts 1 = (res, buf, b')" by (metis prod_cases3)
  show ?case
  proof (cases "res = 0 \<and> hd buf = 108")
    case True
    then have "good_read b' (get_list_loop b' [])" using 2 [OF r [symmetric] refl] by simp
    then show ?thesis using True r bts_read_shrinksD [OF r] good_read_mono [of b' _ bts]
      by (subst benc_get_list.simps) simp
  qed (use r in \<open>subst benc_get_list.simps, auto\<close>)
next
  case (3 bts a)
  show ?case
  proof
    assume a: "\<forall>x \<in> set a. obj_ok x \<and> obj_readable x"
    show "good_read bts (get_list_loop bts a)"
    proof (cases "bts_peek bts \<noteq> 101")
      case True
      show ?thesis
        unfolding get_list_loop.simps [of bts a] if_P [OF True]
      proof (rule good_read_bind_object [OF 3(1) [OF True]], goal_cases)
        case (1 ob b')
        then show ?case
          using 3(2) [OF True 1(1) refl refl 1(2)] a good_read_mono [of b' _ bts] by (simp add: btList_add_def)
      qed
    next
      case False
      have "obj_ok (BT_LIST a)" "obj_readable (BT_LIST a)" using a by simp_all
      then show ?thesis using False by (subst get_list_loop.simps) (simp add: get_close_good)
    qed
  qed
next
  case (4 bts)
  obtain res buf b' where r: "bts_read bts 1 = (res, buf, b')" by (metis prod_cases3)
  show ?case
  proof (cases "res = 0 \<and> hd buf = 100")
    case True
    then have "good_read b' (get_dict_loop b' [])" using 4 [OF r [symmetric] refl]
      by (simp add: dict_sorted_def)
    then show ?thesis using True r bts_read_shrinksD [OF r] good_read_mono [of b' _ bts]
      by (subst benc_get_dict.simps) simp
  qed (use r in \<open>subst benc_get_dict.simps, auto\<close>)
next
  case (5 bts d)
  show ?case
  proof
    assume d: "dict_sorted d \<and> (\<forall>e \<in> set d. str_readable (fst e) \<and> obj_ok (snd e) \<and> obj_readable (snd e))"
    show "good_read bts (get_dict_loop bts d)"
    proof (cases "bts_peek bts \<noteq> 101")
      case False
      have "obj_ok (BT_DICT d)" using d by (intro obj_ok.ok_dict) blast+
      moreover have "obj_readable (BT_DICT d)" using d by simp
      moreover note False
      ultimately
      show ?thesis by (subst get_dict_loop.simps) (simp add: get_close_good)
    next
      case True
      show ?thesis
        unfolding get_dict_loop.simps [of bts d] if_P [OF True]
      proof (rule good_read_bind_string, rule good_read_bind_object, goal_cases)
        case (1 k b1)
        then show ?case using 5(1) [OF True 1(1) refl refl] by simp
      next
        case (2 k b1 ob b2)
        obtain res a' where add: "btDict_add (k, ob) d k ob = (res, a')" by (metis prod.exhaust)
        have lt: "length (bts_avail b2) < length (bts_avail bts)" using 2(2,5) by simp
        show ?case
        proof (cases "res = 0")
          case z: True
          have a': "dict_sorted a'" "set a' \<subseteq> insert (k, ob) (set d)"
            using btDict_add_keeps [of d "(k, ob)" k ob a'] d add z by auto
          have "good_read b2 (get_dict_loop b2 a')"
            using 5(2) [OF True 2(1) refl refl 2(4) refl refl add [symmetric] _ lt] z a' d 2(3,6,7)
            by fastforce
          then show ?thesis using add z lt good_read_mono [of b2 _ bts] by simp
        qed (simp add: add)
      qed
    qed
  qed
qed

section \<open>The reader inverts the bencoding\<close>

lemma dec_nat_set: "set (dec_nat n) \<subseteq> set (ascii ''0123456789'')"
  using dec_nat_digits by blast

lemma digit_not_break:
  assumes "is_digit d"
  shows "\<not> strchr (ascii '':'') d" "\<not> strchr (ascii ''e'') d"
  using digit_facts [OF assms] by (simp_all add: strchr_def ascii_def)

lemma scan_dec_nat:
  assumes "bts_avail bts = dec_nat n @ b # r" and "length (dec_nat n) < room"
    and "b = 58 \<and> brk = ascii '':'' \<or> b = 101 \<and> brk = ascii ''e''"
  shows "\<exists>bts'. bts_scanbreak bts (ascii ''0123456789'') brk room = (0, dec_nat n, bts') \<and> bts_avail bts' = r"
proof (rule bts_scanbreak_found [OF assms(1,2)])
  show "strchr brk b" using assms(3) by (auto simp: strchr_def ascii_def)
  show "\<forall>d \<in> set (dec_nat n). d \<in> set (ascii ''0123456789'') \<and> \<not> strchr brk d"
    using dec_nat_digits [of _ n] digit_not_break assms(3) by blast
qed

lemma get_string_back:
  assumes "bts_avail bts = benc_string s @ r" and "str_readable s"
  shows "\<exists>bts'. benc_get_string bts = Inr (Inr s, bts') \<and> bts_avail bts' = r"
proof -
  have "length (dec_nat (length s)) < 10"
    using length_dec_nat [of "length s" 9] assms(2) by (simp add: str_readable_def)
  moreover have "bts_avail bts = dec_nat (length s) @ 58 # s @ r"
    using assms(1) by (simp add: benc_string_def ascii_def)
  ultimately obtain b1 where b1: "bts_scanbreak bts (ascii ''0123456789'') (ascii '':'') 10 = (0, dec_nat (length s), b1)"
    "bts_avail b1 = s @ r" using scan_dec_nat [of bts "length s" 58 "s @ r" 10 "ascii '':''"] by auto
  show ?thesis
  proof (cases "s = []")
    case True
    then show ?thesis using b1 by (simp add: benc_get_string_def)
  next
    case False
    obtain b2 where "bts_read b1 (int (length s)) = (0, s, b2)" "bts_avail b2 = r"
      using bts_in.rd_front [OF b1(2) False] by auto
    then show ?thesis using b1 False assms(2) by (simp add: benc_get_string_def str_readable_def)
  qed
qed

lemma get_int_back:
  assumes "bts_avail bts = bencode (BT_INTEGER i) @ r" and "0 \<le> i" and "i < 9223372036854775808"
  shows "\<exists>bts'. benc_get_int bts = (Inr i, bts') \<and> bts_avail bts' = r"
proof -
  have "bts_avail bts = 105 # dec_nat (nat i) @ 101 # r"
    using assms(1,2) by (simp add: dec_int_def ascii_def)
  then obtain b1 where b1: "bts_read bts 1 = (0, [105], b1)" "bts_avail b1 = dec_nat (nat i) @ 101 # r"
    using bts_in.rd_one [of bts 105] by auto
  have "nat i < 10 ^ 19" using assms(3) by simp
  then have "length (dec_nat (nat i)) < 25" using length_dec_nat [of "nat i" 19] by simp
  then obtain b2 where "bts_scanbreak b1 (ascii ''0123456789'') (ascii ''e'') 25 = (0, dec_nat (nat i), b2)"
    "bts_avail b2 = r" using scan_dec_nat [OF b1(2), of 25 "ascii ''e''"] by auto
  then show ?thesis using b1 assms(2,3) by (simp add: benc_get_int_def strtoll_def)
qed

text \<open>\<open>reads_back ob\<close>: behind any stream that goes on with the encoding of \<open>ob\<close>, the reader finds it.\<close>

definition reads_back :: "btObject \<Rightarrow> bool" where
  "reads_back ob \<longleftrightarrow> (\<forall>bts r. bts_avail bts = bencode ob @ r \<longrightarrow>
     (\<exists>bts'. benc_get_object bts = Inr (Inr ob, bts') \<and> bts_avail bts' = r))"

lemma reads_backD:
  assumes "reads_back ob" and "bts_avail bts = bencode ob @ r"
  obtains bts' where "benc_get_object bts = Inr (Inr ob, bts')" "bts_avail bts' = r"
  using assms by (auto simp: reads_back_def)

lemma bencode_head: "\<exists>c cs. bencode ob = c # cs \<and> c \<noteq> 101"
proof (cases ob)
  case (BT_STRING s)
  obtain d ds where d: "dec_nat (length s) = d # ds" using dec_nat_Cons by blast
  then have "d \<noteq> 101" using dec_nat_digits [of d "length s"] digit_facts(7) [of d] by auto
  then show ?thesis using BT_STRING d by (simp add: benc_string_def)
qed (simp_all add: ascii_def)

lemma get_close_back:
  "bts_avail bts = 101 # r \<Longrightarrow> \<exists>bts'. get_close bts ob = (Inr ob, bts') \<and> bts_avail bts' = r"
  using bts_in.rd_one [of bts 101 r] by (auto simp: get_close_def)

lemma list_loop_back:
  assumes "\<forall>x \<in> set l. reads_back x" and "bts_avail bts = concat (map bencode l) @ 101 # r"
  shows "\<exists>bts'. get_list_loop bts a = Inr (Inr (BT_LIST (a @ l)), bts') \<and> bts_avail bts' = r"
  using assms
proof (induction l arbitrary: bts a)
  case Nil
  then show ?case using bts_in.pk_Cons [of bts 101 r] get_close_back [of bts r]
    by (subst get_list_loop.simps) auto
next
  case (Cons x l)
  obtain c cs where c: "bencode x = c # cs" "c \<noteq> 101" using bencode_head by blast
  have pk: "bts_peek bts \<noteq> 101"
    using bts_in.pk_Cons [of bts c "cs @ concat (map bencode l) @ 101 # r"] Cons.prems(2) c
    by (simp add: word_uint_eq_iff)
  obtain b1 where b1: "benc_get_object bts = Inr (Inr x, b1)" "bts_avail b1 = concat (map bencode l) @ 101 # r"
    using Cons.prems by (auto elim: reads_backD [of x bts])
  then have "length (bts_avail b1) < length (bts_avail bts)" using Cons.prems(2) c(1) by simp
  then show ?case using Cons.IH [of b1 "a @ [x]"] Cons.prems(1) b1 pk
    by (subst get_list_loop.simps) (simp add: btList_add_def)
qed

lemma dict_add_last:
  assumes "dict_sorted (a @ [(k, v)])"
  shows "btDict_add junk a k v = (0, a @ [(k, v)])"
proof -
  have a: "dict_sorted a" and less: "\<forall>e \<in> set a. btKey (fst e) < btKey k"
    using assms by (auto simp: dict_sorted_def sorted_wrt_append)
  then have less_nth: "btKey (fst (a ! i)) < btKey k" if "i < length a" for i using that by simp
  have ipos: "case dict_ipos a k 0 (length a) (length a) of
      None \<Rightarrow> \<exists>i < length a. btKey (fst (a ! i)) = btKey k
    | Some p \<Rightarrow> p \<le> length a \<and> bracket a k p p"
    by (rule dict_ipos_result [OF a bracket_whole refl le0])
  then obtain p where p: "dict_ipos a k 0 (length a) (length a) = Some p" "p \<le> length a" "bracket a k p p"
    using less_nth by (fastforce split: option.splits)
  then have "p = length a"
    using less_nth [of p] by (cases "p = length a") (auto simp: bracket_def)
  then show ?thesis using p(1) by (simp add: btDict_add_def)
qed

lemma dict_loop_back:
  assumes "\<forall>e \<in> set d. str_readable (fst e) \<and> reads_back (snd e)" and "dict_sorted (a @ d)"
    and "bts_avail bts = concat (map (\<lambda>e. benc_string (fst e) @ bencode (snd e)) d) @ 101 # r"
  shows "\<exists>bts'. get_dict_loop bts a = Inr (Inr (BT_DICT (a @ d)), bts') \<and> bts_avail bts' = r"
  using assms
proof (induction d arbitrary: bts a)
  case Nil
  then show ?case using bts_in.pk_Cons [of bts 101 r] get_close_back [of bts r]
    by (subst get_dict_loop.simps) auto
next
  case (Cons e d)
  let ?rest = "concat (map (\<lambda>e. benc_string (fst e) @ bencode (snd e)) d) @ 101 # r"
  obtain c cs where c: "bencode (BT_STRING (fst e)) = c # cs" "c \<noteq> 101" using bencode_head by blast
  have pk: "bts_peek bts \<noteq> 101"
    using bts_in.pk_Cons [of bts c "cs @ bencode (snd e) @ ?rest"] Cons.prems(3) c
    by (simp add: word_uint_eq_iff)
  obtain b1 where b1: "benc_get_string bts = Inr (Inr (fst e), b1)" "bts_avail b1 = bencode (snd e) @ ?rest"
    using get_string_back [of bts "fst e" "bencode (snd e) @ ?rest"] Cons.prems(1,3) by auto
  obtain b2 where b2: "benc_get_object b1 = Inr (Inr (snd e), b2)" "bts_avail b2 = ?rest"
    using Cons.prems(1) b1(2) by (auto elim: reads_backD [of "snd e" b1])
  have lt: "length (bts_avail b2) < length (bts_avail bts)" using b2(2) Cons.prems(3) c(1) by simp
  have "dict_sorted (a @ [e])" using Cons.prems(2) by (auto simp: dict_sorted_def sorted_wrt_append)
  then have "btDict_add (fst e, snd e) a (fst e) (snd e) = (0, a @ [e])"
    using dict_add_last [of a "fst e" "snd e"] by simp
  then show ?case using Cons.IH [of "a @ [e]" b2] Cons.prems(1,2) b1(1) b2 pk lt
    by (subst get_dict_loop.simps) simp
qed

lemma reads_back_all: "obj_ok ob \<Longrightarrow> obj_readable ob \<Longrightarrow> reads_back ob"
proof (induction rule: obj_ok.induct)
  case (ok_string s)
  show ?case unfolding reads_back_def
  proof (intro allI impI)
    fix bts r assume av: "bts_avail bts = bencode (BT_STRING s) @ r"
    obtain d ds where d: "dec_nat (length s) = d # ds" using dec_nat_Cons by blast
    then have "48 \<le> uint d \<and> uint d \<le> 57" using dec_nat_digits [of d "length s"]
      by (simp add: is_digit_def word_le_def)
    moreover have "bts_peek bts = uint d"
      using bts_in.pk_Cons [of bts d] av d by (simp add: benc_string_def)
    ultimately show "\<exists>bts'. benc_get_object bts = Inr (Inr (BT_STRING s), bts') \<and> bts_avail bts' = r"
      using get_string_back [of bts s r] av ok_string by (subst benc_get_object.simps) (auto simp: Let_def)
  qed
next
  case (ok_integer i)
  then show ?case using get_int_back [of _ i]
    by (fastforce simp: reads_back_def benc_get_object.simps ascii_def Let_def bts_in.pk_Cons)
next
  case (ok_list l)
  show ?case unfolding reads_back_def
  proof (intro allI impI)
    fix bts r assume "bts_avail bts = bencode (BT_LIST l) @ r"
    then have av: "bts_avail bts = 108 # concat (map bencode l) @ 101 # r" by (simp add: ascii_def)
    then obtain b1 where "bts_read bts 1 = (0, [108], b1)" "bts_avail b1 = concat (map bencode l) @ 101 # r"
      using bts_in.rd_one [of bts 108] by auto
    then show "\<exists>bts'. benc_get_object bts = Inr (Inr (BT_LIST l), bts') \<and> bts_avail bts' = r"
      using list_loop_back [of l b1 r "[]"] ok_list bts_in.pk_Cons [OF av]
      by (simp add: benc_get_object.simps benc_get_list.simps Let_def)
  qed
next
  case (ok_dict d)
  show ?case unfolding reads_back_def
  proof (intro allI impI)
    fix bts r assume "bts_avail bts = bencode (BT_DICT d) @ r"
    then have av: "bts_avail bts =
        100 # concat (map (\<lambda>e. benc_string (fst e) @ bencode (snd e)) d) @ 101 # r" by (simp add: ascii_def)
    then obtain b1 where b1: "bts_read bts 1 = (0, [100], b1)"
      "bts_avail b1 = concat (map (\<lambda>e. benc_string (fst e) @ bencode (snd e)) d) @ 101 # r"
      using bts_in.rd_one [of bts 100] by auto
    have "\<exists>bts'. get_dict_loop b1 [] = Inr (Inr (BT_DICT ([] @ d)), bts') \<and> bts_avail bts' = r"
      using ok_dict b1(2) by (intro dict_loop_back) simp_all
    then show "\<exists>bts'. benc_get_object bts = Inr (Inr (BT_DICT d), bts') \<and> bts_avail bts' = r"
      using b1(1) bts_in.pk_Cons [OF av]
      by (simp add: benc_get_object.simps benc_get_dict.simps Let_def)
  qed
qed

section \<open>What the bencoder promises\<close>

text \<open>Writing keeps the kind of stream.\<close>

fun bts_in_memory :: "btStream \<Rightarrow> bool" where
  "bts_in_memory (BTSTRSTREAM _) = True"
| "bts_in_memory (BTFILESTREAM _) = False"

lemma bts_write_kind: "bts_write s b n = Inr (r, s') \<Longrightarrow> bts_in_memory s' = bts_in_memory s"
  by (cases s) (auto simp: bts_write_def die_unless_def Let_def split: if_splits option.splits prod.splits)

lemma bts_printf_kind: "bts_printf s out = Inr (r, s') \<Longrightarrow> bts_in_memory s' = bts_in_memory s"
  by (auto simp: bts_printf_def die_unless_def dest: bts_write_kind split: if_splits)

lemma put_string_kind: "benc_put_string s k = Inr (r, s') \<Longrightarrow> bts_in_memory s' = bts_in_memory s"
  by (auto simp: benc_put_string_def bindR_Inr_iff dest!: bts_printf_kind bts_write_kind)

lemma put_kind:
  "benc_put_object b ob = Inr (r, b') \<Longrightarrow> bts_in_memory b' = bts_in_memory b"
  "put_items b1 l = Inr (r, b') \<Longrightarrow> bts_in_memory b' = bts_in_memory b1"
  "put_entries b2 d it = Inr (r, b') \<Longrightarrow> bts_in_memory b' = bts_in_memory b2"
proof (induction b ob and b1 l and b2 d it arbitrary: r b' and r b' and r b'
    rule: benc_put_object_put_items_put_entries.induct)
  case (3 bts l)
  then show ?case using 3(1) [OF _ refl] by (clarsimp simp: bindR_Inr_iff) (metis bts_printf_kind)
next
  case (4 bts d)
  then show ?case using 4(1) [OF _ refl]
    by (clarsimp simp: bindR_Inr_iff split: if_splits) (metis bts_printf_kind)+
next
  case (6 bts x xs)
  then show ?case using 6(2) [OF _ refl] by (clarsimp simp: bindR_Inr_iff)
next
  case (8 bts d idx k)
  then show ?case using 8(1) [OF refl _ refl] 8(2) [OF refl _ refl _ _ _ refl]
    by (clarsimp simp: bindR_Inr_iff Let_def split: if_splits option.splits) (metis put_string_kind)+
qed (auto simp: benc_put_int_def dest: bts_printf_kind put_string_kind)

lemma strstream_created: "bts_open_out (bts_create_strstream BTS_OUTPUT)"
  "bts_written (bts_create_strstream BTS_OUTPUT) = []" "bts_in_memory (bts_create_strstream BTS_OUTPUT)"
  by (simp_all add: bts_create_strstream_def)

lemma rewind_to_read:
  "bts_in_memory s \<Longrightarrow> \<exists>s'. bts_rewind s BTS_INPUT = (0, s') \<and> bts_avail s' = bts_written s"
  by (cases s) (auto simp: Let_def)

text \<open>
  C10. On every stream open for output, \<open>benc_put_object\<close> succeeds and appends the bencoding of
  the object: length-prefixed strings, \<open>i\<close>-\<open>e\<close> integers, lists in order, and dictionaries with
  their keys in the order of \<open>btString_cmp\<close>.
\<close>

theorem benc_put_object_encodes:
  assumes "obj_ok ob" and "obj_fits ob" and "bts_open_out bts"
  shows "\<exists>bts'. benc_put_object bts ob = Inr (0, bts') \<and> bts_written bts' = bts_written bts @ bencode ob"
  using puts_object [OF assms(1,2)] assms(3) by (auto elim: putsD)

lemma demo_dict_fits: "obj_fits (BT_DICT demo_dict)" "obj_readable (BT_DICT demo_dict)"
  by (auto simp: demo_dict_def str_fits_def str_readable_def)

theorem benc_put_object_encodes_witness:
  "\<exists>bts'. benc_put_object (bts_create_strstream BTS_OUTPUT) (BT_DICT demo_dict) = Inr (0, bts') \<and>
     bts_written bts' = ascii ''d8:announce1:'' @ [1] @ ascii ''4:infod4:name2:'' @ [2, 3] @ ascii ''ee''"
proof -
  have "bencode (BT_DICT demo_dict) =
      ascii ''d8:announce1:'' @ [1] @ ascii ''4:infod4:name2:'' @ [2, 3] @ ascii ''ee''"
    by code_simp
  then show ?thesis
    using benc_put_object_encodes [OF demo_dict_ok(1) demo_dict_fits(1) strstream_created(1)]
    by (simp add: strstream_created)
qed

text \<open>
  C11. Round trip: an object written to a memory stream and read back after a rewind is the same
  object, and nothing is left over, provided its strings are shorter than 8 MiB, its integers
  are not negative and its dictionaries are sorted.
\<close>

theorem benc_round_trip:
  assumes "obj_ok ob" and "obj_readable ob" and "obj_fits ob"
  shows "\<exists>s1 s2 s3. benc_put_object (bts_create_strstream BTS_OUTPUT) ob = Inr (0, s1) \<and>
    bts_rewind s1 BTS_INPUT = (0, s2) \<and> benc_get_object s2 = Inr (Inr ob, s3) \<and> bts_avail s3 = []"
proof -
  from puts_object [OF assms(1,3)] strstream_created(1) obtain s1
    where s1: "benc_put_object (bts_create_strstream BTS_OUTPUT) ob = Inr (0, s1)"
      "bts_written s1 = bts_written (bts_create_strstream BTS_OUTPUT) @ bencode ob" by (rule putsD)
  then have "bts_in_memory s1" using put_kind(1) strstream_created(3) by blast
  then obtain s2 where s2: "bts_rewind s1 BTS_INPUT = (0, s2)" "bts_avail s2 = bencode ob @ []"
    using rewind_to_read [of s1] s1(2) strstream_created(2) by auto
  from reads_back_all [OF assms(1,2)] s2(2) obtain s3
    where "benc_get_object s2 = Inr (Inr ob, s3)" "bts_avail s3 = []" by (rule reads_backD)
  with s1 s2 show ?thesis by blast
qed

theorem benc_round_trip_witness:
  "\<exists>s1 s2 s3. benc_put_object (bts_create_strstream BTS_OUTPUT) (BT_DICT demo_dict) = Inr (0, s1) \<and>
    bts_rewind s1 BTS_INPUT = (0, s2) \<and> benc_get_object s2 = Inr (Inr (BT_DICT demo_dict), s3)"
  using benc_round_trip [OF demo_dict_ok(1) demo_dict_fits(2,1)] by blast

text \<open>
  C12. Whatever bytes a stream holds, \<open>benc_get_object\<close> returns: it never reads outside an
  object or dereferences \<open>NULL\<close>, and what it returns as an object has used up input, has its
  dictionaries sorted and its numbers in range.
\<close>

theorem benc_get_object_safe:
  "benc_get_object bts \<noteq> Inl Oob \<and>
   (\<forall>ob bts'. benc_get_object bts = Inr (Inr ob, bts') \<longrightarrow>
      length (bts_avail bts') < length (bts_avail bts) \<and> obj_ok ob \<and> obj_readable ob)"
  using get_all_good(1) [of bts] by (simp add: good_read_def)

definition mem_stream :: "byte list \<Rightarrow> btStream" where
  "mem_stream bs = BTSTRSTREAM \<lparr>ss_iodir = BTS_INPUT, ss_cur = 0, ss_buf = bs, ss_max = length bs\<rparr>"

lemma avail_mem_stream [simp]: "bts_avail (mem_stream bs) = bs"
  by (simp add: mem_stream_def)

theorem benc_get_object_safe_witness:
  "\<exists>s. benc_get_object (mem_stream (ascii ''i42e0'')) = Inr (Inr (BT_INTEGER 42), s) \<and> length (bts_avail s) < 5"
proof -
  have "bts_avail (mem_stream (ascii ''i42e0'')) = bencode (BT_INTEGER 42) @ ascii ''0''"
    unfolding avail_mem_stream by code_simp
  with reads_back_all [OF ok_integer] obtain s
    where "benc_get_object (mem_stream (ascii ''i42e0'')) = Inr (Inr (BT_INTEGER 42), s)"
    by (rule reads_backD) simp_all
  then show ?thesis
    using benc_get_object_safe [of "mem_stream (ascii ''i42e0'')"] by (auto simp: ascii_def)
qed




section \<open>Dictionaries in any order, refused numbers, oversized strings\<close>

lemma dict_put_add:
  "dict_put a k v = Some a' \<Longrightarrow> btDict_add (k, v) a k v = (0, a')"
  by (auto simp: dict_put_def split: prod.splits if_splits)

lemma dict_loop_any_order:
  assumes "\<forall>e \<in> set es. str_readable (fst e) \<and> reads_back (snd e)" and "dict.ins_all es a = Some d"
    and "bts_avail bts = concat (map (\<lambda>e. benc_string (fst e) @ bencode (snd e)) es) @ 101 # r"
  shows "\<exists>bts'. get_dict_loop bts a = Inr (Inr (BT_DICT d), bts') \<and> bts_avail bts' = r"
  using assms
proof (induction es arbitrary: bts a)
  case Nil
  then show ?case using bts_in.pk_Cons [of bts 101 r] get_close_back [of bts r]
    by (subst get_dict_loop.simps) auto
next
  case (Cons e es)
  let ?rest = "concat (map (\<lambda>e. benc_string (fst e) @ bencode (snd e)) es) @ 101 # r"
  obtain a1 where a1: "dict_put a (fst e) (snd e) = Some a1" "dict.ins_all es a1 = Some d"
    using Cons.prems(2) by (auto split: option.splits)
  obtain c cs where c: "bencode (BT_STRING (fst e)) = c # cs" "c \<noteq> 101" using bencode_head by blast
  have pk: "bts_peek bts \<noteq> 101"
    using bts_in.pk_Cons [of bts c "cs @ bencode (snd e) @ ?rest"] Cons.prems(3) c
    by (simp add: word_uint_eq_iff)
  obtain b1 where b1: "benc_get_string bts = Inr (Inr (fst e), b1)" "bts_avail b1 = bencode (snd e) @ ?rest"
    using get_string_back [of bts "fst e" "bencode (snd e) @ ?rest"] Cons.prems(1,3) by auto
  obtain b2 where b2: "benc_get_object b1 = Inr (Inr (snd e), b2)" "bts_avail b2 = ?rest"
    using Cons.prems(1) b1(2) by (auto elim: reads_backD [of "snd e" b1])
  have lt: "length (bts_avail b2) < length (bts_avail bts)" using b2(2) Cons.prems(3) c(1) by simp
  show ?case using Cons.IH [OF _ a1(2) b2(2)] Cons.prems(1) b1(1) b2(1) pk lt dict_put_add [OF a1(1)]
    by (subst get_dict_loop.simps) simp
qed

text \<open>
  A dictionary whose keys arrive in any order, no two of them alike, is read into a sorted
  dictionary that holds exactly what was sent under each key.
\<close>

theorem benc_get_dict_any_order:
  assumes "distinct (map (btKey \<circ> fst) es)"
    and "\<forall>e \<in> set es. str_readable (fst e) \<and> obj_ok (snd e) \<and> obj_readable (snd e)"
    and "bts_avail bts =
      ascii ''d'' @ concat (map (\<lambda>e. benc_string (fst e) @ bencode (snd e)) es) @ ascii ''e'' @ r"
  shows "\<exists>d bts'. benc_get_object bts = Inr (Inr (BT_DICT d), bts') \<and> bts_avail bts' = r \<and>
    dict_sorted d \<and> (\<forall>e \<in> set es. btDict_find d (fst e) = Some (snd e))"
proof -
  have "dict_sorted []" "\<forall>e \<in> set es. btDict_find [] (fst e) = None"
    by (simp_all add: dict_sorted_def btDict_find_def dict_search.simps)
  from dict.ins_all_ok [OF this(1) assms(1) this(2)] obtain d where d: "dict.ins_all es [] = Some d"
    "dict_sorted d" "\<forall>e \<in> set es. btDict_find d (fst e) = Some (snd e)" by blast
  have av: "bts_avail bts = 100 # concat (map (\<lambda>e. benc_string (fst e) @ bencode (snd e)) es) @ 101 # r"
    using assms(3) by (simp add: ascii_def)
  then obtain b1 where b1: "bts_read bts 1 = (0, [100], b1)"
    "bts_avail b1 = concat (map (\<lambda>e. benc_string (fst e) @ bencode (snd e)) es) @ 101 # r"
    using bts_in.rd_one [of bts 100] by auto
  have "\<forall>e \<in> set es. str_readable (fst e) \<and> reads_back (snd e)" using assms(2) reads_back_all by blast
  from dict_loop_any_order [OF this d(1) b1(2)] d(2,3) b1(1) bts_in.pk_Cons [OF av] show ?thesis
    by (auto simp: benc_get_object.simps benc_get_dict.simps Let_def)
qed

theorem benc_get_dict_any_order_witness:
  "\<exists>d s. benc_get_object (mem_stream (ascii ''d1:bi2e1:ai1ee'')) = Inr (Inr (BT_DICT d), s) \<and>
     btDict_find d (ascii ''a'') = Some (BT_INTEGER 1) \<and> btDict_find d (ascii ''b'') = Some (BT_INTEGER 2)"
proof -
  let ?es = "[(ascii ''b'', BT_INTEGER 2), (ascii ''a'', BT_INTEGER 1)]"
  have e1: "distinct (map (btKey \<circ> fst) ?es)" by code_simp
  have e2: "\<forall>e \<in> set ?es. str_readable (fst e) \<and> obj_ok (snd e) \<and> obj_readable (snd e)"
    by (auto simp: str_readable_def ascii_def)
  have e3: "bts_avail (mem_stream (ascii ''d1:bi2e1:ai1ee'')) =
      ascii ''d'' @ concat (map (\<lambda>e. benc_string (fst e) @ bencode (snd e)) ?es) @ ascii ''e'' @ []"
    unfolding avail_mem_stream by code_simp
  show ?thesis using benc_get_dict_any_order [OF e1 e2 e3] by auto
qed

text \<open>
  \<open>benc_put_object\<close> writes negative integers, and \<open>benc_get_object\<close> refuses them: the sign is
  not among the characters \<open>benc_get_int\<close> allows.
\<close>

theorem benc_negative_refused:
  assumes "i < 0" and "bts_avail bts = bencode (BT_INTEGER i) @ r"
  shows "\<exists>bts'. benc_get_object bts = Inr (Inl 1, bts')"
proof -
  have av: "bts_avail bts = 105 # 45 # dec_nat (nat (- i)) @ 101 # r"
    using assms by (simp add: dec_int_def ascii_def)
  then obtain b1 where b1: "bts_read bts 1 = (0, [105], b1)" "bts_avail b1 = 45 # dec_nat (nat (- i)) @ 101 # r"
    using bts_in.rd_one [of bts 105] by auto
  then obtain b2 where "bts_read b1 1 = (0, [45], b2)" using bts_in.rd_one [of b1 45] by auto
  moreover have "\<not> strchr (ascii ''e'') 45" "\<not> strchr (ascii ''0123456789'') 45"
    by (simp_all add: strchr_def ascii_def)
  moreover have "(25 :: nat) = Suc 24" by simp
  ultimately have "bts_scanbreak b1 (ascii ''0123456789'') (ascii ''e'') 25 = (1, [], b2)"
    unfolding bts_scanbreak_def by (simp only: scan_loop.simps prod.case) simp
  then show ?thesis using b1(1) bts_in.pk_Cons [OF av]
    by (simp add: benc_get_object.simps benc_get_int_def Let_def)
qed

theorem benc_negative_refused_witness:
  "\<exists>s. benc_get_object (mem_stream (ascii ''i-3e'')) = Inr (Inl 1, s)"
proof -
  have "bts_avail (mem_stream (ascii ''i-3e'')) = bencode (BT_INTEGER (- 3)) @ []"
    unfolding avail_mem_stream by code_simp
  from benc_negative_refused [OF _ this] show ?thesis by simp
qed

text \<open>
  A string header that announces 8 MiB or more, in up to nine digits, ends the process:
  \<open>assert(slen<MAXSTRING)\<close> runs on what a tracker or a torrent file sent.
\<close>

theorem benc_oversize_aborts:
  assumes "bts_avail bts = dec_nat n @ 58 # r" and "8 * 1024 * 1024 \<le> n" and "n < 10 ^ 9"
  shows "benc_get_object bts = Inl Abort"
proof -
  obtain d ds where d: "dec_nat n = d # ds" using dec_nat_Cons by blast
  then have "48 \<le> uint d \<and> uint d \<le> 57" using dec_nat_digits [of d n]
    by (simp add: is_digit_def word_le_def)
  moreover have "bts_peek bts = uint d" using bts_in.pk_Cons [of bts d] assms(1) d by simp
  moreover have "length (dec_nat n) < 10" using length_dec_nat [OF assms(3)] by simp
  then obtain b1 where "bts_scanbreak bts (ascii ''0123456789'') (ascii '':'') 10 = (0, dec_nat n, b1)"
    using scan_dec_nat [OF assms(1)] by blast
  then have "benc_get_string bts = Inl Abort" using assms(2) by (simp add: benc_get_string_def)
  ultimately show ?thesis by (subst benc_get_object.simps) (auto simp: Let_def)
qed

theorem benc_oversize_aborts_witness:
  "benc_get_object (mem_stream (ascii ''99999999:'')) = Inl Abort"
proof -
  have "bts_avail (mem_stream (ascii ''99999999:'')) = dec_nat 99999999 @ 58 # []"
    unfolding avail_mem_stream by (simp add: dec_nat.simps ascii_def)
  from benc_oversize_aborts [OF this] show ?thesis by simp
qed


end
