(* ===== verification/Bt_Segmenter.thy ===== *)
theory Bt_Segmenter
  imports Bt_Bitset Bt_Sha1
begin

text \<open>
  \<open>segmenter.c\<close>: the pieces of a torrent, the files they are laid out over, and the partial
  pieces that are being filled. The files of the disk are a map from paths to contents. The
  central result is that a piece is marked complete only when the bytes stored for it have the
  hash the torrent announces, and that storing one piece leaves the others as they were.
\<close>

section \<open>State\<close>

record btFile =
  bf_start :: int
  bf_len :: int
  bf_path :: "byte list"

record btPartialPiece =
  piecenumber :: int
  filled :: kBitSet
  nextbyteReq :: int
  isdone :: bool
  pp_buffer :: "byte list"

record btFileSet =
  tsize :: int
  ul :: int
  dl :: int
  left :: int
  completed :: kBitSet
  blocksize :: int
  fs_file :: "btFile list"
  npieces :: int
  hashes :: "byte list"
  partial :: "btPartialPiece list"

text \<open>The file system: contents by path, and whether a path can be created or opened for writing.\<close>

record disk =
  d_file :: "byte list \<Rightarrow> byte list option"
  d_writable :: "byte list \<Rightarrow> bool"

text \<open>\<open>write\<close> at a position behind the end fills the gap with zeros; writing nothing changes nothing.\<close>

definition file_write :: "byte list \<Rightarrow> nat \<Rightarrow> byte list \<Rightarrow> byte list" where
  "file_write c pos bs =
     (if bs = [] then c else blit (c @ replicate (pos + length bs - length c) 0) pos bs)"

definition openPath_create :: "disk \<Rightarrow> byte list \<Rightarrow> (byte list \<times> disk) option" where
  "openPath_create d path =
     (if d_writable d path then
        case d_file d path of
          Some c \<Rightarrow> Some (c, d)
        | None \<Rightarrow> Some ([], d\<lparr>d_file := (d_file d)(path \<mapsto> [])\<rparr>)
      else None)"

section \<open>Operations\<close>

definition seg_piecelen :: "btFileSet \<Rightarrow> int \<Rightarrow> fault + int" where
  "seg_piecelen fs piece =
     (if piece = npieces fs - 1 \<and> blocksize fs = 0 then Inl Oob
      else
        let modulus = c_mod (tsize fs) (blocksize fs);
            blocklen = (if piece = npieces fs - 1 \<and> modulus \<noteq> 0 then to_int32 modulus else blocksize fs)
        in die_unless (0 \<le> piece \<and> piece < npieces fs) (Inr blocklen))"

definition find_piece :: "btPartialPiece list \<Rightarrow> int \<Rightarrow> btPartialPiece option" where
  "find_piece ps piece = List.find (\<lambda>p. piecenumber p = piece) ps"

text \<open>A piece not yet in the list is appended, with a zeroed buffer.\<close>

definition seg_getPiece :: "btFileSet \<Rightarrow> int \<Rightarrow> fault + (btPartialPiece \<times> btFileSet)" where
  "seg_getPiece fs piece =
     die_unless (0 \<le> piece \<and> piece < npieces fs)
       (case find_piece (partial fs) piece of
          Some p \<Rightarrow> Inr (p, fs)
        | None \<Rightarrow>
            bindR (seg_piecelen fs piece) (\<lambda>len.
              let p = \<lparr>piecenumber = piece, filled = kBitSet_create (nat len), nextbyteReq = 0,
                       isdone = False, pp_buffer = replicate (nat len) 0\<rparr>
              in Inr (p, fs\<lparr>partial := partial fs @ [p]\<rparr>)))"

text \<open>Whether a file overlaps the \<open>len\<close> bytes from address \<open>addr\<close> on, as the loops test it.\<close>

definition touches :: "btFile \<Rightarrow> int \<Rightarrow> int \<Rightarrow> bool" where
  "touches f addr len \<longleftrightarrow> bf_start f + bf_len f \<ge> addr \<and> bf_start f < addr + len"

fun find_file :: "btFileSet \<Rightarrow> int \<Rightarrow> btFile list \<Rightarrow> fault + btFile" where
  "find_file fs piece [] = Inl Abort"
| "find_file fs piece (f # files) =
     bindR (seg_piecelen fs piece) (\<lambda>blocklen.
       if touches f (piece * blocksize fs) blocklen then Inr f else find_file fs piece files)"

definition seg_findFile :: "btFileSet \<Rightarrow> int \<Rightarrow> fault + btFile" where
  "seg_findFile fs piece = find_file fs piece (fs_file fs)"

definition is_substring :: "byte list \<Rightarrow> byte list \<Rightarrow> bool" where
  "is_substring pat s \<longleftrightarrow> (\<exists>k \<in> {..length s}. take (length pat) (drop k s) = pat)"

fun mark_files :: "btFileSet \<Rightarrow> btFile list \<Rightarrow> byte list \<Rightarrow> kBitSet \<Rightarrow> fault + kBitSet" where
  "mark_files fs [] filename interest = Inr interest"
| "mark_files fs (f # files) filename interest =
     (if blocksize fs = 0 then Inl Oob
      else
        let startblock = to_int32 (c_div (bf_start f) (blocksize fs));
            endblock = to_int32 (c_div (bf_start f + bf_len f - 1) (blocksize fs)) + 1
        in bindR (if is_substring filename (bf_path f)
                  then for_loop 0 (nat (endblock - startblock)) (\<lambda>i s. bs_set s (startblock + int i)) interest
                  else Inr interest)
             (\<lambda>interest. mark_files fs files filename interest))"

definition seg_markFile :: "btFileSet \<Rightarrow> byte list \<Rightarrow> kBitSet \<Rightarrow> fault + kBitSet" where
  "seg_markFile fs filename interest =
     bindR (for_loop 0 (nbits interest) (\<lambda>i s. bs_clr s (int i)) interest)
       (\<lambda>interest. mark_files fs (fs_file fs) filename interest)"

text \<open>
  The 20 bytes of the digest against those of the torrent. The stack frame of \<open>SHA1\<close> is taken
  to hold zeros; the digest does not depend on it.
\<close>

definition checkhash :: "btFileSet \<Rightarrow> int \<Rightarrow> byte list \<Rightarrow> fault + bool" where
  "checkhash fs piece buf =
     bindR (seg_piecelen fs piece) (\<lambda>len.
       if length buf < nat len \<or> piece < 0 \<or> length (hashes fs) < nat piece * 20 + 20 then Inl Oob
       else Inr (SHA1 (replicate 64 0) (take (nat len) buf) = take 20 (drop (nat piece * 20) (hashes fs))))"

definition btFileSet_create :: "btFileSet \<Rightarrow> nat \<Rightarrow> int \<Rightarrow> byte list \<Rightarrow> fault + btFileSet" where
  "btFileSet_create fs n bsize hashbuf =
     (if length hashbuf < n * 20 then Inl Oob
      else Inr (fs\<lparr>npieces := int n, blocksize := bsize, dl := 0, ul := 0,
                   hashes := take (n * 20) hashbuf, completed := kBitSet_create n\<rparr>))"

definition btFileSet_addfile :: "btFileSet \<Rightarrow> byte list \<Rightarrow> int \<Rightarrow> btFileSet" where
  "btFileSet_addfile fs path len =
     (let start = (if fs_file fs = [] then 0 else bf_start (last (fs_file fs)) + bf_len (last (fs_file fs)))
      in fs\<lparr>fs_file := fs_file fs @ [\<lparr>bf_start = start, bf_len = len, bf_path = path\<rparr>]\<rparr>)"

text \<open>One turn of the loop of \<open>seg_write\<close>; a failing system call ends the program (\<open>SYSDIE\<close>).\<close>

definition seg_write_file :: "btFileSet \<Rightarrow> btPartialPiece \<Rightarrow> btFile \<Rightarrow> disk \<Rightarrow> fault + disk" where
  "seg_write_file fs p f d =
     bindR (seg_piecelen fs (piecenumber p)) (\<lambda>blocklen.
       let addr = piecenumber p * blocksize fs in
       if \<not> touches f addr blocklen then Inr d
       else case openPath_create d (bf_path f) of
           None \<Rightarrow> Inl Abort
         | Some (c, d) \<Rightarrow>
             let beg = bf_start f - addr;
                 (fpos, beg) = (if beg < 0 then (- beg, 0) else (0, beg));
                 len = min (bf_len f - fpos) (blocklen - beg)
             in die_unless (len \<le> blocksize fs)
                  (if len < 0 then Inl Abort
                   else if length (pp_buffer p) < nat (beg + len) then Inl Oob
                   else Inr (d\<lparr>d_file := (d_file d)(bf_path f \<mapsto>
                     file_write c (nat fpos) (take (nat len) (drop (nat beg) (pp_buffer p))))\<rparr>)))"

fun seg_write_files :: "btFileSet \<Rightarrow> btPartialPiece \<Rightarrow> btFile list \<Rightarrow> disk \<Rightarrow> fault + disk" where
  "seg_write_files fs p [] d = Inr d"
| "seg_write_files fs p (f # files) d = bindR (seg_write_file fs p f d) (seg_write_files fs p files)"

definition seg_write :: "btFileSet \<Rightarrow> btPartialPiece \<Rightarrow> disk \<Rightarrow> fault + (btFileSet \<times> disk)" where
  "seg_write fs p d =
     bindR (seg_write_files fs p (fs_file fs) d) (\<lambda>d.
     bindR (bs_set (completed fs) (piecenumber p)) (\<lambda>c. Inr (fs\<lparr>completed := c\<rparr>, d)))"

text \<open>Taking a node out of the list and writing one back, both at the first one with the number.\<close>

fun remove_piece :: "int \<Rightarrow> btPartialPiece list \<Rightarrow> btPartialPiece list" where
  "remove_piece n [] = []"
| "remove_piece n (p # ps) = (if piecenumber p = n then ps else p # remove_piece n ps)"

fun update_piece :: "btPartialPiece \<Rightarrow> btPartialPiece list \<Rightarrow> btPartialPiece list" where
  "update_piece q [] = []"
| "update_piece q (p # ps) = (if piecenumber p = piecenumber q then q # ps else p # update_piece q ps)"

definition seg_writebuf ::
    "btFileSet \<Rightarrow> disk \<Rightarrow> int \<Rightarrow> int \<Rightarrow> byte list \<Rightarrow> int \<Rightarrow> fault + (int \<times> btFileSet \<times> disk)" where
  "seg_writebuf fs d piece offset buf len =
     (case find_piece (partial fs) piece of
        None \<Rightarrow> Inr (0, fs, d)
      | Some p \<Rightarrow>
          bindR (seg_piecelen fs piece) (\<lambda>bsize.
          die_unless (0 \<le> offset \<and> offset < bsize \<and> offset + len \<le> bsize \<and> 0 < len)
            (if length buf < nat len \<or> length (pp_buffer p) < nat (offset + len) then Inl Oob
             else
               bindR (bs_setRange (filled p) offset (offset + len)) (\<lambda>fl.
               let p = p\<lparr>pp_buffer := blit (pp_buffer p) (nat offset) (take (nat len) buf), filled := fl\<rparr> in
               bindR (if isdone p then Inr True else bs_isFull fl) (\<lambda>full.
                 if \<not> full then Inr (0, fs\<lparr>partial := update_piece p (partial fs)\<rparr>, d)
                 else
                   let p = p\<lparr>isdone := True\<rparr> in
                   bindR (checkhash fs piece (pp_buffer p)) (\<lambda>ok.
                     if \<not> ok then Inr (0, fs\<lparr>partial := update_piece p (partial fs)\<rparr>, d)
                     else
                       let fs = fs\<lparr>partial := remove_piece piece (partial fs),
                                   dl := dl fs + bsize, left := left fs - bsize\<rparr>
                       in bindR (seg_write fs p d) (\<lambda>(fs, d). Inr (1, fs, d)))))))) "

text \<open>
  One turn of the loop of \<open>seg_readbuf\<close>, which fills \<open>buf\<close> (\<open>len\<close> bytes, whatever they were) file by file; a result other than 0
  is an early return. A read at or behind the end of a file gives nothing.
\<close>

definition seg_read_file ::
    "btFileSet \<Rightarrow> disk \<Rightarrow> btFile \<Rightarrow> int \<Rightarrow> int \<Rightarrow> byte list \<Rightarrow> fault + (int \<times> byte list)" where
  "seg_read_file fs d f addr len buf =
     (if \<not> touches f addr len then Inr (0, buf)
      else case d_file d (bf_path f) of
          None \<Rightarrow> Inr (- 1, buf)
        | Some c \<Rightarrow>
            let fpos = addr - bf_start f;
                (fpos, beg) = (if fpos < 0 then (0, - fpos) else (fpos, 0));
                rlen = min (bf_len f - fpos) (len - beg)
            in die_unless (rlen \<le> blocksize fs)
                 (if rlen < 0 \<or> length buf < nat (beg + rlen) then Inl Oob
                  else
                    let bs = take (nat rlen) (drop (nat fpos) c)
                    in Inr (if length bs \<noteq> nat rlen then - 1 else 0, blit buf (nat beg) bs)))"

fun seg_read_files ::
    "btFileSet \<Rightarrow> disk \<Rightarrow> btFile list \<Rightarrow> int \<Rightarrow> int \<Rightarrow> byte list \<Rightarrow> fault + (int \<times> byte list)" where
  "seg_read_files fs d [] addr len buf = Inr (0, buf)"
| "seg_read_files fs d (f # files) addr len buf =
     bindR (seg_read_file fs d f addr len buf) (\<lambda>(res, buf).
       if res \<noteq> 0 then Inr (res, buf) else seg_read_files fs d files addr len buf)"

definition seg_readbuf ::
    "btFileSet \<Rightarrow> disk \<Rightarrow> int \<Rightarrow> int \<Rightarrow> byte list \<Rightarrow> int \<Rightarrow> fault + (int \<times> byte list)" where
  "seg_readbuf fs d piece start buf len =
     bindR (bs_isSet (completed fs) piece) (\<lambda>c.
       if \<not> c then Inr (- 1, buf)
       else seg_read_files fs d (fs_file fs) (piece * blocksize fs + start) len buf)"

text \<open>The buffer of \<open>seg_review\<close> comes from \<open>malloc\<close>; the model starts it with zeros.\<close>

definition seg_review :: "btFileSet \<Rightarrow> disk \<Rightarrow> int \<Rightarrow> fault + (int \<times> btFileSet)" where
  "seg_review fs d piece =
     bindR (seg_piecelen fs piece) (\<lambda>len.
     bindR (bs_set (completed fs) piece) (\<lambda>c.
     let fs1 = fs\<lparr>completed := c\<rparr> in
     bindR (seg_readbuf fs1 d piece 0 (replicate (nat len) 0) len) (\<lambda>(res, buf).
     bindR (if res \<noteq> 0 then Inr (- 1)
            else bindR (checkhash fs1 piece buf) (\<lambda>ok. Inr (if ok then 1 else 0))) (\<lambda>rs.
       if rs \<noteq> 1 then bindR (bs_clr c piece) (\<lambda>c. Inr (rs, fs1\<lparr>completed := c\<rparr>))
       else Inr (rs, fs1)))))"
section \<open>The layout: pieces over files\<close>

fun contig :: "int \<Rightarrow> btFile list \<Rightarrow> bool" where
  "contig a [] = True"
| "contig a (f # fs) = (bf_start f = a \<and> 0 \<le> bf_len f \<and> contig (a + bf_len f) fs)"

definition total_len :: "btFile list \<Rightarrow> int" where
  "total_len fs = sum_list (map bf_len fs)"

text \<open>
  The files follow one another without gaps, under different paths, and the pieces cover them:
  all but the last are full and the last is not empty.
\<close>

definition layout_ok :: "btFileSet \<Rightarrow> bool" where
  "layout_ok fs \<longleftrightarrow> 0 < blocksize fs \<and> blocksize fs < 2147483648 \<and>
     contig 0 (fs_file fs) \<and> distinct (map bf_path (fs_file fs)) \<and> tsize fs = total_len (fs_file fs) \<and>
     (npieces fs - 1) * blocksize fs < tsize fs \<and> tsize fs \<le> npieces fs * blocksize fs"

definition plen :: "btFileSet \<Rightarrow> int \<Rightarrow> int" where
  "plen fs piece = min (blocksize fs) (tsize fs - piece * blocksize fs)"

definition in_range :: "btFileSet \<Rightarrow> int \<Rightarrow> bool" where
  "in_range fs piece \<longleftrightarrow> 0 \<le> piece \<and> piece < npieces fs"

lemma plen_bounds:
  assumes "layout_ok fs" and "in_range fs piece"
  shows "0 < plen fs piece" "plen fs piece \<le> blocksize fs" "piece * blocksize fs + plen fs piece \<le> tsize fs"
    "0 \<le> piece * blocksize fs"
proof -
  have "piece * blocksize fs \<le> (npieces fs - 1) * blocksize fs"
    using assms by (intro mult_right_mono) (auto simp: in_range_def layout_ok_def)
  moreover have "(npieces fs - 1) * blocksize fs < tsize fs" "0 < blocksize fs"
    using assms(1) by (simp_all add: layout_ok_def)
  ultimately show "0 < plen fs piece" unfolding plen_def by linarith
  show "0 \<le> piece * blocksize fs" using assms by (simp add: in_range_def layout_ok_def)
qed (simp_all add: plen_def)

lemma seg_piecelen_ok:
  assumes "layout_ok fs" and "in_range fs piece"
  shows "seg_piecelen fs piece = Inr (plen fs piece)"
proof -
  let ?b = "blocksize fs" and ?t = "tsize fs"
  have b: "0 < ?b" "?b < 2147483648" and t: "(npieces fs - 1) * ?b < ?t" "?t \<le> npieces fs * ?b"
    using assms(1) by (simp_all add: layout_ok_def)
  have n: "0 \<le> piece" "piece < npieces fs" using assms(2) by (simp_all add: in_range_def)
  have "0 \<le> (npieces fs - 1) * ?b" using b n by simp
  then have "0 \<le> ?t" using t(1) by linarith
  then have md: "c_mod ?t ?b = ?t mod ?b" using b(1) by (rule c_mod_nonneg)
  have rng: "int32_range (?t mod ?b)"
    using b pos_mod_bound [OF b(1), of ?t] pos_mod_sign [OF b(1), of ?t]
    unfolding int32_range_def by linarith
  show ?thesis
  proof (cases "piece = npieces fs - 1")
    case False
    then have "(piece + 1) * ?b \<le> (npieces fs - 1) * ?b" using n b(1) by (intro mult_right_mono) auto
    then have "?b \<le> ?t - piece * ?b" using t(1) by (simp add: algebra_simps)
    then show ?thesis using False n by (simp add: seg_piecelen_def plen_def Let_def)
  next
    case True
    define r where "r = ?t - piece * ?b"
    have "npieces fs = piece + 1" using True by simp
    then have "npieces fs * ?b = piece * ?b + ?b" by (simp only: distrib_right mult_1_left)
    then have r: "0 < r" "r \<le> ?b" using t True by (simp_all add: r_def)
    have "?t mod ?b = r mod ?b" by (simp add: r_def mod_diff_right_eq [symmetric])
    also have "\<dots> = (if r = ?b then 0 else r)" using r by auto
    finally have "(if ?t mod ?b \<noteq> 0 then ?t mod ?b else ?b) = r" using r by auto
    moreover have "plen fs piece = r" using r by (simp add: plen_def r_def)
    ultimately show ?thesis using True n b(1) md rng
      by (auto simp: seg_piecelen_def Let_def split: if_splits)
  qed
qed

lemma seg_piecelen_range: "\<not> in_range fs piece \<Longrightarrow> seg_piecelen fs piece = Inr x \<Longrightarrow> False"
  by (auto simp: seg_piecelen_def in_range_def Let_def split: if_splits)

lemma total_len_nonneg: "contig a fs \<Longrightarrow> 0 \<le> total_len fs"
  by (induction fs arbitrary: a) (auto simp: total_len_def intro!: add_nonneg_nonneg)

lemma contig_start: "contig a fs \<Longrightarrow> f \<in> set fs \<Longrightarrow> a \<le> bf_start f \<and> 0 \<le> bf_len f \<and>
    bf_start f + bf_len f \<le> a + total_len fs"
proof (induction fs arbitrary: a)
  case (Cons g fs)
  have "0 \<le> total_len fs" using Cons.prems(1) total_len_nonneg [of "a + bf_len g" fs] by simp
  then show ?case using Cons by (fastforce simp: total_len_def)
qed simp

lemma contig_append: "contig a (fs @ gs) \<longleftrightarrow> contig a fs \<and> contig (a + total_len fs) gs"
  by (induction fs arbitrary: a) (auto simp: total_len_def add.assoc)

text \<open>Every address of the layout lies in exactly one file.\<close>

definition covers :: "btFile \<Rightarrow> int \<Rightarrow> bool" where
  "covers f a \<longleftrightarrow> bf_start f \<le> a \<and> a < bf_start f + bf_len f"

lemma covers_ex: "contig s fs \<Longrightarrow> s \<le> a \<Longrightarrow> a < s + total_len fs \<Longrightarrow> \<exists>f \<in> set fs. covers f a"
proof (induction fs arbitrary: s)
  case (Cons f fs)
  show ?case
  proof (cases "a < s + bf_len f")
    case True
    then show ?thesis using Cons.prems by (auto simp: covers_def)
  next
    case False
    then have "a < s + bf_len f + total_len fs" using Cons.prems by (simp add: total_len_def)
    then show ?thesis using Cons.IH [of "s + bf_len f"] Cons.prems False by auto
  qed
qed (simp add: total_len_def)

lemma covers_unique:
  "contig s fs \<Longrightarrow> f \<in> set fs \<Longrightarrow> g \<in> set fs \<Longrightarrow> covers f a \<Longrightarrow> covers g a \<Longrightarrow> f = g"
proof (induction fs arbitrary: s)
  case (Cons h fs)
  have "bf_start h + bf_len h \<le> bf_start x" if "x \<in> set fs" for x
    using contig_start [of "s + bf_len h" fs x] Cons.prems(1) that by simp
  then show ?case using Cons by (fastforce simp: covers_def)
qed simp


section \<open>Bytes on the disk\<close>

definition content :: "disk \<Rightarrow> btFile \<Rightarrow> byte list" where
  "content d f = (case d_file d (bf_path f) of None \<Rightarrow> [] | Some c \<Rightarrow> c)"

definition byte_at :: "byte list \<Rightarrow> nat \<Rightarrow> byte" where
  "byte_at c k = (if k < length c then c ! k else 0)"

lemma byte_at_write:
  "byte_at (file_write c pos bs) k =
     (if pos \<le> k \<and> k < pos + length bs then bs ! (k - pos) else byte_at c k)"
proof (cases "bs = []")
  case False
  let ?c = "c @ replicate (pos + length bs - length c) 0"
  have l: "pos + length bs \<le> length ?c" by simp
  have "byte_at ?c k = byte_at c k" by (simp add: byte_at_def nth_append)
  then show ?thesis using False l nth_blit [OF l, of k]
    by (auto simp: file_write_def byte_at_def)
qed (auto simp: file_write_def)

lemma length_file_write:
  "length (file_write c pos bs) = (if bs = [] then length c else max (length c) (pos + length bs))"
  by (auto simp: file_write_def)

text \<open>The byte at a global address, and the bytes of a piece.\<close>

definition gbyte :: "btFileSet \<Rightarrow> disk \<Rightarrow> int \<Rightarrow> byte" where
  "gbyte fs d a = (case List.find (\<lambda>f. covers f a) (fs_file fs) of
      None \<Rightarrow> 0 | Some f \<Rightarrow> byte_at (content d f) (nat (a - bf_start f)))"

definition piece_data :: "btFileSet \<Rightarrow> disk \<Rightarrow> int \<Rightarrow> byte list" where
  "piece_data fs d piece =
     map (\<lambda>k. gbyte fs d (piece * blocksize fs + int k)) [0..<nat (plen fs piece)]"

lemma length_piece_data [simp]: "length (piece_data fs d piece) = nat (plen fs piece)"
  by (simp add: piece_data_def)

lemma gbyte_in_file:
  assumes "contig 0 (fs_file fs)" and "f \<in> set (fs_file fs)" and "covers f a"
  shows "gbyte fs d a = byte_at (content d f) (nat (a - bf_start f))"
proof -
  obtain g where g: "List.find (\<lambda>f. covers f a) (fs_file fs) = Some g"
    using assms(2,3) by (metis find_None_iff option.exhaust)
  then have "g \<in> set (fs_file fs)" "covers g a" by (auto simp: find_Some_iff)
  then have "g = f" using covers_unique [OF assms(1) _ assms(2) _ assms(3)] by blast
  then show ?thesis using g by (simp add: gbyte_def)
qed

text \<open>The files hold every byte of a range, so that a read of it succeeds.\<close>

definition file_holds :: "disk \<Rightarrow> btFile \<Rightarrow> int \<Rightarrow> int \<Rightarrow> bool" where
  "file_holds d f addr len \<longleftrightarrow> (touches f addr len \<longrightarrow>
     d_file d (bf_path f) \<noteq> None \<and>
     (\<forall>k. int k < bf_len f \<and> addr \<le> bf_start f + int k \<and> bf_start f + int k < addr + len \<longrightarrow>
        k < length (content d f)))"

definition stored :: "btFileSet \<Rightarrow> disk \<Rightarrow> int \<Rightarrow> int \<Rightarrow> bool" where
  "stored fs d addr len \<longleftrightarrow> (\<forall>f \<in> set (fs_file fs). file_holds d f addr len)"

section \<open>Writing a piece\<close>

text \<open>What \<open>seg_write_file\<close> does to one file: the bytes of the piece that fall into it.\<close>

lemma seg_write_file_ok:
  assumes fs: "layout_ok fs" "in_range fs (piecenumber p)" and f: "0 \<le> bf_len f"
    and buf: "length (pp_buffer p) = nat (plen fs (piecenumber p))" and w: "d_writable d (bf_path f)"
  defines "addr \<equiv> piecenumber p * blocksize fs" and "n \<equiv> plen fs (piecenumber p)"
  shows "\<exists>d'. seg_write_file fs p f d = Inr d' \<and> d_writable d' = d_writable d \<and>
    (\<forall>path. path \<noteq> bf_path f \<longrightarrow> d_file d' path = d_file d path) \<and>
    (d_file d (bf_path f) \<noteq> None \<or> touches f addr n \<longrightarrow> d_file d' (bf_path f) \<noteq> None) \<and>
    length (content d f) \<le> length (content d' f) \<and>
    (\<forall>k. int k < bf_len f \<longrightarrow>
       (let a = bf_start f + int k in
        if addr \<le> a \<and> a < addr + n
        then k < length (content d' f) \<and> byte_at (content d' f) k = pp_buffer p ! nat (a - addr)
        else byte_at (content d' f) k = byte_at (content d f) k))"
proof (cases "touches f addr n")
  case False
  have "seg_write_file fs p f d = Inr d"
    using False by (simp add: seg_write_file_def seg_piecelen_ok [OF fs] Let_def addr_def n_def)
  then show ?thesis using False by (auto simp: touches_def)
next
  case True
  define c where "c = content d f"
  define beg where "beg = max 0 (bf_start f - addr)"
  define fpos where "fpos = max 0 (addr - bf_start f)"
  define len where "len = min (bf_len f - fpos) (n - beg)"
  have n: "0 < n" "n \<le> blocksize fs" using plen_bounds [OF fs] by (simp_all add: n_def)
  have pos: "0 \<le> len" "len \<le> blocksize fs" "0 \<le> beg" "0 \<le> fpos" "beg + len \<le> n" "fpos + len \<le> bf_len f"
    "beg - fpos = bf_start f - addr"
    using True n f by (auto simp: touches_def len_def beg_def fpos_def)
  have open_c: "\<exists>d1. openPath_create d (bf_path f) = Some (c, d1) \<and> d_writable d1 = d_writable d \<and>
      (\<forall>path. path \<noteq> bf_path f \<longrightarrow> d_file d1 path = d_file d path)"
    using w by (cases "d_file d (bf_path f)") (auto simp: openPath_create_def c_def content_def)
  then obtain d1 where d1: "openPath_create d (bf_path f) = Some (c, d1)" "d_writable d1 = d_writable d"
    "\<forall>path. path \<noteq> bf_path f \<longrightarrow> d_file d1 path = d_file d path" by blast
  define bs where "bs = take (nat len) (drop (nat beg) (pp_buffer p))"
  have lbs: "length bs = nat len" using pos buf by (simp add: bs_def n_def min_def) linarith
  define c' where "c' = file_write c (nat fpos) bs"
  define d' where "d' = d1\<lparr>d_file := (d_file d1)(bf_path f \<mapsto> c')\<rparr>"
  have split: "(if bf_start f - addr < 0 then (- (bf_start f - addr), 0) else (0, bf_start f - addr)) =
      (fpos, beg)" by (auto simp: fpos_def beg_def)
  have "\<not> len < 0" "\<not> length (pp_buffer p) < nat (beg + len)" using pos buf by (simp_all add: n_def)
  then have run: "seg_write_file fs p f d = Inr d'"
    using True pos(2)
    by (simp only: seg_write_file_def seg_piecelen_ok [OF fs] bindR_simps Let_def addr_def [symmetric]
        n_def [symmetric] d1(1) split prod.case option.case len_def [symmetric] bs_def [symmetric]
        c'_def [symmetric] d'_def [symmetric] if_False if_True not_True_eq_False die_unless_simps)
  have d': "content d' f = c'" "d_file d' (bf_path f) \<noteq> None" "d_writable d' = d_writable d"
    "\<forall>path. path \<noteq> bf_path f \<longrightarrow> d_file d' path = d_file d path"
    using d1 by (simp_all add: d'_def content_def)
  have grow: "length c \<le> length c'" by (simp add: c'_def length_file_write)
  have upto: "fpos + len = min (bf_len f) (addr + n - bf_start f)"
    using pos(7) unfolding len_def by linarith
  have iff: "nat fpos \<le> k \<and> k < nat fpos + length bs \<longleftrightarrow>
      addr \<le> bf_start f + int k \<and> bf_start f + int k < addr + n" if "int k < bf_len f" for k
  proof -
    have "nat fpos \<le> k \<longleftrightarrow> fpos \<le> int k" using pos(4) by linarith
    also have "\<dots> \<longleftrightarrow> addr \<le> bf_start f + int k" unfolding fpos_def by linarith
    finally have 1: "nat fpos \<le> k \<longleftrightarrow> addr \<le> bf_start f + int k" .
    have "k < nat fpos + length bs \<longleftrightarrow> int k < fpos + len" using pos(1,4) lbs by linarith
    also have "\<dots> \<longleftrightarrow> bf_start f + int k < addr + n" unfolding upto using that by linarith
    finally show ?thesis using 1 by simp
  qed
  have bytes: "if addr \<le> bf_start f + int k \<and> bf_start f + int k < addr + n
      then k < length c' \<and> byte_at c' k = pp_buffer p ! nat (bf_start f + int k - addr)
      else byte_at c' k = byte_at c k" if k: "int k < bf_len f" for k
  proof (cases "nat fpos \<le> k \<and> k < nat fpos + length bs")
    case True
    then have idx: "nat beg + (k - nat fpos) = nat (bf_start f + int k - addr)" using pos by linarith
    have "k - nat fpos < nat len" using True lbs by linarith
    then have "bs ! (k - nat fpos) = pp_buffer p ! nat (bf_start f + int k - addr)"
      using pos buf unfolding bs_def by (subst nth_take) (simp_all add: idx n_def)
    moreover have "bs \<noteq> []" using True by auto
    then have "k < length c'" using True by (auto simp: c'_def length_file_write less_max_iff_disj)
    ultimately show ?thesis using True iff [OF k] by (simp add: c'_def byte_at_write)
  next
    case False
    then show ?thesis using iff [OF k] by (auto simp: c'_def byte_at_write)
  qed
  show ?thesis
    unfolding Let_def c_def [symmetric]
    by (intro exI [of _ d'] conjI allI impI run) (use d' grow bytes in \<open>simp_all\<close>)
qed





text \<open>The loop over the files: each file gets its part, everything else stays.\<close>

definition range_of :: "btFileSet \<Rightarrow> int \<Rightarrow> int \<Rightarrow> bool" where
  "range_of fs piece a \<longleftrightarrow> piece * blocksize fs \<le> a \<and> a < piece * blocksize fs + plen fs piece"

lemma content_other:
  "d_file d' (bf_path f) = d_file d (bf_path f) \<Longrightarrow> content d' f = content d f"
  by (simp add: content_def)

lemma seg_write_files_ok:
  assumes fs: "layout_ok fs" "in_range fs (piecenumber p)"
    and buf: "length (pp_buffer p) = nat (plen fs (piecenumber p))"
    and files: "\<forall>f \<in> set files. 0 \<le> bf_len f \<and> d_writable d (bf_path f)" "distinct (map bf_path files)"
  defines "addr \<equiv> piecenumber p * blocksize fs" and "n \<equiv> plen fs (piecenumber p)"
  shows "\<exists>d'. seg_write_files fs p files d = Inr d' \<and> d_writable d' = d_writable d \<and>
    (\<forall>path. path \<notin> bf_path ` set files \<longrightarrow> d_file d' path = d_file d path) \<and>
    (\<forall>f \<in> set files.
      (d_file d (bf_path f) \<noteq> None \<or> touches f addr n \<longrightarrow> d_file d' (bf_path f) \<noteq> None) \<and>
      length (content d f) \<le> length (content d' f) \<and>
      (\<forall>k. int k < bf_len f \<longrightarrow>
         (let a = bf_start f + int k in
          if addr \<le> a \<and> a < addr + n
          then k < length (content d' f) \<and> byte_at (content d' f) k = pp_buffer p ! nat (a - addr)
          else byte_at (content d' f) k = byte_at (content d f) k)))"
  using files
proof (induction files arbitrary: d)
  case (Cons f files)
  have "0 \<le> bf_len f" "d_writable d (bf_path f)" using Cons.prems(1) by simp_all
  from seg_write_file_ok [OF fs this(1) buf this(2)] obtain d1
    where run1: "seg_write_file fs p f d = Inr d1" and w1: "d_writable d1 = d_writable d"
      and o1: "\<forall>path. path \<noteq> bf_path f \<longrightarrow> d_file d1 path = d_file d path"
      and f1: "d_file d (bf_path f) \<noteq> None \<or> touches f addr n \<longrightarrow> d_file d1 (bf_path f) \<noteq> None"
        "length (content d f) \<le> length (content d1 f)"
        "\<forall>k. int k < bf_len f \<longrightarrow> (let a = bf_start f + int k in
          if addr \<le> a \<and> a < addr + n
          then k < length (content d1 f) \<and> byte_at (content d1 f) k = pp_buffer p ! nat (a - addr)
          else byte_at (content d1 f) k = byte_at (content d f) k)"
    unfolding addr_def n_def by blast
  have "\<forall>g \<in> set files. 0 \<le> bf_len g \<and> d_writable d1 (bf_path g)" "distinct (map bf_path files)"
    using Cons.prems w1 by auto
  from Cons.IH [OF this] obtain d2
    where run2: "seg_write_files fs p files d1 = Inr d2" and w2: "d_writable d2 = d_writable d1"
      and o2: "\<forall>path. path \<notin> bf_path ` set files \<longrightarrow> d_file d2 path = d_file d1 path"
      and g2: "\<forall>f \<in> set files.
      (d_file d1 (bf_path f) \<noteq> None \<or> touches f addr n \<longrightarrow> d_file d2 (bf_path f) \<noteq> None) \<and>
      length (content d1 f) \<le> length (content d2 f) \<and>
      (\<forall>k. int k < bf_len f \<longrightarrow>
         (let a = bf_start f + int k in
          if addr \<le> a \<and> a < addr + n
          then k < length (content d2 f) \<and> byte_at (content d2 f) k = pp_buffer p ! nat (a - addr)
          else byte_at (content d2 f) k = byte_at (content d1 f) k))" by blast
  have same: "d_file d1 (bf_path g) = d_file d (bf_path g)" "content d1 g = content d g" if "g \<in> set files" for g
  proof -
    have "bf_path g \<noteq> bf_path f" using that Cons.prems(2) by (auto simp: image_iff)
    then show "d_file d1 (bf_path g) = d_file d (bf_path g)" using o1 by simp
    then show "content d1 g = content d g" by (rule content_other)
  qed
  have fsame: "d_file d2 (bf_path f) = d_file d1 (bf_path f)" using o2 Cons.prems(2) by simp
  have "seg_write_files fs p (f # files) d = Inr d2" using run1 run2 by simp
  moreover have "\<forall>path. path \<notin> bf_path ` set (f # files) \<longrightarrow> d_file d2 path = d_file d path"
    using o1 o2 by simp
  ultimately show ?case
    using w1 w2 f1 g2 same fsame content_other [OF fsame]
    by (intro exI [of _ d2]) (simp add: Let_def)
qed simp

definition disk_ok :: "btFileSet \<Rightarrow> disk \<Rightarrow> bool" where
  "disk_ok fs d \<longleftrightarrow> (\<forall>f \<in> set (fs_file fs). d_writable d (bf_path f))"

lemma seg_write_files_global:
  assumes fs: "layout_ok fs" "in_range fs (piecenumber p)" and d: "disk_ok fs d"
    and buf: "length (pp_buffer p) = nat (plen fs (piecenumber p))"
  defines "addr \<equiv> piecenumber p * blocksize fs" and "n \<equiv> plen fs (piecenumber p)"
  shows "\<exists>d'. seg_write_files fs p (fs_file fs) d = Inr d' \<and> disk_ok fs d' \<and>
    (\<forall>a. 0 \<le> a \<and> a < tsize fs \<longrightarrow> gbyte fs d' a =
       (if addr \<le> a \<and> a < addr + n then pp_buffer p ! nat (a - addr) else gbyte fs d a)) \<and>
    stored fs d' addr n \<and> (\<forall>x y. stored fs d x y \<longrightarrow> stored fs d' x y)"
proof -
  have c: "contig 0 (fs_file fs)" and t: "tsize fs = total_len (fs_file fs)"
    and dist: "distinct (map bf_path (fs_file fs))" using fs(1) by (simp_all add: layout_ok_def)
  have "\<forall>f \<in> set (fs_file fs). 0 \<le> bf_len f \<and> d_writable d (bf_path f)"
    using contig_start [OF c] d by (auto simp: disk_ok_def)
  from seg_write_files_ok [OF fs buf this dist] obtain d'
    where run: "seg_write_files fs p (fs_file fs) d = Inr d'" and w: "d_writable d' = d_writable d"
      and files: "\<forall>f \<in> set (fs_file fs).
      (d_file d (bf_path f) \<noteq> None \<or> touches f addr n \<longrightarrow> d_file d' (bf_path f) \<noteq> None) \<and>
      length (content d f) \<le> length (content d' f) \<and>
      (\<forall>k. int k < bf_len f \<longrightarrow>
         (let a = bf_start f + int k in
          if addr \<le> a \<and> a < addr + n
          then k < length (content d' f) \<and> byte_at (content d' f) k = pp_buffer p ! nat (a - addr)
          else byte_at (content d' f) k = byte_at (content d f) k))"
    unfolding addr_def n_def by blast
  have bytes: "gbyte fs d' a = (if addr \<le> a \<and> a < addr + n then pp_buffer p ! nat (a - addr) else gbyte fs d a)"
    if a: "0 \<le> a \<and> a < tsize fs" for a
  proof -
    obtain f where f: "f \<in> set (fs_file fs)" "covers f a" using covers_ex [OF c, of a] a t by auto
    define k where "k = nat (a - bf_start f)"
    have k: "int k < bf_len f" "bf_start f + int k = a" using f(2) by (simp_all add: k_def covers_def)
    show ?thesis
      unfolding gbyte_in_file [OF c f] k_def [symmetric]
      using bspec [OF files f(1)] k by (auto simp: Let_def)
  qed
  have "stored fs d' addr n" using files by (simp add: stored_def file_holds_def Let_def)
  moreover have "stored fs d' x y" if "stored fs d x y" for x y
    using that files unfolding stored_def file_holds_def by (meson order_less_le_trans)
  moreover have "disk_ok fs d'" using d w by (simp add: disk_ok_def)
  ultimately show ?thesis using run bytes by blast
qed

section \<open>Reading a range back\<close>

lemma touches_overlap:
  assumes "touches f addr len" and "0 < len" and "0 \<le> bf_len f"
  defines "beg \<equiv> max 0 (bf_start f - addr)" and "fpos \<equiv> max 0 (addr - bf_start f)"
  defines "rlen \<equiv> min (bf_len f - fpos) (len - beg)"
  shows "0 \<le> rlen" "0 \<le> beg" "0 \<le> fpos" "beg + rlen \<le> len" "fpos + rlen \<le> bf_len f" "rlen \<le> len"
    "beg - fpos = bf_start f - addr"
    "(if addr - bf_start f < 0 then (0, - (addr - bf_start f)) else (addr - bf_start f, 0)) = (fpos, beg)"
    "beg + rlen = min len (bf_start f + bf_len f - addr)"
  using assms(1-3) unfolding touches_def rlen_def beg_def fpos_def
  by (cases "bf_start f < addr"; simp; linarith)+

text \<open>One file's part of a read, when the file holds it.\<close>

lemma seg_read_file_ok:
  assumes "touches f addr len" and "0 < len" and "0 \<le> bf_len f" and "len \<le> blocksize fs"
    and "length buf = nat len" and "d_file d (bf_path f) \<noteq> None"
    and "\<forall>k. int k < bf_len f \<and> addr \<le> bf_start f + int k \<and> bf_start f + int k < addr + len \<longrightarrow>
      k < length (content d f)"
  shows "\<exists>buf'. seg_read_file fs d f addr len buf = Inr (0, buf') \<and> length buf' = nat len \<and>
    (\<forall>i < nat len. buf' ! i = (if covers f (addr + int i)
      then byte_at (content d f) (nat (addr + int i - bf_start f)) else buf ! i))"
proof -
  define beg where "beg = max 0 (bf_start f - addr)"
  define fpos where "fpos = max 0 (addr - bf_start f)"
  define rlen where "rlen = min (bf_len f - fpos) (len - beg)"
  note o = touches_overlap [OF assms(1-3), folded beg_def fpos_def, folded rlen_def]
  obtain c where c: "d_file d (bf_path f) = Some c" "content d f = c"
    using assms(6) by (auto simp: content_def)
  have room: "nat fpos + nat rlen \<le> length c" if "0 < rlen"
  proof -
    have "int (nat fpos + nat rlen - 1) = fpos + rlen - 1" using o that by simp
    moreover have "addr \<le> bf_start f + (fpos + rlen - 1)" "bf_start f + (fpos + rlen - 1) < addr + len"
      using o(2-4,7) that by linarith+
    ultimately have "nat fpos + nat rlen - 1 < length c"
      using assms(7) o(5) c(2) by (metis zless_add1_eq add_diff_cancel_right' diff_add_cancel order_less_le_trans less_add_one)
    then show ?thesis by linarith
  qed
  define bs where "bs = take (nat rlen) (drop (nat fpos) c)"
  have lbs: "length bs = nat rlen" using room o(1) by (cases "rlen = 0") (auto simp: bs_def)
  have fits: "nat beg + length bs \<le> length buf" using lbs o(1,2,4) assms(5) by linarith
  have run: "seg_read_file fs d f addr len buf = Inr (0, blit buf (nat beg) bs)"
  proof -
    have "(rlen \<le> blocksize fs) = True" "(rlen < 0 \<or> length buf < nat (beg + rlen)) = False"
      "(length bs \<noteq> nat rlen) = False" "(\<not> touches f addr len) = False"
      using assms(1,4,5) o(1,2,4,6) lbs by auto
    then show ?thesis
      unfolding seg_read_file_def c(1) option.case Let_def o(8) prod.case rlen_def [symmetric] bs_def [symmetric]
      by (simp only: if_False die_unless_simps)
  qed
  have "blit buf (nat beg) bs ! i = (if covers f (addr + int i)
      then byte_at c (nat (addr + int i - bf_start f)) else buf ! i)" if i: "i < nat len" for i
  proof -
    have iff: "nat beg \<le> i \<and> i < nat beg + length bs \<longleftrightarrow> covers f (addr + int i)"
    proof -
      have "nat beg \<le> i \<longleftrightarrow> bf_start f \<le> addr + int i" using o(2) unfolding beg_def by linarith
      moreover have "i < nat beg + length bs \<longleftrightarrow> int i < beg + rlen" using lbs o(1,2) by linarith
      moreover have "int i < beg + rlen \<longleftrightarrow> addr + int i < bf_start f + bf_len f"
        unfolding o(9) using i by linarith
      ultimately show ?thesis by (simp add: covers_def)
    qed
    show ?thesis
    proof (cases "covers f (addr + int i)")
      case True
      then have lt: "i - nat beg < nat rlen" and idx: "nat fpos + (i - nat beg) = nat (addr + int i - bf_start f)"
        using iff lbs o(2,3,7) by linarith+
      moreover have "nat fpos + (i - nat beg) < length c" using lt room by linarith
      ultimately show ?thesis using True iff nth_blit [OF fits, of i] i assms(5)
        by (simp add: bs_def byte_at_def)
    next
      case False
      then show ?thesis using iff nth_blit [OF fits, of i] i assms(5) by auto
    qed
  qed
  then show ?thesis using run fits assms(5) c(2) by auto
qed


lemma seg_read_file_short:
  assumes "touches f addr len" and "0 < len" and "0 \<le> bf_len f" and "len \<le> blocksize fs"
    and "length buf = nat len" and "\<not> file_holds d f addr len"
  shows "\<exists>buf'. seg_read_file fs d f addr len buf = Inr (- 1, buf')"
proof (cases "d_file d (bf_path f)")
  case None
  then show ?thesis using assms(1) by (simp add: seg_read_file_def)
next
  case (Some c)
  define beg where "beg = max 0 (bf_start f - addr)"
  define fpos where "fpos = max 0 (addr - bf_start f)"
  define rlen where "rlen = min (bf_len f - fpos) (len - beg)"
  note o = touches_overlap [OF assms(1-3), folded beg_def fpos_def, folded rlen_def]
  define bs where "bs = take (nat rlen) (drop (nat fpos) c)"
  obtain k where k: "int k < bf_len f" "addr \<le> bf_start f + int k" "bf_start f + int k < addr + len"
    "length c \<le> k" using assms(6) Some by (auto simp: content_def file_holds_def)
  have "int k - fpos < rlen" "0 \<le> int k - fpos"
    using k(1-3) unfolding rlen_def fpos_def beg_def by linarith+
  then have short: "length bs \<noteq> nat rlen" using k(4) o(3) unfolding bs_def by simp
  have "(rlen \<le> blocksize fs) = True" "(rlen < 0 \<or> length buf < nat (beg + rlen)) = False"
    "(length bs \<noteq> nat rlen) = True" "(\<not> touches f addr len) = False"
    using assms(1,4,5) o(1,2,4,6) short by auto
  then show ?thesis
    unfolding seg_read_file_def Some option.case Let_def o(8) prod.case rlen_def [symmetric] bs_def [symmetric]
    by (auto simp only: if_False if_True die_unless_simps)
qed

lemma seg_read_files_ok:
  assumes "0 < len" and "len \<le> blocksize fs" and "length buf = nat len"
    and "\<forall>f \<in> set files. 0 \<le> bf_len f"
    and "\<forall>f \<in> set files. \<forall>a. covers f a \<longrightarrow> gbyte fs d a = byte_at (content d f) (nat (a - bf_start f))"
  shows "if \<forall>f \<in> set files. file_holds d f addr len
    then \<exists>buf'. seg_read_files fs d files addr len buf = Inr (0, buf') \<and> length buf' = nat len \<and>
      (\<forall>i < nat len. buf' ! i = (if \<exists>f \<in> set files. covers f (addr + int i)
        then gbyte fs d (addr + int i) else buf ! i))
    else \<exists>buf'. seg_read_files fs d files addr len buf = Inr (- 1, buf')"
  using assms(3-5)
proof (induction files arbitrary: buf)
  case (Cons f files)
  have f: "0 \<le> bf_len f" using Cons.prems(2) by simp
  show ?case
  proof (cases "file_holds d f addr len")
    case False
    then have "touches f addr len" by (auto simp: file_holds_def)
    then obtain buf' where "seg_read_file fs d f addr len buf = Inr (- 1, buf')"
      using seg_read_file_short [OF _ assms(1) f assms(2) Cons.prems(1) False] by blast
    then show ?thesis using False by simp
  next
    case True
    have "\<exists>b1. seg_read_file fs d f addr len buf = Inr (0, b1) \<and> length b1 = nat len \<and>
      (\<forall>i < nat len. b1 ! i = (if covers f (addr + int i) then gbyte fs d (addr + int i) else buf ! i))"
    proof (cases "touches f addr len")
      case t: True
      have "d_file d (bf_path f) \<noteq> None" "\<forall>k. int k < bf_len f \<and> addr \<le> bf_start f + int k \<and>
          bf_start f + int k < addr + len \<longrightarrow> k < length (content d f)"
        using True t unfolding file_holds_def by blast+
      from seg_read_file_ok [OF t assms(1) f assms(2) Cons.prems(1) this] obtain b1
        where "seg_read_file fs d f addr len buf = Inr (0, b1)" "length b1 = nat len"
          "\<forall>i < nat len. b1 ! i = (if covers f (addr + int i)
            then byte_at (content d f) (nat (addr + int i - bf_start f)) else buf ! i)" by blast
      then show ?thesis using Cons.prems(3) by (intro exI [of _ b1]) simp
    next
      case nt: False
      then have "\<not> covers f (addr + int i)" if "i < nat len" for i
        using that by (auto simp: touches_def covers_def)
      then show ?thesis using nt Cons.prems(1) by (simp add: seg_read_file_def)
    qed
    then obtain b1 where b1: "seg_read_file fs d f addr len buf = Inr (0, b1)" "length b1 = nat len"
      and bytes: "\<forall>i < nat len. b1 ! i = (if covers f (addr + int i) then gbyte fs d (addr + int i) else buf ! i)"
      by blast
    have step: "seg_read_files fs d (f # files) addr len buf = seg_read_files fs d files addr len b1"
      using b1(1) by simp
    note IH = Cons.IH [OF b1(2)]
    show ?thesis
    proof (cases "\<forall>f \<in> set files. file_holds d f addr len")
      case all: True
      then obtain buf' where "seg_read_files fs d files addr len b1 = Inr (0, buf')" "length buf' = nat len"
        "\<forall>i < nat len. buf' ! i = (if \<exists>f \<in> set files. covers f (addr + int i)
          then gbyte fs d (addr + int i) else b1 ! i)" using IH Cons.prems(2,3) by auto
      then show ?thesis using step True all bytes by simp
    next
      case False
      then have "\<exists>buf'. seg_read_files fs d files addr len b1 = Inr (- 1, buf')"
        using IH Cons.prems(2,3) unfolding if_not_P [OF False] by simp
      moreover have nf: "\<not> (\<forall>g \<in> set (f # files). file_holds d g addr len)" using False by simp
      ultimately show ?thesis unfolding if_not_P [OF nf] step by blast
    qed
  qed
qed simp

text \<open>The whole layout: a stored range is read back as it is, any other read answers \<open>-1\<close>.\<close>

lemma seg_read_all:
  assumes fs: "layout_ok fs" and "0 < len" and "len \<le> blocksize fs" and "length buf = nat len"
    and "0 \<le> addr" and "addr + len \<le> tsize fs"
  shows "if stored fs d addr len
    then seg_read_files fs d (fs_file fs) addr len buf = Inr (0, map (\<lambda>i. gbyte fs d (addr + int i)) [0..<nat len])
    else \<exists>buf'. seg_read_files fs d (fs_file fs) addr len buf = Inr (- 1, buf')"
proof -
  have c: "contig 0 (fs_file fs)" and t: "tsize fs = total_len (fs_file fs)"
    using fs by (simp_all add: layout_ok_def)
  have len: "\<forall>f \<in> set (fs_file fs). 0 \<le> bf_len f" using contig_start [OF c] by blast
  have g: "\<forall>f \<in> set (fs_file fs). \<forall>a. covers f a \<longrightarrow> gbyte fs d a = byte_at (content d f) (nat (a - bf_start f))"
    using gbyte_in_file [OF c] by blast
  have cov: "\<exists>f \<in> set (fs_file fs). covers f (addr + int i)" if "i < nat len" for i
    using covers_ex [OF c, of "addr + int i"] that assms(5,6) t by simp
  note r = seg_read_files_ok [OF assms(2-4) len g, of addr, folded stored_def]
  show ?thesis
  proof (cases "stored fs d addr len")
    case True
    then obtain buf' where b: "seg_read_files fs d (fs_file fs) addr len buf = Inr (0, buf')" "length buf' = nat len"
      "\<forall>i < nat len. buf' ! i = (if \<exists>f \<in> set (fs_file fs). covers f (addr + int i)
        then gbyte fs d (addr + int i) else buf ! i)"
      using r by auto
    have "buf' = map (\<lambda>i. gbyte fs d (addr + int i)) [0..<nat len]"
      by (rule nth_equalityI) (use b(2,3) cov in simp_all)
    then show ?thesis using True b(1) by simp
  next
    case False
    then show ?thesis using r by simp
  qed
qed



section \<open>Verified pieces\<close>

definition piece_hash :: "btFileSet \<Rightarrow> int \<Rightarrow> byte list" where
  "piece_hash fs piece = take 20 (drop (nat piece * 20) (hashes fs))"

definition pp_ok :: "btFileSet \<Rightarrow> btPartialPiece \<Rightarrow> bool" where
  "pp_ok fs p \<longleftrightarrow> in_range fs (piecenumber p) \<and> length (pp_buffer p) = nat (plen fs (piecenumber p)) \<and>
     bs_wf (filled p) \<and> nbits (filled p) = nat (plen fs (piecenumber p))"

definition fs_ok :: "btFileSet \<Rightarrow> bool" where
  "fs_ok fs \<longleftrightarrow> layout_ok fs \<and> bs_wf (completed fs) \<and> nbits (completed fs) = nat (npieces fs) \<and>
     length (hashes fs) = nat (npieces fs) * 20 \<and> distinct (map piecenumber (partial fs)) \<and>
     (\<forall>p \<in> set (partial fs). pp_ok fs p)"

definition complete :: "btFileSet \<Rightarrow> int \<Rightarrow> bool" where
  "complete fs piece \<longleftrightarrow> in_range fs piece \<and> bs_test (completed fs) (nat piece)"

text \<open>Every completed piece is on the disk, with the announced hash.\<close>

definition verified :: "btFileSet \<Rightarrow> disk \<Rightarrow> bool" where
  "verified fs d \<longleftrightarrow> (\<forall>piece. complete fs piece \<longrightarrow>
     stored fs d (piece * blocksize fs) (plen fs piece) \<and>
     sha1_spec (piece_data fs d piece) = piece_hash fs piece)"

text \<open>None of this looks at the counters or the partial pieces, nor, but for the last, at the bit set.\<close>

lemma layout_update [simp]:
  "layout_ok (fs\<lparr>completed := c\<rparr>) = layout_ok fs" "plen (fs\<lparr>completed := c\<rparr>) = plen fs"
  "in_range (fs\<lparr>completed := c\<rparr>) = in_range fs" "gbyte (fs\<lparr>completed := c\<rparr>) = gbyte fs"
  "stored (fs\<lparr>completed := c\<rparr>) = stored fs" "disk_ok (fs\<lparr>completed := c\<rparr>) = disk_ok fs"
  "piece_hash (fs\<lparr>completed := c\<rparr>) = piece_hash fs" "piece_data (fs\<lparr>completed := c\<rparr>) = piece_data fs"
  "pp_ok (fs\<lparr>completed := c\<rparr>) = pp_ok fs"
  "layout_ok (fs\<lparr>partial := ps\<rparr>) = layout_ok fs" "plen (fs\<lparr>partial := ps\<rparr>) = plen fs"
  "in_range (fs\<lparr>partial := ps\<rparr>) = in_range fs" "gbyte (fs\<lparr>partial := ps\<rparr>) = gbyte fs"
  "stored (fs\<lparr>partial := ps\<rparr>) = stored fs" "disk_ok (fs\<lparr>partial := ps\<rparr>) = disk_ok fs"
  "piece_hash (fs\<lparr>partial := ps\<rparr>) = piece_hash fs" "piece_data (fs\<lparr>partial := ps\<rparr>) = piece_data fs"
  "pp_ok (fs\<lparr>partial := ps\<rparr>) = pp_ok fs" "complete (fs\<lparr>partial := ps\<rparr>) = complete fs"
  by (simp_all add: fun_eq_iff layout_ok_def plen_def in_range_def gbyte_def stored_def disk_ok_def
      piece_hash_def piece_data_def pp_ok_def complete_def)

lemma counter_update [simp]:
  "layout_ok (fs\<lparr>dl := x, left := y\<rparr>) = layout_ok fs" "plen (fs\<lparr>dl := x, left := y\<rparr>) = plen fs"
  "in_range (fs\<lparr>dl := x, left := y\<rparr>) = in_range fs" "gbyte (fs\<lparr>dl := x, left := y\<rparr>) = gbyte fs"
  "stored (fs\<lparr>dl := x, left := y\<rparr>) = stored fs" "disk_ok (fs\<lparr>dl := x, left := y\<rparr>) = disk_ok fs"
  "piece_hash (fs\<lparr>dl := x, left := y\<rparr>) = piece_hash fs" "piece_data (fs\<lparr>dl := x, left := y\<rparr>) = piece_data fs"
  "pp_ok (fs\<lparr>dl := x, left := y\<rparr>) = pp_ok fs" "complete (fs\<lparr>dl := x, left := y\<rparr>) = complete fs"
  by (simp_all add: fun_eq_iff layout_ok_def plen_def in_range_def gbyte_def stored_def disk_ok_def
      piece_hash_def piece_data_def pp_ok_def complete_def)

lemma verified_update [simp]:
  "verified (fs\<lparr>partial := ps\<rparr>) = verified fs" "verified (fs\<lparr>dl := x, left := y\<rparr>) = verified fs"
  by (simp_all add: fun_eq_iff verified_def)

lemma checkhash_ok:
  assumes "fs_ok fs" and "in_range fs piece" and "length buf = nat (plen fs piece)"
  shows "checkhash fs piece buf = Inr (sha1_spec buf = piece_hash fs piece)"
proof -
  have l: "layout_ok fs" "length (hashes fs) = nat (npieces fs) * 20" using assms(1) by (simp_all add: fs_ok_def)
  have pc: "0 \<le> piece" "piece < npieces fs" using assms(2) by (simp_all add: in_range_def)
  have "plen fs piece < 2147483648" using plen_bounds(2) [OF l(1) assms(2)] l(1) by (simp add: layout_ok_def)
  then have "length buf < 2 ^ 32" using assms(3) by simp
  then have "SHA1 (replicate 64 0) buf = sha1_spec buf"
    unfolding SHA1_def using SHA1Final_repr [OF sha_repr_update [OF sha_repr_init]] by simp
  moreover have "nat piece * 20 + 20 \<le> length (hashes fs)" using l(2) pc by simp
  ultimately show ?thesis using assms(3) pc
    by (simp add: checkhash_def seg_piecelen_ok [OF l(1) assms(2)] piece_hash_def)
qed

lemma completed_spec:
  assumes "fs_ok fs" and "in_range fs piece"
  shows "\<exists>c. bs_set (completed fs) piece = Inr c \<and> bs_wf c \<and> nbits c = nbits (completed fs) \<and>
      bs_elems c = insert (nat piece) (bs_elems (completed fs))"
    and "\<exists>c. bs_clr (completed fs) piece = Inr c \<and> bs_wf c \<and> nbits c = nbits (completed fs) \<and>
      bs_elems c = bs_elems (completed fs) - {nat piece}"
    and "bs_isSet (completed fs) piece = Inr (complete fs piece)"
  using assms bs_set_spec [of "completed fs" "nat piece"] bs_clr_spec [of "completed fs" "nat piece"]
    bs_isSet_eq [of "completed fs" "nat piece"]
  by (auto simp: fs_ok_def in_range_def complete_def)

lemma complete_elems:
  "fs_ok fs \<Longrightarrow> complete fs piece \<longleftrightarrow> 0 \<le> piece \<and> nat piece \<in> bs_elems (completed fs)"
  by (auto simp: complete_def fs_ok_def in_range_def bs_elems_def)

lemma pieces_disjoint:
  assumes "layout_ok fs" and "q \<noteq> piece" and "0 \<le> k" and "k < plen fs q"
  shows "\<not> (piece * blocksize fs \<le> q * blocksize fs + k \<and>
    q * blocksize fs + k < piece * blocksize fs + plen fs piece)"
proof -
  have b: "0 < blocksize fs" using assms(1) by (simp add: layout_ok_def)
  have le: "plen fs x \<le> blocksize fs" for x by (simp add: plen_def)
  have step: "(x + 1) * blocksize fs = x * blocksize fs + blocksize fs" for x by (simp add: algebra_simps)
  show ?thesis
  proof (cases "q < piece")
    case True
    then have "(q + 1) * blocksize fs \<le> piece * blocksize fs" using b by (intro mult_right_mono) auto
    then show ?thesis using assms(3,4) le [of q] step [of q] by linarith
  next
    case False
    then have "(piece + 1) * blocksize fs \<le> q * blocksize fs" using b assms(2) by (intro mult_right_mono) auto
    then show ?thesis using assms(3,4) le [of piece] step [of piece] by linarith
  qed
qed

lemma seg_write_ok:
  assumes ok: "fs_ok fs" "disk_ok fs d" and p: "pp_ok fs p"
  shows "\<exists>c d'. seg_write fs p d = Inr (fs\<lparr>completed := c\<rparr>, d') \<and> disk_ok fs d' \<and> bs_wf c \<and>
    nbits c = nbits (completed fs) \<and> bs_elems c = insert (nat (piecenumber p)) (bs_elems (completed fs)) \<and>
    piece_data fs d' (piecenumber p) = pp_buffer p \<and>
    (\<forall>q. in_range fs q \<and> q \<noteq> piecenumber p \<longrightarrow> piece_data fs d' q = piece_data fs d q) \<and>
    stored fs d' (piecenumber p * blocksize fs) (plen fs (piecenumber p)) \<and>
    (\<forall>x y. stored fs d x y \<longrightarrow> stored fs d' x y)"
proof -
  let ?n = "piecenumber p"
  have l: "layout_ok fs" and rng: "in_range fs ?n" and buf: "length (pp_buffer p) = nat (plen fs ?n)"
    using ok(1) p by (simp_all add: fs_ok_def pp_ok_def)
  obtain d' where d': "seg_write_files fs p (fs_file fs) d = Inr d'" "disk_ok fs d'"
    "\<forall>a. 0 \<le> a \<and> a < tsize fs \<longrightarrow> gbyte fs d' a =
       (if ?n * blocksize fs \<le> a \<and> a < ?n * blocksize fs + plen fs ?n
        then pp_buffer p ! nat (a - ?n * blocksize fs) else gbyte fs d a)"
    "stored fs d' (?n * blocksize fs) (plen fs ?n)" "\<forall>x y. stored fs d x y \<longrightarrow> stored fs d' x y"
    using seg_write_files_global [OF l rng ok(2) buf] by blast
  obtain c where c: "bs_set (completed fs) ?n = Inr c" "bs_wf c" "nbits c = nbits (completed fs)"
    "bs_elems c = insert (nat ?n) (bs_elems (completed fs))"
    using completed_spec(1) [OF ok(1) rng] by blast
  have addr: "0 \<le> q * blocksize fs + int k \<and> q * blocksize fs + int k < tsize fs"
    if "in_range fs q" "k < nat (plen fs q)" for q k
    using plen_bounds [OF l that(1)] that(2) by auto
  have "piece_data fs d' ?n = pp_buffer p"
    by (rule nth_equalityI) (use d'(3) addr [OF rng] buf in \<open>auto simp: piece_data_def\<close>)
  moreover have "piece_data fs d' q = piece_data fs d q" if q: "in_range fs q" "q \<noteq> ?n" for q
    unfolding piece_data_def
    by (rule map_cong [OF refl])
      (use d'(3) addr [OF q(1)] pieces_disjoint [OF l q(2)] in \<open>auto simp: nat_less_iff\<close>)
  ultimately show ?thesis using d' c by (auto simp: seg_write_def)
qed

lemma seg_write_keeps:
  assumes ok: "fs_ok fs" "disk_ok fs d" and p: "pp_ok fs p"
    and hash: "sha1_spec (pp_buffer p) = piece_hash fs (piecenumber p)"
    and run: "seg_write fs p d = Inr (fs', d')"
  shows "fs_ok fs' \<and> disk_ok fs' d' \<and> (verified fs d \<longrightarrow> verified fs' d')"
proof -
  let ?n = "piecenumber p"
  obtain c where fs': "fs' = fs\<lparr>completed := c\<rparr>" and d': "disk_ok fs d'"
    "piece_data fs d' ?n = pp_buffer p"
    "\<forall>q. in_range fs q \<and> q \<noteq> ?n \<longrightarrow> piece_data fs d' q = piece_data fs d q"
    "stored fs d' (?n * blocksize fs) (plen fs ?n)" "\<forall>x y. stored fs d x y \<longrightarrow> stored fs d' x y"
    and c: "bs_wf c" "nbits c = nbits (completed fs)" "bs_elems c = insert (nat ?n) (bs_elems (completed fs))"
    using seg_write_ok [OF ok p] run by auto
  have fsok: "fs_ok fs'" using ok(1) c by (auto simp: fs' fs_ok_def)
  have "verified fs' d'" if v: "verified fs d"
    unfolding verified_def
  proof (intro allI impI)
    fix q assume q: "complete fs' q"
    then have rng: "in_range fs q" by (simp add: complete_def fs')
    have "0 \<le> ?n" using p by (simp add: pp_ok_def in_range_def)
    then have "q = ?n \<or> complete fs q"
      using q complete_elems [OF fsok, of q] complete_elems [OF ok(1), of q] c(3) by (auto simp: fs')
    then show "stored fs' d' (q * blocksize fs') (plen fs' q) \<and> sha1_spec (piece_data fs' d' q) = piece_hash fs' q"
    proof (cases "q = ?n")
      case True
      then show ?thesis using d' hash by (simp add: fs')
    next
      case False
      then have "complete fs q" using \<open>q = ?n \<or> complete fs q\<close> by simp
      then show ?thesis using v False d' rng unfolding verified_def by (simp add: fs')
    qed
  qed
  then show ?thesis using fsok d'(1) by (simp add: fs')
qed

lemma find_pieceD: "find_piece ps n = Some p \<Longrightarrow> p \<in> set ps \<and> piecenumber p = n"
  by (auto simp: find_piece_def find_Some_iff)

lemma find_piece_simps [simp]:
  "find_piece [] n = None"
  "find_piece (p # ps) n = (if piecenumber p = n then Some p else find_piece ps n)"
  by (simp_all add: find_piece_def)

lemma find_piece_None: "find_piece ps n = None \<longleftrightarrow> n \<notin> piecenumber ` set ps"
  by (induction ps) auto

lemma remove_piece_facts:
  "distinct (map piecenumber ps) \<Longrightarrow> set (remove_piece n ps) = {p \<in> set ps. piecenumber p \<noteq> n} \<and>
     distinct (map piecenumber (remove_piece n ps))"
  by (induction ps) (auto simp: image_iff)

lemma find_remove:
  "distinct (map piecenumber ps) \<Longrightarrow> find_piece (remove_piece n ps) m = (if m = n then None else find_piece ps m)"
  by (induction ps) (auto simp: find_piece_None)

lemma update_piece_numbers: "map piecenumber (update_piece q ps) = map piecenumber ps"
  by (induction ps) auto

lemma update_piece_set: "set (update_piece q ps) \<subseteq> insert q (set ps)"
  by (induction ps) auto

lemma find_update:
  "find_piece ps (piecenumber q) \<noteq> None \<Longrightarrow>
     find_piece (update_piece q ps) m = (if m = piecenumber q then Some q else find_piece ps m)"
  by (induction ps) auto

lemma fs_ok_update_piece:
  "fs_ok fs \<Longrightarrow> pp_ok fs q \<Longrightarrow> fs_ok (fs\<lparr>partial := update_piece q (partial fs)\<rparr>)"
  using update_piece_set [of q "partial fs"] by (auto simp: fs_ok_def update_piece_numbers)

lemma fs_ok_remove_piece:
  "fs_ok fs \<Longrightarrow> fs_ok (fs\<lparr>partial := remove_piece n (partial fs), dl := x, left := y\<rparr>)"
  using remove_piece_facts [of "partial fs" n] by (auto simp: fs_ok_def)

section \<open>Receiving data\<close>

text \<open>The bytes a packet leaves in the buffer, and whether the piece is then full.\<close>

definition filled_buffer :: "btPartialPiece \<Rightarrow> nat \<Rightarrow> byte list \<Rightarrow> byte list" where
  "filled_buffer p offset bs = blit (pp_buffer p) offset bs"

definition filled_up :: "btPartialPiece \<Rightarrow> nat \<Rightarrow> nat \<Rightarrow> bool" where
  "filled_up p offset n \<longleftrightarrow>
     isdone p \<or> bs_elems (filled p) \<union> {offset..<offset + n} = {..<nbits (filled p)}"

lemma seg_writebuf_run:
  assumes ok: "fs_ok fs" "disk_ok fs d" and p: "find_piece (partial fs) piece = Some p"
    and rng: "off + length bs \<le> nat (plen fs piece)" "bs \<noteq> []"
  defines "data \<equiv> filled_buffer p off bs"
  shows "\<exists>fl. bs_wf fl \<and> nbits fl = nbits (filled p) \<and> bs_elems fl = bs_elems (filled p) \<union> {off..<off + length bs} \<and>
    seg_writebuf fs d piece (int off) bs (int (length bs)) =
      (let q = p\<lparr>pp_buffer := data, filled := fl\<rparr> in
       if \<not> filled_up p off (length bs) then Inr (0, fs\<lparr>partial := update_piece q (partial fs)\<rparr>, d)
       else if sha1_spec data \<noteq> piece_hash fs piece
       then Inr (0, fs\<lparr>partial := update_piece (q\<lparr>isdone := True\<rparr>) (partial fs)\<rparr>, d)
       else bindR (seg_write (fs\<lparr>partial := remove_piece piece (partial fs),
              dl := dl fs + plen fs piece, left := left fs - plen fs piece\<rparr>) (q\<lparr>isdone := True\<rparr>) d)
            (\<lambda>(fs, d). Inr (1, fs, d)))"
proof -
  have pp: "pp_ok fs p" "piecenumber p = piece" using find_pieceD [OF p] ok(1) by (auto simp: fs_ok_def)
  have l: "layout_ok fs" using ok(1) by (simp add: fs_ok_def)
  have inr: "in_range fs piece" and buf: "length (pp_buffer p) = nat (plen fs piece)"
    and fl: "bs_wf (filled p)" "nbits (filled p) = nat (plen fs piece)"
    using pp by (auto simp: pp_ok_def)
  have n: "0 < length bs" using rng(2) by simp
  note pl = seg_piecelen_ok [OF l inr]
  obtain t where t: "bs_setRange (filled p) (int off) (int (off + length bs)) = Inr t" "bs_wf t"
    "nbits t = nbits (filled p)" "bs_elems t = bs_elems (filled p) \<union> {off..<off + length bs}"
    using bs_setRange_nat [OF fl(1), of "off + length bs" off] rng(1) fl(2) by auto
  have full: "(if isdone p then Inr True else bs_isFull t) = Inr (filled_up p off (length bs))"
  proof -
    have "0 < nbits t" using t(3) fl(2) plen_bounds(1) [OF l inr] by simp
    then show ?thesis using bs_isFull_spec [OF t(2)] t(3,4) by (simp add: filled_up_def)
  qed
  have "length data = nat (plen fs piece)" using buf rng(1) by (simp add: data_def filled_buffer_def)
  note hash = checkhash_ok [OF ok(1) inr this]
  have pos: "int off < plen fs piece" "int off + int (length bs) \<le> plen fs piece" using rng(1) n by linarith+
  have "seg_writebuf fs d piece (int off) bs (int (length bs)) =
      (let q = p\<lparr>pp_buffer := data, filled := t\<rparr> in
       if \<not> filled_up p off (length bs) then Inr (0, fs\<lparr>partial := update_piece q (partial fs)\<rparr>, d)
       else if sha1_spec data \<noteq> piece_hash fs piece
       then Inr (0, fs\<lparr>partial := update_piece (q\<lparr>isdone := True\<rparr>) (partial fs)\<rparr>, d)
       else bindR (seg_write (fs\<lparr>partial := remove_piece piece (partial fs),
              dl := dl fs + plen fs piece, left := left fs - plen fs piece\<rparr>) (q\<lparr>isdone := True\<rparr>) d)
            (\<lambda>(fs, d). Inr (1, fs, d)))"
  proof -
    have cond: "(0 \<le> int off \<and> int off < plen fs piece \<and> int off + int (length bs) \<le> plen fs piece \<and>
        0 < int (length bs)) = True" unfolding eq_True using pos n by (intro conjI) linarith+
    have "nat (int off + int (length bs)) \<le> length (pp_buffer p)" unfolding buf by (rule nat_mono [OF pos(2)])
    then have mem: "(length bs < nat (int (length bs)) \<or>
        length (pp_buffer p) < nat (int off + int (length bs))) = False" by simp
    have t': "bs_setRange (filled p) (int off) (int off + int (length bs)) = Inr t" using t(1) by simp
    show ?thesis
      unfolding seg_writebuf_def p option.case pl bindR_simps cond die_unless_simps mem if_False t' Let_def
      using full hash by (simp add: data_def filled_buffer_def)
  qed
  with t show ?thesis by blast
qed

lemma seg_writebuf_args:
  assumes "fs_ok fs" and "find_piece (partial fs) piece = Some p"
    and "seg_writebuf fs d piece offset buf len = Inr r"
  shows "0 \<le> offset" "0 < len" "offset + len \<le> plen fs piece" "nat len \<le> length buf"
    "seg_writebuf fs d piece offset (take (nat len) buf) len = Inr r"
proof -
  have "pp_ok fs p" "piecenumber p = piece" using find_pieceD [OF assms(2)] assms(1) by (auto simp: fs_ok_def)
  then have "layout_ok fs" "in_range fs piece" using assms(1) by (auto simp: fs_ok_def pp_ok_def)
  note pl = seg_piecelen_ok [OF this]
  show "0 \<le> offset" "0 < len" "offset + len \<le> plen fs piece" "nat len \<le> length buf"
    using assms(3) pl by (auto simp: seg_writebuf_def assms(2) die_unless_def split: if_splits)
  have l: "(length (take (nat len) buf) < nat len) = (length buf < nat len)"
    and t: "take (nat len) (take (nat len) buf) = take (nat len) buf" by auto
  show "seg_writebuf fs d piece offset (take (nat len) buf) len = Inr r"
    using assms(3) unfolding seg_writebuf_def l t .
qed

lemma seg_writebuf_keeps:
  assumes ok: "fs_ok fs" "disk_ok fs d" and run: "seg_writebuf fs d piece offset buf len = Inr (r, fs', d')"
  shows "fs_ok fs' \<and> disk_ok fs' d' \<and> (verified fs d \<longrightarrow> verified fs' d')"
proof (cases "find_piece (partial fs) piece")
  case None
  then show ?thesis using run ok by (simp add: seg_writebuf_def)
next
  case (Some p)
  note a = seg_writebuf_args [OF ok(1) Some run]
  define bs where "bs = take (nat len) buf"
  define off where "off = nat offset"
  have bs: "length bs = nat len" "bs \<noteq> []" "off + length bs \<le> nat (plen fs piece)"
    using a by (auto simp: bs_def off_def)
  have run': "seg_writebuf fs d piece (int off) bs (int (length bs)) = Inr (r, fs', d')"
    using a(1,2,5) bs(1) by (simp add: bs_def off_def)
  have pp: "pp_ok fs p" "piecenumber p = piece" using find_pieceD [OF Some] ok(1) by (auto simp: fs_ok_def)
  define data where "data = filled_buffer p off bs"
  have ld: "length data = nat (plen fs piece)"
    using pp bs(3) by (simp add: data_def filled_buffer_def pp_ok_def)
  obtain fl where fl: "bs_wf fl" "nbits fl = nbits (filled p)"
    and eq: "Inr (r, fs', d') =
      (let q = p\<lparr>pp_buffer := data, filled := fl\<rparr> in
       if \<not> filled_up p off (length bs) then Inr (0, fs\<lparr>partial := update_piece q (partial fs)\<rparr>, d)
       else if sha1_spec data \<noteq> piece_hash fs piece
       then Inr (0, fs\<lparr>partial := update_piece (q\<lparr>isdone := True\<rparr>) (partial fs)\<rparr>, d)
       else bindR (seg_write (fs\<lparr>partial := remove_piece piece (partial fs),
              dl := dl fs + plen fs piece, left := left fs - plen fs piece\<rparr>) (q\<lparr>isdone := True\<rparr>) d)
            (\<lambda>(fs, d). Inr (1, fs, d)))"
    using seg_writebuf_run [OF ok Some bs(3,2)] run' unfolding data_def by metis
  define q where "q = p\<lparr>pp_buffer := data, filled := fl\<rparr>"
  have q: "pp_ok fs q" "pp_ok fs (q\<lparr>isdone := True\<rparr>)" using pp ld fl by (auto simp: q_def pp_ok_def)
  let ?fs = "fs\<lparr>partial := remove_piece piece (partial fs),
              dl := dl fs + plen fs piece, left := left fs - plen fs piece\<rparr>"
  show ?thesis
  proof (cases "filled_up p off (length bs) \<and> sha1_spec data = piece_hash fs piece")
    case True
    then have w: "seg_write ?fs (q\<lparr>isdone := True\<rparr>) d = Inr (fs', d')"
      using eq [symmetric] by (auto simp: Let_def q_def bindR_Inr_iff)
    have "fs_ok ?fs" by (rule fs_ok_remove_piece [OF ok(1)])
    moreover have "disk_ok ?fs d" "pp_ok ?fs (q\<lparr>isdone := True\<rparr>)" using ok(2) q(2) by simp_all
    moreover have "sha1_spec (pp_buffer (q\<lparr>isdone := True\<rparr>)) = piece_hash ?fs (piecenumber (q\<lparr>isdone := True\<rparr>))"
      using True pp(2) by (simp add: q_def)
    ultimately show ?thesis using seg_write_keeps [OF _ _ _ _ w] by simp
  next
    case False
    then have "fs' = fs\<lparr>partial := update_piece q (partial fs)\<rparr> \<or>
        fs' = fs\<lparr>partial := update_piece (q\<lparr>isdone := True\<rparr>) (partial fs)\<rparr>" "d' = d"
      using eq [symmetric] by (auto simp: Let_def q_def split: if_splits)
    then show ?thesis using fs_ok_update_piece [OF ok(1)] q ok(2) by auto
  qed
qed



section \<open>Finding partial pieces and reviewing stored ones\<close>

lemma seg_getPiece_ok:
  assumes ok: "fs_ok fs" and rng: "in_range fs piece"
  shows "\<exists>p fs'. seg_getPiece fs piece = Inr (p, fs') \<and> fs_ok fs' \<and> find_piece (partial fs') piece = Some p \<and>
    (\<forall>n. n \<noteq> piece \<longrightarrow> find_piece (partial fs') n = find_piece (partial fs) n) \<and>
    (\<exists>ps. fs' = fs\<lparr>partial := ps\<rparr>) \<and>
    (find_piece (partial fs) piece = None \<longrightarrow>
       bs_elems (filled p) = {} \<and> \<not> isdone p \<and> pp_buffer p = replicate (nat (plen fs piece)) 0) \<and>
    (\<forall>q. find_piece (partial fs) piece = Some q \<longrightarrow> p = q \<and> fs' = fs)"
proof (cases "find_piece (partial fs) piece")
  case (Some p)
  then show ?thesis using ok rng
    by (intro exI [of _ p] exI [of _ fs]) (auto simp: seg_getPiece_def in_range_def intro!: exI [of _ "partial fs"])
next
  case None
  have l: "layout_ok fs" using ok by (simp add: fs_ok_def)
  define p where "p = \<lparr>piecenumber = piece, filled = kBitSet_create (nat (plen fs piece)), nextbyteReq = 0,
    isdone = False, pp_buffer = replicate (nat (plen fs piece)) 0\<rparr>"
  have run: "seg_getPiece fs piece = Inr (p, fs\<lparr>partial := partial fs @ [p]\<rparr>)"
    using None rng seg_piecelen_ok [OF l rng] by (simp add: seg_getPiece_def in_range_def Let_def p_def)
  have pn: "piecenumber p = piece" "pp_ok fs p" using rng by (simp_all add: p_def pp_ok_def)
  have fnd: "find_piece (ps @ [p]) n = (case find_piece ps n of None \<Rightarrow> if n = piece then Some p else None | Some q \<Rightarrow> Some q)"
    for ps n by (induction ps) (auto simp: pn)
  have "fs_ok (fs\<lparr>partial := partial fs @ [p]\<rparr>)"
    using ok None pn by (auto simp: fs_ok_def find_piece_None)
  moreover have "bs_elems (filled p) = {}" "\<not> isdone p" "pp_buffer p = replicate (nat (plen fs piece)) 0"
    by (simp_all add: p_def)
  ultimately show ?thesis using run None fnd
    by (intro exI [of _ p] exI [of _ "fs\<lparr>partial := partial fs @ [p]\<rparr>"])
      (auto split: option.splits intro!: exI [of _ "partial fs @ [p]"])
qed

lemma seg_review_ok:
  fixes d :: disk
  assumes ok: "fs_ok fs" and rng: "in_range fs piece"
  defines "good \<equiv> stored fs d (piece * blocksize fs) (plen fs piece) \<and>
      sha1_spec (piece_data fs d piece) = piece_hash fs piece"
  shows "\<exists>r c. seg_review fs d piece = Inr (r, fs\<lparr>completed := c\<rparr>) \<and> (r = 1 \<longleftrightarrow> good) \<and> r \<in> {- 1, 0, 1} \<and>
    bs_wf c \<and> nbits c = nbits (completed fs) \<and>
    bs_elems c = (if good then insert (nat piece) (bs_elems (completed fs))
      else bs_elems (completed fs) - {nat piece})"
proof -
  have l: "layout_ok fs" using ok by (simp add: fs_ok_def)
  note pl = seg_piecelen_ok [OF l rng] and b = plen_bounds [OF l rng]
  obtain c where c: "bs_set (completed fs) piece = Inr c" "bs_wf c" "nbits c = nbits (completed fs)"
    "bs_elems c = insert (nat piece) (bs_elems (completed fs))" using completed_spec(1) [OF ok rng] by blast
  let ?fs = "fs\<lparr>completed := c\<rparr>" and ?addr = "piece * blocksize fs"
  have ok1: "fs_ok ?fs" using ok c by (simp add: fs_ok_def)
  have rng1: "in_range ?fs piece" using rng by simp
  have "complete ?fs piece"
    using complete_elems [OF ok1, of piece] c(4) rng by (simp add: in_range_def)
  then have set: "bs_isSet c piece = Inr True" using completed_spec(3) [OF ok1 rng1] by simp
  obtain c' where c': "bs_clr c piece = Inr c'" "bs_wf c'" "nbits c' = nbits (completed fs)"
    "bs_elems c' = bs_elems (completed fs) - {nat piece}" using completed_spec(2) [OF ok1 rng1] c(3,4) by auto
  let ?buf = "replicate (nat (plen fs piece)) 0"
  have rd: "seg_readbuf ?fs d piece 0 ?buf (plen fs piece) = seg_read_files ?fs d (fs_file fs) ?addr (plen fs piece) ?buf"
    using set by (simp add: seg_readbuf_def)
  have all: "if stored fs d ?addr (plen fs piece)
    then seg_read_files ?fs d (fs_file fs) ?addr (plen fs piece) ?buf =
      Inr (0, map (\<lambda>i. gbyte fs d (?addr + int i)) [0..<nat (plen fs piece)])
    else \<exists>buf'. seg_read_files ?fs d (fs_file fs) ?addr (plen fs piece) ?buf = Inr (- 1, buf')"
    using seg_read_all [of ?fs "plen fs piece" ?buf ?addr d] l b by (simp split: if_splits)
  show ?thesis
  proof (cases "stored fs d ?addr (plen fs piece)")
    case False
    then obtain buf' where "seg_readbuf ?fs d piece 0 ?buf (plen fs piece) = Inr (- 1, buf')"
      using rd all by auto
    then have "seg_review fs d piece = Inr (- 1, fs\<lparr>completed := c'\<rparr>)"
      using pl c(1) c'(1) by (simp add: seg_review_def Let_def)
    then show ?thesis using False c' by (intro exI [of _ "- 1"] exI [of _ c']) (simp add: good_def)
  next
    case True
    then have "seg_readbuf ?fs d piece 0 ?buf (plen fs piece) = Inr (0, piece_data fs d piece)"
      using rd all by (simp add: piece_data_def)
    moreover have "checkhash ?fs piece (piece_data fs d piece) =
        Inr (sha1_spec (piece_data fs d piece) = piece_hash fs piece)"
      using checkhash_ok [OF ok1 rng1, of "piece_data fs d piece"] by simp
    ultimately have run: "seg_review fs d piece =
        (if good then Inr (1, ?fs) else Inr (0, fs\<lparr>completed := c'\<rparr>))"
      using True pl c(1) c'(1) by (simp add: seg_review_def Let_def good_def)
    show ?thesis
    proof (cases good)
      case True
      then show ?thesis using run c by (intro exI [of _ 1] exI [of _ c]) simp
    next
      case False
      then show ?thesis using run c' by (intro exI [of _ 0] exI [of _ c']) simp
    qed
  qed
qed

lemma seg_review_keeps:
  assumes ok: "fs_ok fs" and run: "seg_review fs d piece = Inr (r, fs')"
  shows "fs_ok fs' \<and> (disk_ok fs d \<longrightarrow> disk_ok fs' d) \<and> (verified fs d \<longrightarrow> verified fs' d)"
proof -
  have rng: "in_range fs piece"
    using run seg_piecelen_range [of fs piece] by (auto simp: seg_review_def bindR_Inr_iff)
  obtain c where fs': "fs' = fs\<lparr>completed := c\<rparr>" and c: "bs_wf c" "nbits c = nbits (completed fs)"
    and el: "bs_elems c = (if stored fs d (piece * blocksize fs) (plen fs piece) \<and>
        sha1_spec (piece_data fs d piece) = piece_hash fs piece
      then insert (nat piece) (bs_elems (completed fs)) else bs_elems (completed fs) - {nat piece})"
    using seg_review_ok [OF ok rng, of d] run by auto
  have ok': "fs_ok fs'" using ok c by (simp add: fs' fs_ok_def)
  have "verified fs' d" if v: "verified fs d"
    unfolding verified_def
  proof (intro allI impI)
    fix q assume q: "complete fs' q"
    have "0 \<le> piece" using rng by (simp add: in_range_def)
    moreover have "0 \<le> q" using q by (simp add: complete_def in_range_def)
    ultimately have "nat q = nat piece \<longleftrightarrow> q = piece" by (simp add: eq_nat_nat_iff)
    then have "complete fs q \<or> q = piece \<and> stored fs d (q * blocksize fs) (plen fs q) \<and>
        sha1_spec (piece_data fs d q) = piece_hash fs q"
      using q complete_elems [OF ok', of q] complete_elems [OF ok, of q] el
      by (auto simp: fs' split: if_splits)
    then show "stored fs' d (q * blocksize fs') (plen fs' q) \<and> sha1_spec (piece_data fs' d q) = piece_hash fs' q"
      using v by (auto simp: fs' verified_def)
  qed
  then show ?thesis using ok' by (simp add: fs')
qed

section \<open>The store as a state machine\<close>

text \<open>Everything the client does to the store while it runs, in any order and with any arguments.\<close>

inductive seg_step :: "btFileSet \<times> disk \<Rightarrow> btFileSet \<times> disk \<Rightarrow> bool" where
  get_piece: "seg_getPiece fs n = Inr (p, fs') \<Longrightarrow> seg_step (fs, d) (fs', d)"
| write_buf: "seg_writebuf fs d n offset buf len = Inr (r, fs', d') \<Longrightarrow> seg_step (fs, d) (fs', d')"
| review: "seg_review fs d n = Inr (r, fs') \<Longrightarrow> seg_step (fs, d) (fs', d)"

inductive_cases seg_stepE: "seg_step (fs, d) s"

definition store_inv :: "btFileSet \<times> disk \<Rightarrow> bool" where
  "store_inv s \<longleftrightarrow> fs_ok (fst s) \<and> disk_ok (fst s) (snd s) \<and> verified (fst s) (snd s)"

lemma seg_getPiece_keeps:
  assumes "fs_ok fs" and "seg_getPiece fs n = Inr (p, fs')"
  shows "fs_ok fs' \<and> (disk_ok fs d \<longrightarrow> disk_ok fs' d) \<and> (verified fs d \<longrightarrow> verified fs' d)"
proof -
  have "in_range fs n" using assms(2) by (auto simp: seg_getPiece_def in_range_def die_unless_def split: if_splits)
  from seg_getPiece_ok [OF assms(1) this] obtain q fs1 ps
    where "seg_getPiece fs n = Inr (q, fs1)" "fs_ok fs1" "fs1 = fs\<lparr>partial := ps\<rparr>" by blast
  then have "fs_ok fs'" "fs' = fs\<lparr>partial := ps\<rparr>" using assms(2) by simp_all
  then show ?thesis by simp
qed

lemma seg_step_inv: "seg_step s s' \<Longrightarrow> store_inv s \<Longrightarrow> store_inv s'"
proof (induction rule: seg_step.induct)
  case (get_piece fs n p fs' d)
  then show ?case using seg_getPiece_keeps [of fs n p fs' d] by (simp add: store_inv_def)
next
  case (write_buf fs d n offset buf len r fs' d')
  then show ?case using seg_writebuf_keeps [of fs d n offset buf len r fs' d'] by (simp add: store_inv_def)
next
  case (review fs d n r fs')
  then show ?case using seg_review_keeps [of fs d n r fs'] by (simp add: store_inv_def)
qed

lemma seg_steps_inv: "seg_step\<^sup>*\<^sup>* s s' \<Longrightarrow> store_inv s \<Longrightarrow> store_inv s'"
  by (induction rule: rtranclp_induct) (auto intro: seg_step_inv)

lemma nothing_complete_verified: "fs_ok fs \<Longrightarrow> bs_elems (completed fs) = {} \<Longrightarrow> verified fs d"
  by (auto simp: verified_def complete_elems)

section \<open>A torrent of two files and two pieces\<close>

lemma length_sha1_spec [simp]: "length (sha1_spec m) = 20"
  by (simp add: sha1_spec_def word_bytes_def split: prod.splits)

definition demo_fs :: btFileSet where
  "demo_fs = \<lparr>tsize = 6, ul = 0, dl = 0, left = 6, completed = kBitSet_create 2, blocksize = 4,
     fs_file = [\<lparr>bf_start = 0, bf_len = 4, bf_path = ascii ''a''\<rparr>, \<lparr>bf_start = 4, bf_len = 2, bf_path = ascii ''b''\<rparr>],
     npieces = 2, hashes = sha1_spec [1, 2, 3, 4] @ sha1_spec [5, 6],
     partial = [\<lparr>piecenumber = 1, filled = kBitSet_create 2, nextbyteReq = 0, isdone = False, pp_buffer = [0, 0]\<rparr>]\<rparr>"

definition demo_disk :: disk where
  "demo_disk = \<lparr>d_file = (\<lambda>_. None), d_writable = (\<lambda>_. True)\<rparr>"

lemma demo_fs_ok: "layout_ok demo_fs" "fs_ok demo_fs" "disk_ok demo_fs demo_disk" "verified demo_fs demo_disk"
  "plen demo_fs 1 = 2" "plen demo_fs 0 = 4" "in_range demo_fs 0" "in_range demo_fs 1"
  "piece_hash demo_fs 1 = sha1_spec [5, 6]"
proof -
  show l: "layout_ok demo_fs"
    by (simp add: layout_ok_def demo_fs_def total_len_def ascii_def)
  show p: "plen demo_fs 1 = 2" "plen demo_fs 0 = 4" "in_range demo_fs 0" and r1: "in_range demo_fs 1"
    by (simp_all add: plen_def demo_fs_def in_range_def)
  show ok: "fs_ok demo_fs"
    using l p r1 by (simp add: fs_ok_def pp_ok_def) (simp add: demo_fs_def)
  show "disk_ok demo_fs demo_disk" by (simp add: disk_ok_def demo_disk_def)
  show "verified demo_fs demo_disk"
    by (rule nothing_complete_verified [OF ok]) (simp add: demo_fs_def)
  show "piece_hash demo_fs 1 = sha1_spec [5, 6]" by (simp add: piece_hash_def demo_fs_def)
qed

definition demo_files :: disk where
  "demo_files = \<lparr>d_file = [ascii ''a'' \<mapsto> [1, 2, 3, 4], ascii ''b'' \<mapsto> [5, 6]], d_writable = (\<lambda>_. True)\<rparr>"

lemma demo_files_ok: "disk_ok demo_fs demo_files" "stored demo_fs demo_files 0 4"
  "piece_data demo_fs demo_files 0 = [1, 2, 3, 4]" "piece_hash demo_fs 0 = sha1_spec [1, 2, 3, 4]"
proof -
  show "disk_ok demo_fs demo_files" by (simp add: disk_ok_def demo_files_def)
  show "stored demo_fs demo_files 0 4"
    by (simp add: stored_def file_holds_def demo_fs_def demo_files_def content_def ascii_def touches_def)
  show "piece_hash demo_fs 0 = sha1_spec [1, 2, 3, 4]" by (simp add: piece_hash_def demo_fs_def)
  have "[0..<nat (plen demo_fs 0)] = [0, 1, 2, 3]" unfolding demo_fs_ok(6) by (simp add: upt_rec)
  then show "piece_data demo_fs demo_files 0 = [1, 2, 3, 4]"
    by (simp add: piece_data_def gbyte_def demo_fs_def demo_files_def content_def ascii_def covers_def byte_at_def)
qed

lemma demo_review:
  "\<exists>c. seg_review demo_fs demo_files 0 = Inr (1, demo_fs\<lparr>completed := c\<rparr>) \<and> bs_wf c \<and> nbits c = 2 \<and> bs_elems c = {0}"
proof -
  have b: "blocksize demo_fs = 4" "completed demo_fs = kBitSet_create 2" by (simp_all add: demo_fs_def)
  from seg_review_ok [OF demo_fs_ok(2,7), of demo_files] obtain r c
    where "seg_review demo_fs demo_files 0 = Inr (r, demo_fs\<lparr>completed := c\<rparr>)" "r = 1" "bs_wf c" "nbits c = 2"
      "bs_elems c = {0}"
    using demo_files_ok b demo_fs_ok(6) by auto
  then show ?thesis by blast
qed

section \<open>What the store promises\<close>

lemma stored_sub:
  assumes "stored fs d a n" and "a \<le> x" and "x + m \<le> a + n"
  shows "stored fs d x m"
  using assms unfolding stored_def file_holds_def touches_def by fastforce



text \<open>
  C14. Whatever pieces are requested, whatever packets arrive and whatever is reviewed, in any
  order: every piece marked complete is on the disk, readable, with the digest the torrent
  announces for it.
\<close>

theorem store_stays_verified:
  assumes "seg_step\<^sup>*\<^sup>* (fs, d) (fs', d')" and "fs_ok fs" and "disk_ok fs d" and "bs_elems (completed fs) = {}"
    and "complete fs' piece"
  shows "stored fs' d' (piece * blocksize fs') (plen fs' piece) \<and>
    sha1_spec (piece_data fs' d' piece) = piece_hash fs' piece"
proof -
  have "store_inv (fs, d)" using assms(2-4) nothing_complete_verified by (simp add: store_inv_def)
  then have "store_inv (fs', d')" by (rule seg_steps_inv [OF assms(1)])
  then show ?thesis using assms(5) by (simp add: store_inv_def verified_def)
qed

theorem store_stays_verified_witness:
  "\<exists>fs'. seg_step\<^sup>*\<^sup>* (demo_fs, demo_files) (fs', demo_files) \<and> complete fs' 0 \<and>
     sha1_spec (piece_data fs' demo_files 0) = piece_hash fs' 0"
proof -
  obtain c where c: "seg_review demo_fs demo_files 0 = Inr (1, demo_fs\<lparr>completed := c\<rparr>)" "bs_wf c" "nbits c = 2"
    "bs_elems c = {0}" using demo_review by blast
  let ?fs = "demo_fs\<lparr>completed := c\<rparr>"
  have steps: "seg_step\<^sup>*\<^sup>* (demo_fs, demo_files) (?fs, demo_files)" using c(1) by (blast intro: review)
  have e: "bs_elems (completed demo_fs) = {}" "nbits (completed demo_fs) = 2" by (simp_all add: demo_fs_def)
  have "fs_ok ?fs" using demo_fs_ok(2) c e(2) by (simp add: fs_ok_def)
  then have cpl: "complete ?fs 0" using complete_elems [of ?fs 0] c(4) by simp
  show ?thesis using store_stays_verified [OF steps demo_fs_ok(2) demo_files_ok(1) e(1) cpl] steps cpl by blast
qed

text \<open>
  C15. \<open>seg_readbuf\<close> refuses a piece that is not complete. Of a complete one it returns exactly
  the bytes of the requested range of the verified piece, gathered from all the files it spans.
\<close>

theorem seg_readbuf_returns:
  assumes "fs_ok fs" and "verified fs d" and "in_range fs piece"
    and "0 \<le> start" and "0 < len" and "start + len \<le> plen fs piece" and "length buf = nat len"
  shows "seg_readbuf fs d piece start buf len =
    (if complete fs piece then Inr (0, take (nat len) (drop (nat start) (piece_data fs d piece)))
     else Inr (- 1, buf))"
proof (cases "complete fs piece")
  case False
  then show ?thesis using completed_spec(3) [OF assms(1,3)] by (simp add: seg_readbuf_def)
next
  case True
  have l: "layout_ok fs" using assms(1) by (simp add: fs_ok_def)
  note b = plen_bounds [OF l assms(3)]
  have "stored fs d (piece * blocksize fs + start) len"
    by (rule stored_sub [of fs d "piece * blocksize fs" "plen fs piece"])
      (use assms True in \<open>auto simp: verified_def\<close>)
  then have "seg_read_files fs d (fs_file fs) (piece * blocksize fs + start) len buf =
      Inr (0, map (\<lambda>i. gbyte fs d (piece * blocksize fs + start + int i)) [0..<nat len])"
    using seg_read_all [OF l assms(5) _ assms(7), of "piece * blocksize fs + start" d] assms b by auto
  moreover have "map (\<lambda>i. gbyte fs d (piece * blocksize fs + start + int i)) [0..<nat len] =
      take (nat len) (drop (nat start) (piece_data fs d piece))"
    by (rule nth_equalityI) (use assms in \<open>auto simp: piece_data_def add.assoc\<close>)
  ultimately show ?thesis using True completed_spec(3) [OF assms(1,3)] by (simp add: seg_readbuf_def)
qed

theorem seg_readbuf_returns_witness:
  "seg_readbuf demo_fs demo_disk 1 0 [9, 9] 2 = Inr (- 1, [9, 9])"
proof -
  have "\<not> complete demo_fs 1" using complete_elems [OF demo_fs_ok(2), of 1] by (simp add: demo_fs_def)
  then show ?thesis
    using seg_readbuf_returns [OF demo_fs_ok(2,4,8), of 0 2 "[9, 9]"] demo_fs_ok(5) by simp
qed

text \<open>
  C16. \<open>seg_review\<close> marks a piece complete exactly when all of it can be read and its digest is the
  announced one (result 1), unmarks it otherwise (0 for a wrong digest, -1 for missing data), and
  leaves every other mark alone.
\<close>

theorem seg_review_decides:
  assumes "fs_ok fs" and "in_range fs piece"
  shows "\<exists>r c. seg_review fs d piece = Inr (r, fs\<lparr>completed := c\<rparr>) \<and> r \<in> {- 1, 0, 1} \<and>
    (r = 1 \<longleftrightarrow> stored fs d (piece * blocksize fs) (plen fs piece) \<and>
      sha1_spec (piece_data fs d piece) = piece_hash fs piece) \<and>
    bs_elems c = (if r = 1 then insert (nat piece) (bs_elems (completed fs))
      else bs_elems (completed fs) - {nat piece})"
  using seg_review_ok [OF assms, of d] by auto

theorem seg_review_decides_witness:
  "\<exists>c. seg_review demo_fs demo_files 0 = Inr (1, demo_fs\<lparr>completed := c\<rparr>) \<and> bs_elems c = {0}"
proof -
  have "blocksize demo_fs = 4" "completed demo_fs = kBitSet_create 2" by (simp_all add: demo_fs_def)
  then show ?thesis
    using seg_review_decides [OF demo_fs_ok(2,7), of demo_files] demo_files_ok demo_fs_ok(6) by auto
qed

text \<open>
  The pieces partition the data: every address of the torrent lies in exactly one piece, at
  less than \<open>seg_piecelen\<close> from its start.
\<close>

theorem pieces_partition:
  assumes "layout_ok fs" and "0 \<le> a" and "a < tsize fs"
  shows "\<exists>!piece. in_range fs piece \<and>
    (\<exists>len. seg_piecelen fs piece = Inr len \<and> piece * blocksize fs \<le> a \<and> a < piece * blocksize fs + len)"
proof (rule ex1I)
  let ?p = "a div blocksize fs"
  have b: "0 < blocksize fs" "tsize fs \<le> npieces fs * blocksize fs" using assms(1) by (simp_all add: layout_ok_def)
  have d: "?p * blocksize fs \<le> a" "a < ?p * blocksize fs + blocksize fs"
    using pos_mod_bound [OF b(1), of a] pos_mod_sign [OF b(1), of a] div_mult_mod_eq [of a "blocksize fs"]
    by linarith+
  have less: "x < y" if "x * blocksize fs < y * blocksize fs" for x y
    by (rule mult_right_less_imp_less [OF that]) (use b(1) in linarith)
  have step: "(x + 1) * blocksize fs = x * blocksize fs + blocksize fs" for x by (simp add: distrib_right)
  have "?p * blocksize fs < npieces fs * blocksize fs" using d(1) assms(3) b(2) by linarith
  then have "?p < npieces fs" by (rule less)
  moreover have "0 \<le> ?p" using b(1) assms(2) by (simp add: pos_imp_zdiv_nonneg_iff)
  ultimately have r: "in_range fs ?p" by (simp add: in_range_def)
  show "in_range fs ?p \<and> (\<exists>len. seg_piecelen fs ?p = Inr len \<and> ?p * blocksize fs \<le> a \<and> a < ?p * blocksize fs + len)"
    using r seg_piecelen_ok [OF assms(1) r] d assms(3) by (simp add: plen_def)
  fix q assume q: "in_range fs q \<and>
    (\<exists>len. seg_piecelen fs q = Inr len \<and> q * blocksize fs \<le> a \<and> a < q * blocksize fs + len)"
  then have "q * blocksize fs \<le> a" "a < q * blocksize fs + blocksize fs"
    using seg_piecelen_ok [OF assms(1), of q] by (auto simp: plen_def)
  then have "q * blocksize fs < (?p + 1) * blocksize fs" "?p * blocksize fs < (q + 1) * blocksize fs"
    using d step [of ?p] step [of q] by linarith+
  then have "q < ?p + 1" "?p < q + 1" by (blast intro: less)+
  then show "q = ?p" by simp
qed

theorem pieces_partition_witness:
  "\<exists>!piece. in_range demo_fs piece \<and> (\<exists>len. seg_piecelen demo_fs piece = Inr len \<and>
     piece * blocksize demo_fs \<le> 5 \<and> 5 < piece * blocksize demo_fs + len)"
  using pieces_partition [OF demo_fs_ok(1), of 5] by (simp add: demo_fs_def)

text \<open>
  \<open>seg_findFile\<close> tests the end of a file with \<open>>=\<close>: for a piece that begins where the first
  file ends it answers that first file, which holds no byte of the piece.
\<close>

theorem seg_findFile_boundary:
  assumes "layout_ok fs" and "in_range fs piece" and "fs_file fs = g # files"
    and "bf_len g = piece * blocksize fs"
  shows "seg_findFile fs piece = Inr g \<and>
    (\<forall>a. piece * blocksize fs \<le> a \<and> a < piece * blocksize fs + plen fs piece \<longrightarrow> \<not> covers g a)"
proof -
  have "bf_start g = 0" using assms(1,3) by (simp add: layout_ok_def)
  then show ?thesis
    using assms(3,4) plen_bounds [OF assms(1,2)] seg_piecelen_ok [OF assms(1,2)]
    by (auto simp: seg_findFile_def touches_def covers_def)
qed

theorem seg_findFile_boundary_witness:
  "seg_findFile demo_fs 1 = Inr \<lparr>bf_start = 0, bf_len = 4, bf_path = ascii ''a''\<rparr> \<and>
   \<not> covers \<lparr>bf_start = 0, bf_len = 4, bf_path = ascii ''a''\<rparr> 5"
proof -
  have "fs_file demo_fs = \<lparr>bf_start = 0, bf_len = 4, bf_path = ascii ''a''\<rparr> #
      [\<lparr>bf_start = 4, bf_len = 2, bf_path = ascii ''b''\<rparr>]" by (simp add: demo_fs_def)
  from seg_findFile_boundary [OF demo_fs_ok(1,8) this] show ?thesis
    by (simp add: demo_fs_def plen_def)
qed

end
