(* ===== verification/Bt_Reqqueue.thy ===== *)
theory Bt_Reqqueue
  imports Bt_Prelude
begin

text \<open>
  The request queues of \<open>peer.c\<close>: a ring of \<open>QUEUESIZE\<close> requests, one for the requests sent
  to a peer (\<open>inqueue\<close>) and one for those it sent (\<open>queue\<close>). One slot stays free, so a ring
  holds 29 requests. The interface the callers rely on is a bounded first-in first-out
  queue, stated as a locale that the ring is an instance of.
\<close>

section \<open>The interface\<close>

text \<open>Handing a list of items to an operation one after another, and taking a number of items out.\<close>

primrec feed :: "('q \<Rightarrow> 'a \<Rightarrow> fault + int \<times> 'q) \<Rightarrow> 'a list \<Rightarrow> 'q \<Rightarrow> fault + int list \<times> 'q" where
  "feed enq [] q = Inr ([], q)"
| "feed enq (x # xs) q =
     bindR (enq q x) (\<lambda>(r, q). bindR (feed enq xs q) (\<lambda>(rs, q). Inr (r # rs, q)))"

primrec drain :: "('q \<Rightarrow> fault + 'a option \<times> 'q) \<Rightarrow> nat \<Rightarrow> 'q \<Rightarrow> fault + 'a option list \<times> 'q" where
  "drain deq 0 q = Inr ([], q)"
| "drain deq (Suc n) q =
     bindR (deq q) (\<lambda>(r, q). bindR (drain deq n q) (\<lambda>(rs, q). Inr (r # rs, q)))"

text \<open>
  A queue with room for \<open>room\<close> items: an item that fits goes to the end or, with no room, is
  refused with \<open>-2\<close>; items leave from the front.
\<close>

locale bounded_fifo =
  fixes inv :: "'q \<Rightarrow> bool"
    and elems :: "'q \<Rightarrow> 'a list"
    and room :: nat
    and fits :: "'a \<Rightarrow> bool"
    and enq :: "'q \<Rightarrow> 'a \<Rightarrow> fault + int \<times> 'q"
    and deq :: "'q \<Rightarrow> fault + 'a option \<times> 'q"
  assumes enq_ok: "inv q \<Longrightarrow> fits x \<Longrightarrow> length (elems q) < room \<Longrightarrow>
      \<exists>q'. enq q x = Inr (0, q') \<and> inv q' \<and> elems q' = elems q @ [x]"
    and enq_full: "inv q \<Longrightarrow> fits x \<Longrightarrow> length (elems q) = room \<Longrightarrow> enq q x = Inr (- 2, q)"
    and deq_some: "inv q \<Longrightarrow> elems q = x # xs \<Longrightarrow> \<exists>q'. deq q = Inr (Some x, q') \<and> inv q' \<and> elems q' = xs"
    and deq_none: "inv q \<Longrightarrow> elems q = [] \<Longrightarrow> deq q = Inr (None, q)"
begin

lemma feed_ok:
  assumes "inv q" and "list_all fits xs" and "length (elems q) + length xs \<le> room"
  shows "\<exists>q'. feed enq xs q = Inr (replicate (length xs) 0, q') \<and> inv q' \<and> elems q' = elems q @ xs"
  using assms
proof (induction xs arbitrary: q)
  case Nil
  then show ?case by simp
next
  case (Cons x xs)
  obtain q1 where q1: "enq q x = Inr (0, q1)" "inv q1" "elems q1 = elems q @ [x]"
    using enq_ok [of q x] Cons.prems by auto
  then obtain q2 where "feed enq xs q1 = Inr (replicate (length xs) 0, q2)" "inv q2" "elems q2 = elems q1 @ xs"
    using Cons.IH [of q1] Cons.prems by auto
  then show ?case using q1 by simp
qed

lemma drain_ok:
  assumes "inv q" and "elems q = xs @ ys"
  shows "\<exists>q'. drain deq (length xs) q = Inr (map Some xs, q') \<and> inv q' \<and> elems q' = ys"
  using assms
proof (induction xs arbitrary: q)
  case Nil
  then show ?case by simp
next
  case (Cons x xs)
  obtain q1 where q1: "deq q = Inr (Some x, q1)" "inv q1" "elems q1 = xs @ ys"
    using deq_some [of q x "xs @ ys"] Cons.prems by auto
  then show ?case using Cons.IH [of q1] by auto
qed

text \<open>What is put in comes out in the same order, behind what was there before.\<close>

lemma feed_drain:
  assumes "inv q" and "list_all fits xs" and "length (elems q) + length xs \<le> room"
  shows "\<exists>q1 q2. feed enq xs q = Inr (replicate (length xs) 0, q1) \<and>
    drain deq (length (elems q) + length xs) q1 = Inr (map Some (elems q @ xs), q2) \<and>
    inv q2 \<and> elems q2 = [] \<and> deq q2 = Inr (None, q2)"
proof -
  obtain q1 where q1: "feed enq xs q = Inr (replicate (length xs) 0, q1)" "inv q1" "elems q1 = elems q @ xs"
    using feed_ok [OF assms] by blast
  then obtain q2 where "drain deq (length (elems q @ xs)) q1 = Inr (map Some (elems q @ xs), q2)" "inv q2"
      "elems q2 = []"
    using drain_ok [of q1 "elems q @ xs" "[]"] by auto
  then show ?thesis using q1 deq_none [of q2] by auto
qed

end

section \<open>The ring\<close>

definition QUEUESIZE :: nat where "QUEUESIZE = 30"
definition MAXREQUEST :: int where "MAXREQUEST = 64 * 1024"

record btRequest =
  rq_block :: int
  rq_offset :: int
  rq_length :: int

record btRequestQueue =
  q_head :: nat
  q_tail :: nat
  q_req :: "btRequest list"

text \<open>The state \<open>btcalloc\<close> leaves.\<close>

definition rq_empty :: btRequestQueue where
  "rq_empty = \<lparr>q_head = 0, q_tail = 0,
     q_req = replicate QUEUESIZE \<lparr>rq_block = 0, rq_offset = 0, rq_length = 0\<rparr>\<rparr>"

definition queue_request :: "btRequestQueue \<Rightarrow> int \<Rightarrow> int \<Rightarrow> int \<Rightarrow> fault + int \<times> btRequestQueue" where
  "queue_request q piece offset len =
     (let oldtail = q_tail q; newtail = (oldtail + 1) mod QUEUESIZE in
      if len > MAXREQUEST then Inr (- 1, q)
      else if newtail = q_head q then Inr (- 2, q)
      else bindR (arr_set (q_req q) (int oldtail) \<lparr>rq_block = piece, rq_offset = offset, rq_length = len\<rparr>)
        (\<lambda>r. Inr (0, q\<lparr>q_req := r, q_tail := newtail\<rparr>)))"

definition clear_request_queue :: "btRequestQueue \<Rightarrow> btRequestQueue" where
  "clear_request_queue q = q\<lparr>q_head := q_tail q\<rparr>"

text \<open>
  The loop of \<open>remove_queued_request\<close>. \<open>head\<close> and \<open>tail\<close> are only ever assigned values below
  \<open>QUEUESIZE\<close>; an index beyond that would leave the array.
\<close>

definition same_request :: "btRequest \<Rightarrow> int \<Rightarrow> int \<Rightarrow> int \<Rightarrow> bool" where
  "same_request r blk offset len \<longleftrightarrow> rq_block r = blk \<and> rq_offset r = offset \<and> rq_length r = len"

function remove_loop ::
    "btRequest list \<Rightarrow> nat \<Rightarrow> nat \<Rightarrow> nat \<Rightarrow> (btRequest \<Rightarrow> bool) \<Rightarrow> fault + btRequest list \<times> nat" where
  "remove_loop req i tail offby match =
     (if i = tail then Inr (req, offby)
      else if QUEUESIZE \<le> i \<or> QUEUESIZE \<le> tail then Inl Oob
      else
        bindR (arr_get req (int i)) (\<lambda>r.
        let offby = (if match r then offby + 1 else offby) in
        bindR (if offby \<noteq> 0
               then bindR (arr_get req (int ((i + offby) mod QUEUESIZE))) (arr_set req (int i))
               else Inr req) (\<lambda>req.
        remove_loop req ((i + 1) mod QUEUESIZE) tail offby match)))"
  by pat_completeness auto
termination
proof (relation "measure (\<lambda>(req, i, tail, offby, match). (tail + QUEUESIZE - i) mod QUEUESIZE)", goal_cases)
  case 1
  show ?case by simp
next
  case (2 req i tail offby match r offby' req')
  then have "i \<noteq> tail" "i < 30" "tail < 30" by (auto simp: QUEUESIZE_def)
  then have "(tail + 30 - (i + 1) mod 30) mod 30 < (tail + 30 - i) mod 30"
    by (cases "i = 29") (auto simp: mod_if)
  then show ?case by (simp add: QUEUESIZE_def)
qed

declare remove_loop.simps [simp del]

definition remove_queued_request ::
    "btRequestQueue \<Rightarrow> int \<Rightarrow> int \<Rightarrow> int \<Rightarrow> fault + int \<times> btRequestQueue" where
  "remove_queued_request q blk offset len =
     bindR (remove_loop (q_req q) (q_head q) (q_tail q) 0 (\<lambda>r. same_request r blk offset len))
       (\<lambda>(req, offby).
          Inr (int offby, q\<lparr>q_req := req, q_tail := (q_tail q + QUEUESIZE - offby) mod QUEUESIZE\<rparr>))"

text \<open>\<open>NULL\<close> is \<open>None\<close>; the callers read the request before they queue another.\<close>

definition dequeue_request :: "btRequestQueue \<Rightarrow> fault + btRequest option \<times> btRequestQueue" where
  "dequeue_request q =
     (let oldhead = q_head q; newhead = (oldhead + 1) mod QUEUESIZE in
      if oldhead = q_tail q then Inr (None, q)
      else bindR (arr_get (q_req q) (int oldhead)) (\<lambda>r. Inr (Some r, q\<lparr>q_head := newhead\<rparr>)))"

definition queue_len :: "btRequestQueue \<Rightarrow> int" where
  "queue_len q =
     (let ct = int (q_tail q) - int (q_head q) in if ct < 0 then ct + int QUEUESIZE else ct)"

section \<open>The list a ring stands for\<close>

definition rq_ok :: "btRequestQueue \<Rightarrow> bool" where
  "rq_ok q \<longleftrightarrow> q_head q < QUEUESIZE \<and> q_tail q < QUEUESIZE \<and> length (q_req q) = QUEUESIZE"

definition rq_count :: "btRequestQueue \<Rightarrow> nat" where
  "rq_count q = (q_tail q + QUEUESIZE - q_head q) mod QUEUESIZE"

definition rq_list :: "btRequestQueue \<Rightarrow> btRequest list" where
  "rq_list q = map (\<lambda>i. q_req q ! ((q_head q + i) mod QUEUESIZE)) [0..<rq_count q]"

lemma rq_ok_empty [simp, bt_wf]: "rq_ok rq_empty"
  by (simp add: rq_ok_def rq_empty_def QUEUESIZE_def)

lemma rq_list_empty [simp]: "rq_list rq_empty = []"
  by (simp add: rq_list_def rq_count_def rq_empty_def QUEUESIZE_def)

lemma length_rq_list [simp]: "length (rq_list q) = rq_count q"
  by (simp add: rq_list_def)

lemma rq_count_less: "rq_count q < QUEUESIZE"
  by (simp add: rq_count_def QUEUESIZE_def)

lemma queue_len_eq: "rq_ok q \<Longrightarrow> queue_len q = int (length (rq_list q))"
  by (auto simp: queue_len_def rq_count_def rq_ok_def QUEUESIZE_def Let_def mod_if)

lemma clear_request_queue_spec:
  "rq_ok q \<Longrightarrow> rq_ok (clear_request_queue q) \<and> rq_list (clear_request_queue q) = []"
  by (simp add: rq_ok_def clear_request_queue_def rq_list_def rq_count_def QUEUESIZE_def)

lemma rq_count_step:
  assumes "rq_ok q"
  shows "(q_tail q + 1) mod QUEUESIZE = q_head q \<longleftrightarrow> rq_count q = QUEUESIZE - 1"
    and "q_head q = q_tail q \<longleftrightarrow> rq_count q = 0"
    and "(q_head q + rq_count q) mod QUEUESIZE = q_tail q"
  using assms by (auto simp: rq_ok_def rq_count_def QUEUESIZE_def mod_if)

lemma ring_inj: "i < QUEUESIZE \<Longrightarrow> j < QUEUESIZE \<Longrightarrow> h < QUEUESIZE \<Longrightarrow>
    (h + i) mod QUEUESIZE = (h + j) mod QUEUESIZE \<longleftrightarrow> i = j"
  by (auto simp: QUEUESIZE_def mod_if split: if_splits)

lemma queue_request_spec:
  assumes "rq_ok q"
  shows "queue_request q piece offset len =
    (if len > MAXREQUEST then Inr (- 1, q)
     else if rq_count q = QUEUESIZE - 1 then Inr (- 2, q)
     else Inr (0, q\<lparr>q_req := (q_req q)[q_tail q := \<lparr>rq_block = piece, rq_offset = offset, rq_length = len\<rparr>],
                    q_tail := (q_tail q + 1) mod QUEUESIZE\<rparr>))"
  using assms rq_count_step(1) [OF assms]
  by (simp add: queue_request_def Let_def rq_ok_def)

lemma queue_request_ok:
  assumes "rq_ok q" and "len \<le> MAXREQUEST" and "length (rq_list q) < QUEUESIZE - 1"
  obtains q' where "queue_request q piece offset len = Inr (0, q')" and "rq_ok q'"
    and "rq_list q' = rq_list q @ [\<lparr>rq_block = piece, rq_offset = offset, rq_length = len\<rparr>]"
proof -
  let ?r = "\<lparr>rq_block = piece, rq_offset = offset, rq_length = len\<rparr>"
  let ?q = "q\<lparr>q_req := (q_req q)[q_tail q := ?r], q_tail := (q_tail q + 1) mod QUEUESIZE\<rparr>"
  have cnt: "rq_count ?q = Suc (rq_count q)"
    using assms(1,3) by (auto simp: rq_ok_def rq_count_def QUEUESIZE_def mod_if split: if_splits)
  have len: "length (q_req q) = QUEUESIZE" "q_head q < QUEUESIZE" "q_tail q < QUEUESIZE"
    using assms(1) by (simp_all add: rq_ok_def)
  have at: "(q_req q)[q_tail q := ?r] ! ((q_head q + i) mod QUEUESIZE) =
      (if i = rq_count q then ?r else q_req q ! ((q_head q + i) mod QUEUESIZE))" if "i \<le> rq_count q" for i
    using ring_inj [of i "rq_count q" "q_head q"] that rq_count_less [of q] rq_count_step(3) [OF assms(1)] len
    by (auto simp: nth_list_update)
  have "rq_list ?q = rq_list q @ [?r]"
    unfolding rq_list_def cnt by (simp add: at)
  moreover have "rq_ok ?q" using assms(1) by (simp add: rq_ok_def QUEUESIZE_def)
  moreover have "queue_request q piece offset len = Inr (0, ?q)"
    using assms by (simp add: queue_request_spec)
  ultimately show thesis using that by blast
qed

lemma dequeue_request_ok:
  assumes "rq_ok q" and "rq_list q = r # rs"
  obtains q' where "dequeue_request q = Inr (Some r, q')" and "rq_ok q'" and "rq_list q' = rs"
proof -
  let ?q = "q\<lparr>q_head := (q_head q + 1) mod QUEUESIZE\<rparr>"
  have pos: "rq_count q \<noteq> 0" using assms(2) length_rq_list [of q] by auto
  have cnt: "rq_count q = Suc (rq_count ?q)"
    using assms(1) pos by (auto simp: rq_ok_def rq_count_def QUEUESIZE_def mod_if split: if_splits)
  have shift: "(Suc (q_head q) mod QUEUESIZE + i) mod QUEUESIZE = Suc (q_head q + i) mod QUEUESIZE" for i
    by (simp add: mod_add_left_eq)
  have r: "r = q_req q ! q_head q"
    using arg_cong [OF assms(2), of hd] assms(1) pos
    by (simp add: rq_list_def upt_rec rq_ok_def)
  have "rq_list q = q_req q ! q_head q # rq_list ?q"
    using assms(1) unfolding rq_list_def cnt upt_conv_Cons [OF zero_less_Suc] map_Suc_upt [symmetric]
    by (simp add: shift rq_ok_def)
  with assms(2) have "rq_list ?q = rs" by simp
  moreover have "rq_ok ?q" using assms(1) by (simp add: rq_ok_def QUEUESIZE_def)
  moreover have "dequeue_request q = Inr (Some r, ?q)"
    using assms(1) pos rq_count_step(2) [OF assms(1)] r by (simp add: dequeue_request_def Let_def rq_ok_def)
  ultimately show thesis using that by blast
qed

lemma dequeue_request_none: "rq_ok q \<Longrightarrow> rq_list q = [] \<Longrightarrow> dequeue_request q = Inr (None, q)"
  using rq_count_step(2) [of q] length_rq_list [of q] by (simp add: dequeue_request_def)

section \<open>Removal\<close>

text \<open>
  What the loop leaves at a position: the entry as many places further on as matches have been
  seen up to that position, itself included.
\<close>

definition seen :: "(btRequest \<Rightarrow> bool) \<Rightarrow> btRequest list \<Rightarrow> nat \<Rightarrow> nat" where
  "seen match rs j = length (filter match (take (Suc j) rs))"

definition squeeze :: "(btRequest \<Rightarrow> bool) \<Rightarrow> btRequest list \<Rightarrow> btRequest list" where
  "squeeze match rs = map (\<lambda>j. rs ! (j + seen match rs j)) [0..<length rs - length (filter match rs)]"

lemma remove_loop_step:
  assumes "i \<noteq> tail" and "i < QUEUESIZE" and "tail < QUEUESIZE" and "length req = QUEUESIZE"
  shows "remove_loop req i tail off match =
    (let off' = (if match (req ! i) then off + 1 else off)
     in remove_loop (if off' \<noteq> 0 then req[i := req ! ((i + off') mod QUEUESIZE)] else req)
          ((i + 1) mod QUEUESIZE) tail off' match)"
proof -
  have "arr_get req (int i) = Inr (req ! i)" "arr_set req (int i) v = Inr (req[i := v])"
    "arr_get req (int (m mod QUEUESIZE)) = Inr (req ! (m mod QUEUESIZE))" for v m
    using assms by (simp_all add: arr_get_def arr_set_def nat_mod_distrib QUEUESIZE_def)
  then show ?thesis using assms by (subst remove_loop.simps) (simp add: Let_def)
qed

lemma remove_loop_run:
  fixes match :: "btRequest \<Rightarrow> bool"
  defines "cell \<equiv> \<lambda>rs h j. rs ! ((h + j) mod QUEUESIZE)"
  assumes "k \<le> n" and "n < QUEUESIZE" and "h < QUEUESIZE" and "length req = QUEUESIZE"
  shows "\<exists>req'. remove_loop req ((h + k) mod QUEUESIZE) ((h + n) mod QUEUESIZE) off match =
      Inr (req', off + length (filter (\<lambda>m. match (cell req h m)) [k..<n])) \<and> length req' = QUEUESIZE \<and>
    (\<forall>j < n. cell req' h j = (if j < k then cell req h j else
       let c = off + length (filter (\<lambda>m. match (cell req h m)) [k..<Suc j])
       in if j + c < n then cell req h (j + c) else cell req' h j))"
  using assms(2-)
proof (induction "n - k" arbitrary: k req off)
  case 0
  then show ?case by (subst remove_loop.simps) auto
next
  case (Suc d)
  then have kn: "k < n" by simp
  define i where "i = (h + k) mod QUEUESIZE"
  define off' where "off' = (if match (cell req h k) then off + 1 else off)"
  define req1 where "req1 = (if off' \<noteq> 0 then req[i := cell req h (k + off')] else req)"
  have ne: "(h + k) mod QUEUESIZE \<noteq> (h + n) mod QUEUESIZE"
    using ring_inj [of k n h] kn Suc.prems by auto
  have lt: "(x::nat) mod QUEUESIZE < QUEUESIZE" for x by (simp add: QUEUESIZE_def)
  have nxt: "((h + k) mod QUEUESIZE + m) mod QUEUESIZE = (h + (k + m)) mod QUEUESIZE" for m
    by (simp add: mod_add_left_eq add.assoc)
  have step: "remove_loop req i ((h + n) mod QUEUESIZE) off match =
      remove_loop req1 ((h + Suc k) mod QUEUESIZE) ((h + n) mod QUEUESIZE) off' match"
    using remove_loop_step [OF ne lt lt Suc.prems(4), of off match] nxt [of 1] nxt [of off']
    by (simp only: i_def cell_def off'_def req1_def Let_def add_Suc_right add_0_right One_nat_def)
  have len1: "length req1 = QUEUESIZE" using Suc.prems by (simp add: req1_def)
  have same: "cell req1 h j = cell req h j" if "j < QUEUESIZE" "j \<noteq> k" for j
    using ring_inj [of j k h] that Suc.prems kn by (auto simp: req1_def cell_def i_def)
  have at_k: "cell req1 h k = cell req h (k + off')"
    using Suc.prems lt by (simp add: req1_def cell_def i_def)
  have "d = n - Suc k" using Suc.hyps(2) by simp
  from Suc.hyps(1) [OF this Suc_leI [OF kn] Suc.prems(2,3) len1, of off']
  obtain req' where run: "remove_loop req1 ((h + Suc k) mod QUEUESIZE) ((h + n) mod QUEUESIZE) off' match =
      Inr (req', off' + length (filter (\<lambda>m. match (cell req1 h m)) [Suc k..<n]))"
    and len': "length req' = QUEUESIZE"
    and res0: "\<forall>j < n. cell req' h j = (if j < Suc k then cell req1 h j else
       let c = off' + length (filter (\<lambda>m. match (cell req1 h m)) [Suc k..<Suc j])
       in if j + c < n then cell req1 h (j + c) else cell req' h j)"
    by blast
  note res = res0 [rule_format]
  have flt: "filter (\<lambda>m. match (cell req1 h m)) [Suc k..<e] = filter (\<lambda>m. match (cell req h m)) [Suc k..<e]"
    if "e \<le> n" for e
    using that Suc.prems by (intro filter_cong) (auto simp: same)
  have cnt: "off' + length (filter (\<lambda>m. match (cell req h m)) [Suc k..<e]) =
      off + length (filter (\<lambda>m. match (cell req h m)) [k..<e])" if "k < e" for e
    using that by (simp add: upt_conv_Cons off'_def)
  have "cell req' h j = (if j < k then cell req h j else
       let c = off + length (filter (\<lambda>m. match (cell req h m)) [k..<Suc j])
       in if j + c < n then cell req h (j + c) else cell req' h j)" if "j < n" for j
  proof -
    consider "j < k" | "j = k" | "k < j" by linarith
    then show ?thesis
    proof cases
      case 1
      then show ?thesis using res [OF that] same [of j] that Suc.prems by simp
    next
      case 2
      then show ?thesis using res [OF that] at_k cnt [of "Suc k"] by (simp add: Let_def)
    next
      case 3
      then show ?thesis using res [OF that] same Suc.prems(2) cnt [of "Suc j"] flt [of "Suc j"] that
        by (auto simp: Let_def simp del: upt_Suc)
    qed
  qed
  then show ?case
    using step run len' cnt [OF kn] flt [of n] unfolding i_def by auto
qed

lemma remove_queued_request_squeezes:
  assumes "rq_ok q"
  obtains q' where
    "remove_queued_request q blk offset len =
       Inr (int (length (filter (\<lambda>r. same_request r blk offset len) (rq_list q))), q')"
    and "rq_ok q'" and "rq_list q' = squeeze (\<lambda>r. same_request r blk offset len) (rq_list q)"
    and "q_head q' = q_head q"
proof -
  let ?m = "\<lambda>r. same_request r blk offset len"
  let ?h = "q_head q" and ?n = "rq_count q"
  let ?at = "\<lambda>rs j. rs ! ((?h + j) mod QUEUESIZE)"
  define c where "c = length (filter ?m (rq_list q))"
  have flt: "length (filter (\<lambda>j. ?m (?at (q_req q) j)) [0..<e]) = length (filter ?m (take e (rq_list q)))"
    if "e \<le> ?n" for e
    using that by (simp add: rq_list_def take_map filter_map o_def)
  have "c \<le> ?n" using length_filter_le [of ?m "rq_list q"] by (simp add: c_def)
  obtain req' where run: "remove_loop (q_req q) ?h (q_tail q) 0 ?m = Inr (req', c)"
    and len: "length req' = QUEUESIZE"
    and res: "\<And>j. j < ?n \<Longrightarrow> ?at req' j = (let k = length (filter (\<lambda>j. ?m (?at (q_req q) j)) [0..<Suc j])
        in if j + k < ?n then ?at (q_req q) (j + k) else ?at req' j)"
    using remove_loop_run [of 0 ?n ?h "q_req q" 0 ?m] rq_count_less [of q] assms rq_count_step(3) [OF assms]
      flt [of ?n] by (auto simp: rq_ok_def c_def)
  let ?q = "q\<lparr>q_req := req', q_tail := (q_tail q + QUEUESIZE - c) mod QUEUESIZE\<rparr>"
  have ok: "rq_ok ?q" using assms len by (simp add: rq_ok_def QUEUESIZE_def)
  have cnt: "rq_count ?q = ?n - c"
    using assms \<open>c \<le> ?n\<close> by (auto simp: rq_ok_def rq_count_def QUEUESIZE_def mod_if split: if_splits)
  have "?at req' j = rq_list q ! (j + seen ?m (rq_list q) j)" if "j < ?n - c" for j
  proof -
    have "seen ?m (rq_list q) j \<le> c"
      unfolding seen_def c_def
      by (metis append_take_drop_id filter_append le_add1 length_append)
    then have lt: "j + seen ?m (rq_list q) j < ?n" using that by linarith
    have "length (filter (\<lambda>j. ?m (?at (q_req q) j)) [0..<Suc j]) = seen ?m (rq_list q) j"
      using flt [of "Suc j"] that by (simp add: seen_def)
    then have "?at req' j = ?at (q_req q) (j + seen ?m (rq_list q) j)"
      using res [of j] that lt by (simp add: Let_def)
    also have "\<dots> = rq_list q ! (j + seen ?m (rq_list q) j)"
      using lt by (simp add: rq_list_def)
    finally show ?thesis .
  qed
  then have "rq_list ?q = squeeze ?m (rq_list q)"
    unfolding squeeze_def rq_list_def [of ?q] cnt by (simp add: c_def)
  moreover have "remove_queued_request q blk offset len = Inr (int c, ?q)"
    using run by (simp add: remove_queued_request_def)
  ultimately show thesis using that ok by (simp add: c_def)
qed

lemma squeeze_none: "filter match rs = [] \<Longrightarrow> squeeze match rs = rs"
proof -
  assume no: "filter match rs = []"
  then have "filter match (take m rs) = []" for m by (auto simp: filter_empty_conv dest: in_set_takeD)
  then show ?thesis using no by (intro nth_equalityI) (simp_all add: squeeze_def seen_def)
qed

lemma squeeze_one:
  assumes "match r" and "filter match (xs @ ys) = []"
  shows "squeeze match (xs @ r # ys) = xs @ ys"
proof (rule nth_equalityI)
  have no: "filter match xs = []" "filter match ys = []" using assms(2) by simp_all
  then show len: "length (squeeze match (xs @ r # ys)) = length (xs @ ys)"
    using assms(1) by (simp add: squeeze_def)
  have none: "filter match (take m xs) = []" "filter match (take m ys) = []" for m
    using no by (auto simp: filter_empty_conv dest: in_set_takeD)
  fix j assume "j < length (squeeze match (xs @ r # ys))"
  then have j: "j < length xs + length ys" using len by simp
  have "seen match (xs @ r # ys) j = (if j < length xs then 0 else 1)"
    using assms(1) none(1) [of "Suc j"] none(2) no
    by (cases "j < length xs") (auto simp: seen_def take_Cons' Suc_diff_le)
  then show "squeeze match (xs @ r # ys) ! j = (xs @ ys) ! j"
    using j assms(1) no by (auto simp: squeeze_def nth_append nth_Cons' Suc_diff_le)
qed

section \<open>Properties\<close>

definition enqueue :: "btRequestQueue \<Rightarrow> btRequest \<Rightarrow> fault + int \<times> btRequestQueue" where
  "enqueue q r = queue_request q (rq_block r) (rq_offset r) (rq_length r)"

definition fits_ring :: "btRequest \<Rightarrow> bool" where
  "fits_ring r \<longleftrightarrow> rq_length r \<le> MAXREQUEST"

interpretation rq: bounded_fifo rq_ok rq_list "QUEUESIZE - 1" fits_ring enqueue dequeue_request
proof
  show "\<exists>q'. enqueue q x = Inr (0, q') \<and> rq_ok q' \<and> rq_list q' = rq_list q @ [x]"
    if "rq_ok q" "fits_ring x" "length (rq_list q) < QUEUESIZE - 1" for q x
    using queue_request_ok [where q = q and len = "rq_length x" and piece = "rq_block x" and offset = "rq_offset x"] that
    unfolding enqueue_def fits_ring_def by force
  show "enqueue q x = Inr (- 2, q)"
    if "rq_ok q" "fits_ring x" "length (rq_list q) = QUEUESIZE - 1" for q x
    using that by (simp add: enqueue_def fits_ring_def queue_request_spec)
  show "\<exists>q'. dequeue_request q = Inr (Some x, q') \<and> rq_ok q' \<and> rq_list q' = xs"
    if "rq_ok q" "rq_list q = x # xs" for q x xs
    using dequeue_request_ok [of q x xs] that by blast
qed (rule dequeue_request_none)


definition req3 :: "btRequest list" where
  "req3 = map (\<lambda>n. \<lparr>rq_block = n, rq_offset = 16384, rq_length = 16384\<rparr>) [7, 8, 9]"


text \<open>
  A request that is queued once is taken out by \<open>remove_queued_request\<close>, which answers 1
  and keeps the others in order; one that is not queued is answered 0 and nothing changes. With
  the same request queued twice the loop takes the wrong ones out: the later copy and a request
  behind it go, the first copy stays.
\<close>

theorem remove_queued_request_removes:
  assumes "rq_ok q"
  shows "(same_request r b off len \<and> rq_list q = xs @ r # ys \<and>
        (\<forall>r' \<in> set (xs @ ys). \<not> same_request r' b off len) \<longrightarrow>
      (\<exists>q'. remove_queued_request q b off len = Inr (1, q') \<and> rq_ok q' \<and> rq_list q' = xs @ ys)) \<and>
    ((\<forall>r' \<in> set (rq_list q). \<not> same_request r' b off len) \<longrightarrow>
      (\<exists>q'. remove_queued_request q b off len = Inr (0, q') \<and> rq_ok q' \<and> rq_list q' = rq_list q)) \<and>
    (rq_list q = [r, r, r2] \<and> same_request r b off len \<and> \<not> same_request r2 b off len \<longrightarrow>
      (\<exists>q'. remove_queued_request q b off len = Inr (2, q') \<and> rq_list q' = [r]))"
proof -
  let ?m = "\<lambda>r. same_request r b off len"
  obtain q' where run: "remove_queued_request q b off len = Inr (int (length (filter ?m (rq_list q))), q')"
      "rq_ok q'" "rq_list q' = squeeze ?m (rq_list q)"
    using remove_queued_request_squeezes [OF assms] by blast
  show ?thesis
  proof (intro conjI impI)
    assume a: "?m r \<and> rq_list q = xs @ r # ys \<and> (\<forall>r' \<in> set (xs @ ys). \<not> ?m r')"
    then have none: "filter ?m (xs @ ys) = []" by (auto simp: filter_empty_conv)
    then have "filter ?m (rq_list q) = [r]" using a by simp
    then show "\<exists>q'. remove_queued_request q b off len = Inr (1, q') \<and> rq_ok q' \<and> rq_list q' = xs @ ys"
      using run squeeze_one [of ?m r xs ys] a none by simp
  next
    assume "\<forall>r' \<in> set (rq_list q). \<not> ?m r'"
    then have "filter ?m (rq_list q) = []" by (simp add: filter_empty_conv)
    then show "\<exists>q'. remove_queued_request q b off len = Inr (0, q') \<and> rq_ok q' \<and> rq_list q' = rq_list q"
      using run squeeze_none by simp
  next
    assume a: "rq_list q = [r, r, r2] \<and> ?m r \<and> \<not> ?m r2"
    then show "\<exists>q'. remove_queued_request q b off len = Inr (2, q') \<and> rq_list q' = [r]"
      using run by (simp add: squeeze_def seen_def)
  qed
qed

definition ring3 :: btRequestQueue where
  "ring3 = rq_empty\<lparr>q_req := req3 @ drop 3 (q_req rq_empty), q_tail := 3\<rparr>"

lemma ring3_facts: "rq_ok ring3" "rq_list ring3 = req3"
  by (code_simp, code_simp)

theorem remove_queued_request_removes_witness:
  "\<exists>q'. remove_queued_request ring3 8 16384 16384 = Inr (1, q') \<and> rq_list q' = [req3 ! 0, req3 ! 2]"
proof -
  have "same_request (req3 ! 1) 8 16384 16384 \<and> rq_list ring3 = [req3 ! 0] @ req3 ! 1 # [req3 ! 2] \<and>
      (\<forall>r' \<in> set ([req3 ! 0] @ [req3 ! 2]). \<not> same_request r' 8 16384 16384)"
    by (simp add: ring3_facts same_request_def req3_def)
  then show ?thesis
    using remove_queued_request_removes
      [OF ring3_facts(1), of "req3 ! 1" 8 16384 16384 "[req3 ! 0]" "[req3 ! 2]" undefined] by auto
qed

end
