(* ===== verification/Bt_Status.thy ===== *)
theory Bt_Status
  imports Bt_Prelude
begin

text \<open>
  The \<open>pollfd\<close> table of \<open>context.c\<close>: \<open>status\<close> is the array handed to \<open>poll\<close>, \<open>statmap\<close> leads
  from a socket to its place in it. The main loop ends the process when the two disagree
  (\<open>DIE_UNLESS(ctx->statmap[cs] == i)\<close>); the theory shows that the operations keep them in
  agreement, and where they fault.
\<close>

section \<open>State\<close>

definition MAXCONN :: nat where "MAXCONN = 100"
definition SOCKID_MAX :: nat where "SOCKID_MAX = 1024"
definition TMPLOC :: int where "TMPLOC = int SOCKID_MAX"

definition POLLIN :: int where "POLLIN = 1"
definition POLLOUT :: int where "POLLOUT = 4"
definition POLLERR :: int where "POLLERR = 8"
definition POLLHUP :: int where "POLLHUP = 16"
definition POLLNVAL :: int where "POLLNVAL = 32"

record pollfd =
  pfd_fd :: int
  pfd_events :: int
  pfd_revents :: int

text \<open>The fields \<open>statmap\<close>, \<open>nstatus\<close> and \<open>status\<close> of \<open>btContext\<close>.\<close>

record pollset =
  statmap :: "int list"
  nstatus :: int
  status :: "pollfd list"

text \<open>After \<open>memset\<close> and the loop of \<open>btContext_create\<close>; the entry of \<open>TMPLOC\<close> stays 0.\<close>

definition pollset_create :: pollset where
  "pollset_create = \<lparr>statmap = replicate SOCKID_MAX (- 1) @ [0], nstatus = 0,
     status = replicate MAXCONN \<lparr>pfd_fd = 0, pfd_events = 0, pfd_revents = 0\<rparr>\<rparr>"

section \<open>Operations\<close>

definition ctx_addstatus :: "pollset \<Rightarrow> int \<Rightarrow> fault + int \<times> pollset" where
  "ctx_addstatus ps fd =
     die_unless (0 \<le> fd \<and> fd \<le> int SOCKID_MAX)
       (let statblock = nstatus ps in
        if statblock \<ge> int MAXCONN then Inr (- 1, ps)
        else
          bindR (arr_set (statmap ps) fd statblock) (\<lambda>sm.
          bindR (arr_get (status ps) statblock) (\<lambda>st.
          bindR (arr_set (status ps) statblock (st\<lparr>pfd_fd := fd, pfd_events := 0\<rparr>)) (\<lambda>sts.
          Inr (0, ps\<lparr>nstatus := statblock + 1, statmap := sm, status := sts\<rparr>)))))"

definition ctx_setevents :: "pollset \<Rightarrow> int \<Rightarrow> int \<Rightarrow> fault + pollset" where
  "ctx_setevents ps fd events =
     die_unless (0 \<le> fd \<and> fd < int SOCKID_MAX)
       (bindR (arr_get (statmap ps) fd) (\<lambda>statblock.
        bindR (arr_get (status ps) statblock) (\<lambda>st.
        bindR (arr_set (status ps) statblock (st\<lparr>pfd_events := pfd_events st OR events\<rparr>)) (\<lambda>sts.
        Inr (ps\<lparr>status := sts\<rparr>)))))"

definition ctx_clrevents :: "pollset \<Rightarrow> int \<Rightarrow> int \<Rightarrow> fault + pollset" where
  "ctx_clrevents ps fd events =
     die_unless (0 \<le> fd \<and> fd < int SOCKID_MAX)
       (bindR (arr_get (statmap ps) fd) (\<lambda>statblock.
        bindR (arr_get (status ps) statblock) (\<lambda>st.
        bindR (arr_set (status ps) statblock (st\<lparr>pfd_events := pfd_events st AND NOT events\<rparr>)) (\<lambda>sts.
        Inr (ps\<lparr>status := sts\<rparr>)))))"

text \<open>The two loops of \<open>ctx_delstatus\<close>; a socket without a slot makes the first start at \<open>status[-1]\<close>.\<close>

definition shift_status :: "pollfd list \<Rightarrow> int \<Rightarrow> int \<Rightarrow> fault + pollfd list" where
  "shift_status sts sid n =
     (if sid < 0 then Inl Oob
      else for_loop (nat sid) (nat n)
        (\<lambda>i s. bindR (arr_get s (int i + 1)) (\<lambda>v. arr_set s (int i) v)) sts)"

definition shift_map :: "int list \<Rightarrow> int \<Rightarrow> fault + int list" where
  "shift_map sm sid =
     for_loop 0 SOCKID_MAX
       (\<lambda>i m. bindR (arr_get m (int i)) (\<lambda>v. if v > sid then arr_set m (int i) (v - 1) else Inr m)) sm"

definition ctx_delstatus :: "pollset \<Rightarrow> int \<Rightarrow> fault + pollset" where
  "ctx_delstatus ps fd =
     die_unless (0 \<le> fd \<and> fd < int SOCKID_MAX)
       (bindR (arr_get (statmap ps) fd) (\<lambda>sid.
        bindR (shift_status (status ps) sid (nstatus ps)) (\<lambda>sts.
        bindR (shift_map (statmap ps) sid) (\<lambda>sm.
        Inr (ps\<lparr>status := sts, nstatus := nstatus ps - 1, statmap := sm\<rparr>)))))"

definition ctx_fixtmp :: "pollset \<Rightarrow> int \<Rightarrow> fault + pollset" where
  "ctx_fixtmp ps fd =
     die_unless (0 \<le> fd \<and> fd < int SOCKID_MAX)
       (bindR (arr_get (statmap ps) TMPLOC) (\<lambda>statblock.
        die_unless (0 \<le> statblock \<and> statblock < int MAXCONN)
          (bindR (arr_get (status ps) statblock) (\<lambda>st.
           die_unless (pfd_fd st = TMPLOC)
             (bindR (arr_set (statmap ps) fd statblock) (\<lambda>sm.
              bindR (arr_set (status ps) statblock (st\<lparr>pfd_fd := fd\<rparr>)) (\<lambda>sts.
              bindR (arr_set sm TMPLOC (- 1)) (\<lambda>sm.
              Inr (ps\<lparr>statmap := sm, status := sts\<rparr>)))))))))"

section \<open>Agreement of the two tables\<close>

definition slots :: "pollset \<Rightarrow> pollfd list" where
  "slots ps = take (nat (nstatus ps)) (status ps)"

definition fds :: "pollset \<Rightarrow> int set" where
  "fds ps = pfd_fd ` set (slots ps)"

definition poll_ok :: "pollset \<Rightarrow> bool" where
  "poll_ok ps \<longleftrightarrow> length (statmap ps) = Suc SOCKID_MAX \<and> length (status ps) = MAXCONN \<and>
     0 \<le> nstatus ps \<and> nstatus ps \<le> int MAXCONN \<and>
     (\<forall>i < length (slots ps). 0 \<le> pfd_fd (slots ps ! i) \<and> pfd_fd (slots ps ! i) \<le> TMPLOC \<and>
        statmap ps ! nat (pfd_fd (slots ps ! i)) = int i)"

lemma length_slots: "poll_ok ps \<Longrightarrow> length (slots ps) = nat (nstatus ps)"
  by (auto simp: poll_ok_def slots_def)

lemma not_fds: "fd \<notin> fds ps \<Longrightarrow> m < length (slots ps) \<Longrightarrow> pfd_fd (slots ps ! m) \<noteq> fd"
  by (metis fds_def image_eqI nth_mem)

lemma statmap_update:
  "0 \<le> a \<Longrightarrow> 0 \<le> b \<Longrightarrow> b < int (length sm) \<Longrightarrow>
     sm[nat b := v] ! nat a = (if a = b then v else sm ! nat a)"
  by (auto simp: nth_list_update nat_eq_iff)

lemma slots_create [simp]: "slots pollset_create = []" "fds pollset_create = {}"
  by (simp_all add: slots_def fds_def pollset_create_def)

lemma poll_ok_create [simp, bt_wf]: "poll_ok pollset_create"
  by (simp add: poll_ok_def pollset_create_def slots_def SOCKID_MAX_def MAXCONN_def)

lemma poll_ok_fd:
  assumes "poll_ok ps" and "fd \<in> fds ps"
  obtains i where "i < length (slots ps)" "pfd_fd (slots ps ! i) = fd" "0 \<le> fd" "fd \<le> TMPLOC"
    "statmap ps ! nat fd = int i" "slots ps ! i = status ps ! i" "int i < nstatus ps" "i < MAXCONN"
proof -
  obtain i where i: "i < length (slots ps)" "pfd_fd (slots ps ! i) = fd"
    using assms(2) by (auto simp: fds_def in_set_conv_nth)
  then show thesis
    using that [of i] assms(1) by (auto simp: poll_ok_def slots_def)
qed

lemma distinct_fds: "poll_ok ps \<Longrightarrow> distinct (map pfd_fd (slots ps))"
  by (auto simp: distinct_conv_nth poll_ok_def) (metis of_nat_eq_iff)

lemma addstatus_ok:
  assumes "poll_ok ps" and "0 \<le> fd" and "fd \<le> TMPLOC" and "fd \<notin> fds ps" and "nstatus ps < int MAXCONN"
  obtains ps' st where "ctx_addstatus ps fd = Inr (0, ps')" and "poll_ok ps'"
    and "slots ps' = slots ps @ [st]" and "pfd_fd st = fd" and "pfd_events st = 0"
proof -
  let ?n = "nat (nstatus ps)" and ?st = "(status ps ! nat (nstatus ps))\<lparr>pfd_fd := fd, pfd_events := 0\<rparr>"
  let ?ps = "ps\<lparr>nstatus := nstatus ps + 1, statmap := (statmap ps)[nat fd := nstatus ps],
    status := (status ps)[?n := ?st]\<rparr>"
  have len: "length (statmap ps) = Suc SOCKID_MAX" "length (status ps) = MAXCONN" "0 \<le> nstatus ps" "?n < MAXCONN"
    using assms(1,5) by (auto simp: poll_ok_def)
  have sl: "slots ?ps = slots ps @ [?st]"
    using len by (simp add: slots_def nat_add_distrib take_Suc_conv_app_nth)
  have "ctx_addstatus ps fd = Inr (0, ?ps)"
    using assms len by (simp add: ctx_addstatus_def Let_def arr_get_def arr_set_def TMPLOC_def nat_less_iff)
  moreover have "poll_ok ?ps"
  proof -
    have "0 \<le> pfd_fd (slots ps ! i) \<and> pfd_fd (slots ps ! i) \<le> TMPLOC \<and>
        statmap ps ! nat (pfd_fd (slots ps ! i)) = int i \<and> pfd_fd (slots ps ! i) \<noteq> fd"
      if "i < length (slots ps)" for i
      using assms(1,4) that by (auto simp: poll_ok_def fds_def)
    then show ?thesis
      using assms len length_slots [OF assms(1)]
      unfolding poll_ok_def sl by (auto simp: nth_append statmap_update less_Suc_eq TMPLOC_def)
  qed
  ultimately show thesis using that [of ?ps ?st] sl by simp
qed

lemma addstatus_full:
  "0 \<le> fd \<Longrightarrow> fd \<le> TMPLOC \<Longrightarrow> int MAXCONN \<le> nstatus ps \<Longrightarrow> ctx_addstatus ps fd = Inr (- 1, ps)"
  by (simp add: ctx_addstatus_def TMPLOC_def)

text \<open>Writing the slot of a socket without changing its descriptor.\<close>

lemma slot_write:
  assumes "poll_ok ps" and "i < length (slots ps)" and "pfd_fd st = pfd_fd (slots ps ! i)"
  shows "slots (ps\<lparr>status := (status ps)[i := st]\<rparr>) = (slots ps)[i := st]"
    and "poll_ok (ps\<lparr>status := (status ps)[i := st]\<rparr>)"
proof -
  show sl: "slots (ps\<lparr>status := (status ps)[i := st]\<rparr>) = (slots ps)[i := st]"
    using assms(2) by (simp add: slots_def take_update_swap)
  show "poll_ok (ps\<lparr>status := (status ps)[i := st]\<rparr>)"
    using assms unfolding poll_ok_def sl by (auto simp: nth_list_update)
qed

lemma events_ok:
  assumes "poll_ok ps" and "fd \<in> fds ps" and "fd < TMPLOC"
  obtains i ps1 ps2 where "i < length (slots ps)" and "pfd_fd (slots ps ! i) = fd"
    and "ctx_setevents ps fd ev = Inr ps1" and "poll_ok ps1"
    and "slots ps1 = (slots ps)[i := (slots ps ! i)\<lparr>pfd_events := pfd_events (slots ps ! i) OR ev\<rparr>]"
    and "ctx_clrevents ps fd ev = Inr ps2" and "poll_ok ps2"
    and "slots ps2 = (slots ps)[i := (slots ps ! i)\<lparr>pfd_events := pfd_events (slots ps ! i) AND NOT ev\<rparr>]"
proof -
  obtain i where i: "i < length (slots ps)" "pfd_fd (slots ps ! i) = fd" "0 \<le> fd" "fd \<le> TMPLOC"
    "statmap ps ! nat fd = int i" "slots ps ! i = status ps ! i" "int i < nstatus ps" "i < MAXCONN"
    using poll_ok_fd [OF assms(1,2)] .
  let ?st1 = "(slots ps ! i)\<lparr>pfd_events := pfd_events (slots ps ! i) OR ev\<rparr>"
  let ?st2 = "(slots ps ! i)\<lparr>pfd_events := pfd_events (slots ps ! i) AND NOT ev\<rparr>"
  have "ctx_setevents ps fd ev = Inr (ps\<lparr>status := (status ps)[i := ?st1]\<rparr>)"
    "ctx_clrevents ps fd ev = Inr (ps\<lparr>status := (status ps)[i := ?st2]\<rparr>)"
    using assms i
    by (simp_all add: ctx_setevents_def ctx_clrevents_def arr_get_def arr_set_def poll_ok_def TMPLOC_def)
  then show thesis
    using that [OF i(1,2)] slot_write [OF assms(1) i(1), of ?st1] slot_write [OF assms(1) i(1), of ?st2]
    by simp
qed

text \<open>Removal: the slots behind move down by one.\<close>

lemma shift_status_eq:
  assumes "k \<le> n" and "n < length sts"
  shows "shift_status sts (int k) (int n) = Inr (take k sts @ take (n - k) (drop (Suc k) sts) @ drop n sts)"
proof -
  let ?P = "\<lambda>j s. length s = length sts \<and>
    (\<forall>m < length sts. s ! m = (if k \<le> m \<and> m < j then sts ! Suc m else sts ! m))"
  have "\<exists>s. for_loop k n (\<lambda>i s. bindR (arr_get s (int i + 1)) (\<lambda>v. arr_set s (int i) v)) sts = Inr s \<and> ?P n s"
  proof (rule for_loop_inv [where P = ?P, OF assms(1)])
    fix i s assume i: "k \<le> i" "i < n" "?P i s"
    have "arr_get s (int i + 1) = Inr (s ! Suc i)"
      using i assms arr_get_ok [of "Suc i" s] by (simp add: add.commute)
    then show "\<exists>s'. bindR (arr_get s (int i + 1)) (\<lambda>v. arr_set s (int i) v) = Inr s' \<and> ?P (Suc i) s'"
      using i assms by (auto simp: nth_list_update)
  qed auto
  then obtain s where s: "for_loop k n (\<lambda>i s. bindR (arr_get s (int i + 1)) (\<lambda>v. arr_set s (int i) v)) sts = Inr s"
    "?P n s" by blast
  have "s = take k sts @ take (n - k) (drop (Suc k) sts) @ drop n sts"
  proof (rule nth_equalityI)
    have l: "length (take k sts) = k" "length (take (n - k) (drop (Suc k) sts)) = n - k"
      using assms by simp_all
    show "length s = length (take k sts @ take (n - k) (drop (Suc k) sts) @ drop n sts)"
      using s(2) assms l by simp
    fix m assume "m < length s"
    then show "s ! m = (take k sts @ take (n - k) (drop (Suc k) sts) @ drop n sts) ! m"
      using s(2) assms unfolding nth_append l by auto
  qed
  then show ?thesis using s(1) by (simp add: shift_status_def)
qed

lemma shift_status_last:
  assumes "k < n" and "length sts = n"
  shows "shift_status sts (int k) (int n) = Inl Oob"
proof -
  have "for_loop k' n (\<lambda>i s. bindR (arr_get s (int i + 1)) (\<lambda>v. arr_set s (int i) v)) s = Inl Oob"
    if "k' < n" "length s = n" for k' s
    using that
  proof (induction "n - k'" arbitrary: k' s)
    case (Suc d)
    show ?case
    proof (cases "Suc k' < n")
      case True
      then have "arr_get s (int k' + 1) = Inr (s ! Suc k')"
        using Suc.prems arr_get_ok [of "Suc k'" s] by (simp add: add.commute)
      then show ?thesis
        using Suc.hyps(1) [of "Suc k'" "s[k' := s ! Suc k']"] Suc.hyps(2) Suc.prems True
        by (simp add: for_loop_step)
    next
      case False
      then show ?thesis using Suc.prems by (simp add: for_loop_step arr_get_def)
    qed
  qed simp
  then show ?thesis using assms by (simp add: shift_status_def)
qed

lemma shift_map_eq:
  assumes "SOCKID_MAX < length sm"
  obtains sm' where "shift_map sm sid = Inr sm'" and "length sm' = length sm"
    and "\<And>m. m < SOCKID_MAX \<Longrightarrow> sm' ! m = (if sm ! m > sid then sm ! m - 1 else sm ! m)"
proof -
  let ?P = "\<lambda>j m. length m = length sm \<and>
    (\<forall>k < length sm. m ! k = (if k < j \<and> sm ! k > sid then sm ! k - 1 else sm ! k))"
  have "\<exists>m. shift_map sm sid = Inr m \<and> ?P SOCKID_MAX m"
    unfolding shift_map_def
  proof (rule for_loop_inv [where P = ?P])
    fix i m assume "0 \<le> i" "i < SOCKID_MAX" "?P i m"
    then show "\<exists>m'. bindR (arr_get m (int i)) (\<lambda>v. if v > sid then arr_set m (int i) (v - 1) else Inr m) =
        Inr m' \<and> ?P (Suc i) m'"
      using assms by (auto simp: nth_list_update less_Suc_eq)
  qed auto
  then show thesis using that assms by auto
qed

lemma delstatus_ok:
  assumes "poll_ok ps" and "fd \<in> fds ps" and "TMPLOC \<notin> fds ps" and "nstatus ps < int MAXCONN"
  obtains i ps' where "i < length (slots ps)" and "pfd_fd (slots ps ! i) = fd"
    and "ctx_delstatus ps fd = Inr ps'" and "poll_ok ps'"
    and "slots ps' = take i (slots ps) @ drop (Suc i) (slots ps)"
proof -
  obtain i where i: "i < length (slots ps)" "pfd_fd (slots ps ! i) = fd" "0 \<le> fd" "fd \<le> TMPLOC"
    "statmap ps ! nat fd = int i" "slots ps ! i = status ps ! i" "int i < nstatus ps" "i < MAXCONN"
    using poll_ok_fd [OF assms(1,2)] .
  have fd: "fd < TMPLOC" using assms(2,3) i by (cases "fd = TMPLOC") auto
  let ?n = "nat (nstatus ps)"
  have n: "?n < length (status ps)" "int ?n = nstatus ps" "i < ?n" "length (statmap ps) = Suc SOCKID_MAX"
    using assms(1,4) i by (auto simp: poll_ok_def)
  obtain sm where sm: "shift_map (statmap ps) (int i) = Inr sm" "length sm = Suc SOCKID_MAX"
    "\<And>m. m < SOCKID_MAX \<Longrightarrow> sm ! m = (if statmap ps ! m > int i then statmap ps ! m - 1 else statmap ps ! m)"
    using shift_map_eq [of "statmap ps" "int i"] n by auto
  let ?sts = "take i (status ps) @ take (?n - i) (drop (Suc i) (status ps)) @ drop ?n (status ps)"
  let ?ps = "ps\<lparr>status := ?sts, nstatus := nstatus ps - 1, statmap := sm\<rparr>"
  have sh: "shift_status (status ps) (int i) (nstatus ps) = Inr ?sts"
    using shift_status_eq [of i ?n "status ps"] n by simp
  have del: "ctx_delstatus ps fd = Inr ?ps"
    using fd i n sh sm(1) by (simp add: ctx_delstatus_def arr_get_def TMPLOC_def nat_less_iff)
  have sl: "slots ?ps = take i (slots ps) @ drop (Suc i) (slots ps)"
  proof -
    have "nat (nstatus ps - 1) = ?n - 1" by simp
    moreover have "take (?n - 1) ?sts = take i (status ps) @ take (?n - Suc i) (drop (Suc i) (status ps))"
      using n by (simp add: take_append)
    moreover have "take i (slots ps) = take i (status ps)"
      "drop (Suc i) (slots ps) = take (?n - Suc i) (drop (Suc i) (status ps))"
      using n by (simp_all add: slots_def drop_take)
    ultimately show ?thesis by (simp add: slots_def)
  qed
  have at: "0 \<le> pfd_fd (slots ps ! m) \<and> pfd_fd (slots ps ! m) < TMPLOC \<and>
      statmap ps ! nat (pfd_fd (slots ps ! m)) = int m" if "m < length (slots ps)" for m
  proof -
    have "pfd_fd (slots ps ! m) \<noteq> TMPLOC" by (rule not_fds [OF assms(3) that])
    then show ?thesis using assms(1) that unfolding poll_ok_def by force
  qed
  have "poll_ok ?ps"
    unfolding poll_ok_def sl
  proof (intro conjI allI impI)
    show "length (statmap ?ps) = Suc SOCKID_MAX" using sm(2) by simp
    show "length (status ?ps) = MAXCONN" using assms(1) n by (simp add: poll_ok_def)
    show "0 \<le> nstatus ?ps" "nstatus ?ps \<le> int MAXCONN" using n assms(4) by auto
    fix m assume m: "m < length (take i (slots ps) @ drop (Suc i) (slots ps))"
    define m' where "m' = (if m < i then m else Suc m)"
    have el: "(take i (slots ps) @ drop (Suc i) (slots ps)) ! m = slots ps ! m'" and "m' < length (slots ps)"
      using m i(1) by (auto simp: m'_def nth_append min_def)
    note a = at [OF this(2)]
    then show "0 \<le> pfd_fd ((take i (slots ps) @ drop (Suc i) (slots ps)) ! m)"
      "pfd_fd ((take i (slots ps) @ drop (Suc i) (slots ps)) ! m) \<le> TMPLOC" by (simp_all add: el)
    have "nat (pfd_fd (slots ps ! m')) < SOCKID_MAX" using a by (simp add: TMPLOC_def nat_less_iff)
    then show "statmap ?ps ! nat (pfd_fd ((take i (slots ps) @ drop (Suc i) (slots ps)) ! m)) = int m"
      unfolding el using sm(3) a by (auto simp: m'_def split: if_splits)
  qed
  then show thesis using that [of i ?ps] i del sl by simp
qed

lemma fixtmp_ok:
  assumes "poll_ok ps" and "TMPLOC \<in> fds ps" and "0 \<le> fd" and "fd < TMPLOC" and "fd \<notin> fds ps"
  obtains i ps' where "i < length (slots ps)" and "pfd_fd (slots ps ! i) = TMPLOC"
    and "ctx_fixtmp ps fd = Inr ps'" and "poll_ok ps'"
    and "slots ps' = (slots ps)[i := (slots ps ! i)\<lparr>pfd_fd := fd\<rparr>]"
proof -
  obtain i where i: "i < length (slots ps)" "pfd_fd (slots ps ! i) = TMPLOC" "0 \<le> TMPLOC" "TMPLOC \<le> TMPLOC"
    "statmap ps ! nat TMPLOC = int i" "slots ps ! i = status ps ! i" "int i < nstatus ps" "i < MAXCONN"
    using poll_ok_fd [OF assms(1,2)] .
  let ?st = "(slots ps ! i)\<lparr>pfd_fd := fd\<rparr>"
  let ?ps = "ps\<lparr>statmap := (statmap ps)[nat fd := int i, nat TMPLOC := - 1], status := (status ps)[i := ?st]\<rparr>"
  have len: "length (statmap ps) = Suc SOCKID_MAX" "length (status ps) = MAXCONN"
    using assms(1) by (simp_all add: poll_ok_def)
  have "ctx_fixtmp ps fd = Inr ?ps"
    using assms i len by (simp add: ctx_fixtmp_def arr_get_def arr_set_def TMPLOC_def nat_less_iff)
  moreover have sl: "slots ?ps = (slots ps)[i := ?st]"
    using i by (simp add: slots_def take_update_swap)
  moreover have "poll_ok ?ps"
  proof -
    have "pfd_fd (slots ps ! m) \<noteq> fd" if "m < length (slots ps)" for m
      by (rule not_fds [OF assms(5) that])
    moreover have "pfd_fd (slots ps ! m) \<noteq> TMPLOC" if "m < length (slots ps)" "m \<noteq> i" for m
    proof -
      have "pfd_fd (slots ps ! m) \<noteq> pfd_fd (slots ps ! i)"
        using distinct_fds [OF assms(1)] i(1) that by (simp add: distinct_conv_nth)
      then show ?thesis using i(2) by simp
    qed
    moreover have "0 \<le> TMPLOC" "TMPLOC < int (Suc SOCKID_MAX)" by (simp_all add: TMPLOC_def)
    ultimately show ?thesis
      using assms(1,3,4) i(1) len unfolding poll_ok_def sl
      by (auto simp: nth_list_update [of _ "slots ps"] statmap_update split: if_splits)
  qed
  ultimately show thesis using that [of i ?ps] i by simp
qed

lemma delstatus_full:
  assumes "poll_ok ps" and "fd \<in> fds ps" and "fd < TMPLOC" and "nstatus ps = int MAXCONN"
  shows "ctx_delstatus ps fd = Inl Oob"
proof -
  obtain i where i: "i < length (slots ps)" "pfd_fd (slots ps ! i) = fd" "0 \<le> fd" "fd \<le> TMPLOC"
    "statmap ps ! nat fd = int i" "slots ps ! i = status ps ! i" "int i < nstatus ps" "i < MAXCONN"
    using poll_ok_fd [OF assms(1,2)] .
  then show ?thesis
    using assms shift_status_last [of i MAXCONN "status ps"]
    by (simp add: ctx_delstatus_def arr_get_def TMPLOC_def nat_less_iff poll_ok_def)
qed

section \<open>The table over time\<close>

text \<open>
  The ways the program changes the table: a socket that is not in it is added, also under the
  temporary number; masks of sockets in it change; a socket is removed while none is under the
  temporary number; and the temporary number is exchanged for the real one.
\<close>

inductive poll_step :: "pollset \<Rightarrow> pollset \<Rightarrow> bool" where
  add: "ctx_addstatus ps fd = Inr (r, ps') \<Longrightarrow> fd \<notin> fds ps \<Longrightarrow> poll_step ps ps'"
| setev: "ctx_setevents ps fd ev = Inr ps' \<Longrightarrow> fd \<in> fds ps \<Longrightarrow> poll_step ps ps'"
| clrev: "ctx_clrevents ps fd ev = Inr ps' \<Longrightarrow> fd \<in> fds ps \<Longrightarrow> poll_step ps ps'"
| del: "ctx_delstatus ps fd = Inr ps' \<Longrightarrow> fd \<in> fds ps \<Longrightarrow> TMPLOC \<notin> fds ps \<Longrightarrow> poll_step ps ps'"
| fixtmp: "ctx_fixtmp ps fd = Inr ps' \<Longrightarrow> TMPLOC \<in> fds ps \<Longrightarrow> fd \<notin> fds ps \<Longrightarrow> poll_step ps ps'"

lemma poll_step_ok: "poll_step ps ps' \<Longrightarrow> poll_ok ps \<Longrightarrow> poll_ok ps'"
proof (induction rule: poll_step.induct)
  case (add ps fd r ps')
  have fd: "0 \<le> fd" "fd \<le> TMPLOC" using add(1) by (auto simp: ctx_addstatus_def bt_bind TMPLOC_def)
  show ?case
  proof (cases "nstatus ps < int MAXCONN")
    case True
    then show ?thesis using addstatus_ok [OF add(3) fd add(2)] add(1) by (metis Inr_inject prod.inject)
  next
    case False
    then show ?thesis using addstatus_full [OF fd] add by auto
  qed
next
  case (setev ps fd ev ps')
  have "fd < TMPLOC" using setev(1) by (auto simp: ctx_setevents_def bt_bind TMPLOC_def)
  then show ?case using events_ok [OF setev(3,2)] setev(1) by (metis Inr_inject)
next
  case (clrev ps fd ev ps')
  have "fd < TMPLOC" using clrev(1) by (auto simp: ctx_clrevents_def bt_bind TMPLOC_def)
  then show ?case using events_ok [OF clrev(3,2)] clrev(1) by (metis Inr_inject)
next
  case (del ps fd ps')
  have "fd < TMPLOC" using del(1) by (auto simp: ctx_delstatus_def bt_bind TMPLOC_def)
  then have "nstatus ps \<noteq> int MAXCONN" using delstatus_full [OF del(4,2)] del(1) by auto
  then have "nstatus ps < int MAXCONN" using del(4) by (simp add: poll_ok_def)
  then show ?case using delstatus_ok [OF del(4,2,3)] del(1) by (metis Inr_inject)
next
  case (fixtmp ps fd ps')
  have "0 \<le> fd" "fd < TMPLOC" using fixtmp(1) by (auto simp: ctx_fixtmp_def bt_bind TMPLOC_def)
  then show ?case using fixtmp_ok [OF fixtmp(4,2) _ _ fixtmp(3)] fixtmp(1) by (metis Inr_inject)
qed

lemma poll_steps_ok: "poll_step\<^sup>*\<^sup>* ps ps' \<Longrightarrow> poll_ok ps \<Longrightarrow> poll_ok ps'"
  by (induction rule: rtranclp_induct) (auto intro: poll_step_ok)

lemma one_socket:
  obtains ps st where "ctx_addstatus pollset_create 5 = Inr (0, ps)" "poll_ok ps" "slots ps = [st]"
    "pfd_fd st = 5" "nat (nstatus ps) = 1" "poll_step\<^sup>*\<^sup>* pollset_create ps"
proof -
  have "0 \<le> (5::int)" "5 \<le> TMPLOC" "5 \<notin> fds pollset_create" "nstatus pollset_create < int MAXCONN"
    by (simp_all add: TMPLOC_def SOCKID_MAX_def) (simp add: pollset_create_def MAXCONN_def)
  from addstatus_ok [OF poll_ok_create this]
  obtain ps st where "ctx_addstatus pollset_create 5 = Inr (0, ps)" "poll_ok ps"
    "slots ps = slots pollset_create @ [st]" "pfd_fd st = 5" by blast
  moreover from this have "poll_step\<^sup>*\<^sup>* pollset_create ps"
    using poll_step.add [of pollset_create 5 0 ps] by (simp add: r_into_rtranclp)
  ultimately show thesis using that [of ps st] length_slots [of ps] by simp
qed

section \<open>Properties\<close>

text \<open>
  C18. In every state the program reaches from the empty table, the assertion of the main loop
  holds: the socket in slot \<open>i\<close> is mapped to \<open>i\<close>. So no two slots are for the same socket, and
  the number of slots stays between 0 and \<open>MAXCONN\<close>.
\<close>

theorem statmap_agrees:
  assumes "poll_step\<^sup>*\<^sup>* pollset_create ps"
  shows "(\<forall>i < nat (nstatus ps). arr_get (statmap ps) (pfd_fd (status ps ! i)) = Inr (int i)) \<and>
    distinct (map pfd_fd (take (nat (nstatus ps)) (status ps))) \<and> 0 \<le> nstatus ps \<and> nstatus ps \<le> int MAXCONN"
proof -
  have ok: "poll_ok ps" using poll_steps_ok [OF assms] by simp
  have "arr_get (statmap ps) (pfd_fd (status ps ! i)) = Inr (int i)" if "i < nat (nstatus ps)" for i
  proof -
    have "i < length (slots ps)" using that length_slots [OF ok] by simp
    moreover have "slots ps ! i = status ps ! i" using that by (simp add: slots_def)
    ultimately show ?thesis using ok
      unfolding poll_ok_def by (auto simp: arr_get_def TMPLOC_def)
  qed
  then show ?thesis using distinct_fds [OF ok] ok by (simp add: slots_def poll_ok_def)
qed

theorem statmap_agrees_witness:
  "\<exists>ps. ctx_addstatus pollset_create 5 = Inr (0, ps) \<and> nat (nstatus ps) = 1 \<and>
     arr_get (statmap ps) (pfd_fd (status ps ! 0)) = Inr 0"
proof -
  obtain ps st where ps: "ctx_addstatus pollset_create 5 = Inr (0, ps)" "nat (nstatus ps) = 1"
    "poll_step\<^sup>*\<^sup>* pollset_create ps" using one_socket by metis
  then show ?thesis using statmap_agrees [of ps] by auto
qed

text \<open>
  Removing a socket takes its slot out and keeps the order, masks and sockets of the
  others. With all \<open>MAXCONN\<close> slots taken it reads behind the table, and the temporary slot
  can never be given back: \<open>ctx_delstatus(TMPLOC)\<close> ends the process.
\<close>

theorem ctx_delstatus_result:
  assumes "poll_ok ps"
  shows "(fd \<in> fds ps \<and> TMPLOC \<notin> fds ps \<and> nstatus ps < int MAXCONN \<longrightarrow>
      (\<exists>ps'. ctx_delstatus ps fd = Inr ps' \<and> poll_ok ps' \<and> fd \<notin> fds ps' \<and>
         slots ps' = filter (\<lambda>s. pfd_fd s \<noteq> fd) (slots ps))) \<and>
    (fd \<in> fds ps \<and> fd < TMPLOC \<and> nstatus ps = int MAXCONN \<longrightarrow> ctx_delstatus ps fd = Inl Oob) \<and>
    ctx_delstatus ps TMPLOC = Inl Abort"
proof (intro conjI impI)
  assume a: "fd \<in> fds ps \<and> TMPLOC \<notin> fds ps \<and> nstatus ps < int MAXCONN"
  then obtain i ps' where i: "i < length (slots ps)" "pfd_fd (slots ps ! i) = fd"
    "ctx_delstatus ps fd = Inr ps'" "poll_ok ps'" "slots ps' = take i (slots ps) @ drop (Suc i) (slots ps)"
    using delstatus_ok [OF assms, of fd] by blast
  have split: "slots ps = take i (slots ps) @ slots ps ! i # drop (Suc i) (slots ps)"
    using i(1) by (rule id_take_nth_drop)
  then have "fd \<notin> pfd_fd ` set (take i (slots ps)) \<union> pfd_fd ` set (drop (Suc i) (slots ps))"
    using distinct_fds [OF assms] i(2) by (metis (no_types, lifting) Un_iff distinct.simps(2) distinct_append
        disjoint_iff insertI1 list.set_map list.simps(15,9) map_append)
  then have "\<forall>s \<in> set (take i (slots ps)). pfd_fd s \<noteq> fd" "\<forall>s \<in> set (drop (Suc i) (slots ps)). pfd_fd s \<noteq> fd"
    by auto
  then have "filter (\<lambda>s. pfd_fd s \<noteq> fd) (take i (slots ps) @ slots ps ! i # drop (Suc i) (slots ps)) = slots ps'"
    using i(2,5) by (simp add: filter_True)
  then have "slots ps' = filter (\<lambda>s. pfd_fd s \<noteq> fd) (slots ps)" using split by simp
  then show "\<exists>ps'. ctx_delstatus ps fd = Inr ps' \<and> poll_ok ps' \<and> fd \<notin> fds ps' \<and>
      slots ps' = filter (\<lambda>s. pfd_fd s \<noteq> fd) (slots ps)"
    using i by (auto simp: fds_def)
next
  assume "fd \<in> fds ps \<and> fd < TMPLOC \<and> nstatus ps = int MAXCONN"
  then show "ctx_delstatus ps fd = Inl Oob" using delstatus_full [OF assms] by blast
next
  show "ctx_delstatus ps TMPLOC = Inl Abort" by (simp add: ctx_delstatus_def TMPLOC_def)
qed

theorem ctx_delstatus_result_witness:
  "\<exists>ps ps'. ctx_addstatus pollset_create 5 = Inr (0, ps) \<and> ctx_delstatus ps 5 = Inr ps' \<and> slots ps' = []"
proof -
  obtain ps st where ps: "ctx_addstatus pollset_create 5 = Inr (0, ps)" "poll_ok ps" "slots ps = [st]"
    "pfd_fd st = 5" "nat (nstatus ps) = 1" using one_socket by metis
  then have "5 \<in> fds ps \<and> TMPLOC \<notin> fds ps \<and> nstatus ps < int MAXCONN"
    by (auto simp: fds_def TMPLOC_def SOCKID_MAX_def MAXCONN_def)
  then show ?thesis using ctx_delstatus_result [OF ps(2), of 5] ps by auto
qed

end
