(* ===== verification/Bt_Peer.thy ===== *)
theory Bt_Peer
  imports Bt_Stream Bt_Bitset Bt_Reqqueue
begin

text \<open>
  The peer of \<open>peer.c\<close>: its state, its rate timers, and the messages it is sent. The messages
  are given as a data type with the wire format of the BitTorrent protocol, and each sending
  function is shown to queue exactly the frame of its message.
\<close>

section \<open>State\<close>

definition INT_MAX :: int where "INT_MAX = 2147483647"
definition IDSIZE :: nat where "IDSIZE = 20"
definition MAXMESSAGE :: int where "MAXMESSAGE = MAXREQUEST + 100"

datatype peerstates = PEER_INIT | PEER_OUTGOING | PEER_INCOMING | PEER_GOOD | PEER_ERROR

record btPeerStatus =
  send_time :: int
  total_time :: int
  choked :: bool
  snubbed :: bool
  interested :: bool
  unreachable :: bool
  complete_peer :: bool

text \<open>
  \<open>p_sock\<close> is the kernel's side of the socket. The pointer \<open>currentPiece\<close> into the list of
  partial pieces is the number of the piece it points to: the list holds one piece per number.
\<close>

record btPeer =
  p_state :: peerstates
  p_download :: int
  p_ios :: kStream
  p_sock :: net
  p_id :: "byte list"
  p_ip :: "byte list"
  p_port :: int
  p_blocks :: kBitSet
  p_remote :: btPeerStatus
  p_local :: btPeerStatus
  p_error :: "byte list"
  p_currentPiece :: "int option"
  p_inqueue :: btRequestQueue
  p_queue :: btRequestQueue
  p_lastreceived :: int

definition status_zero :: btPeerStatus where
  "status_zero = \<lparr>send_time = 0, total_time = 0, choked = False, snubbed = False, interested = False,
     unreachable = False, complete_peer = False\<rparr>"

text \<open>The zeroed structure \<open>btcalloc\<close> returns.\<close>

definition peer_zero :: "net \<Rightarrow> btPeer" where
  "peer_zero n = \<lparr>p_state = PEER_INIT, p_download = 0, p_ios = kStream_zero, p_sock = n,
     p_id = replicate IDSIZE 0, p_ip = [], p_port = 0, p_blocks = \<lparr>nbits = 0, bits = []\<rparr>,
     p_remote = status_zero, p_local = status_zero, p_error = [], p_currentPiece = None,
     p_inqueue = rq_empty, p_queue = rq_empty, p_lastreceived = 0\<rparr>"

section \<open>Rate timers\<close>

definition start_rate_timer :: "btPeerStatus \<Rightarrow> int \<Rightarrow> btPeerStatus" where
  "start_rate_timer ps now = (if send_time ps = 0 then ps\<lparr>send_time := now\<rparr> else ps)"

definition stop_rate_timer :: "btPeerStatus \<Rightarrow> int \<Rightarrow> btPeerStatus" where
  "stop_rate_timer ps now =
     (if send_time ps \<noteq> 0
      then ps\<lparr>total_time := total_time ps + (now - send_time ps), send_time := 0\<rparr> else ps)"

definition rate_timer :: "btPeerStatus \<Rightarrow> int \<Rightarrow> int" where
  "rate_timer ps now =
     (let total = to_int32 (total_time ps);
          total = (if send_time ps \<noteq> 0 then to_int32 (total + (now - send_time ps)) else total)
      in if total < 1 then 1 else total)"

text \<open>
  The \<open>float\<close> values of \<open>in_rate\<close> are kept as multiples of \<open>2 ^ -65\<close>: a quotient of two ints is
  rounded to 24 significant bits, ties to even, the remainder standing in the lowest bit.
\<close>

definition float_of_int :: "int \<Rightarrow> nat" where
  "float_of_int n = round_bits 24 (nat n)"

definition float_div :: "nat \<Rightarrow> nat \<Rightarrow> nat" where
  "float_div a b =
     round_bits 24 (2 * (a * 2 ^ 64 div b) + (if a * 2 ^ 64 mod b = 0 then 0 else 1))"

definition float_times_three_quarters :: "nat \<Rightarrow> nat" where
  "float_times_three_quarters x = round_bits 24 (3 * x div 4)"

definition int_of_float :: "nat \<Rightarrow> int" where
  "int_of_float x = int (x div 2 ^ 65)"

definition NEWPEER_LEVEL :: nat where "NEWPEER_LEVEL = 4000"

definition in_rate :: "btPeer \<Rightarrow> int \<Rightarrow> int" where
  "in_rate a now =
     (let atime = rate_timer (p_remote a) now;
          arate = float_div (float_of_int (read_count (p_ios a))) (float_of_int atime);
          newpeer = rate_timer (p_local a) now;
          arate = (if newpeer < 30 \<and> interested (p_remote a) then NEWPEER_LEVEL * 2 ^ 65
                   else if atime < 30 then 0 else arate);
          arate = (if interested (p_local a) then 2 * arate else arate);
          arate = (if choked (p_remote a) \<or> \<not> interested (p_local a)
                   then float_times_three_quarters arate else arate)
      in int_of_float arate)"

definition out_rate :: "btPeer \<Rightarrow> int \<Rightarrow> int" where
  "out_rate a now = c_div (write_count (p_ios a)) (rate_timer (p_local a) now)"

section \<open>Messages\<close>

definition BT_MSG_CHOKE :: byte where "BT_MSG_CHOKE = 0"
definition BT_MSG_UNCHOKE :: byte where "BT_MSG_UNCHOKE = 1"
definition BT_MSG_INTERESTED :: byte where "BT_MSG_INTERESTED = 2"
definition BT_MSG_NOTINTERESTED :: byte where "BT_MSG_NOTINTERESTED = 3"
definition BT_MSG_HAVE :: byte where "BT_MSG_HAVE = 4"
definition BT_MSG_BITFIELD :: byte where "BT_MSG_BITFIELD = 5"
definition BT_MSG_REQUEST :: byte where "BT_MSG_REQUEST = 6"
definition BT_MSG_PIECE :: byte where "BT_MSG_PIECE = 7"
definition BT_MSG_CANCEL :: byte where "BT_MSG_CANCEL = 8"

lemmas bt_msg_defs = BT_MSG_CHOKE_def BT_MSG_UNCHOKE_def BT_MSG_INTERESTED_def
  BT_MSG_NOTINTERESTED_def BT_MSG_HAVE_def BT_MSG_BITFIELD_def BT_MSG_REQUEST_def
  BT_MSG_PIECE_def BT_MSG_CANCEL_def

text \<open>The stream operations on the socket of a peer.\<close>

definition peer_fwrite :: "btPeer \<Rightarrow> byte list \<Rightarrow> int \<Rightarrow> fault + int \<times> btPeer" where
  "peer_fwrite p buf len =
     bindR (kStream_fwrite (p_ios p) (p_sock p) buf len)
       (\<lambda>(r, s, n). Inr (r, p\<lparr>p_ios := s, p_sock := n\<rparr>))"

definition peer_fread :: "btPeer \<Rightarrow> int \<Rightarrow> fault + int \<times> byte list \<times> btPeer" where
  "peer_fread p len =
     bindR (kStream_fread (p_ios p) (p_sock p) len)
       (\<lambda>(r, bs, s, n). Inr (r, bs, p\<lparr>p_ios := s, p_sock := n\<rparr>))"

definition peer_fpeek :: "btPeer \<Rightarrow> int \<Rightarrow> fault + int \<times> byte list \<times> btPeer" where
  "peer_fpeek p len =
     bindR (kStream_fpeek (p_ios p) (p_sock p) len)
       (\<lambda>(r, bs, s, n). Inr (r, bs, p\<lparr>p_ios := s, p_sock := n\<rparr>))"

definition set_error :: "int \<Rightarrow> btPeer \<Rightarrow> btPeer" where
  "set_error e p = p\<lparr>p_ios := (p_ios p)\<lparr>str_error := e\<rparr>\<rparr>"

definition send_message :: "btPeer \<Rightarrow> byte list \<Rightarrow> int \<Rightarrow> fault + int \<times> btPeer" where
  "send_message p buf len =
     bindR (peer_fwrite p (be32 len) 4) (\<lambda>(r, p).
       if r < 0 then Inr (- 1, p)
       else if len > 0 then
         bindR (peer_fwrite p buf len) (\<lambda>(r, p). if r < 0 then Inr (- 2, p) else Inr (0, p))
       else Inr (0, p))"

definition send_keepalive :: "btPeer \<Rightarrow> fault + int \<times> btPeer" where
  "send_keepalive p = send_message p [] 0"

definition send_choke :: "btPeer \<Rightarrow> bool \<Rightarrow> fault + int \<times> btPeer" where
  "send_choke p choke =
     (let type = (if choke then BT_MSG_CHOKE else BT_MSG_UNCHOKE);
          p = (if choked (p_local p) \<noteq> choke
               then p\<lparr>p_queue := clear_request_queue (p_queue p), p_local := (p_local p)\<lparr>choked := choke\<rparr>\<rparr>
               else p)
      in send_message p [type] 1)"

definition send_interested :: "btPeer \<Rightarrow> bool \<Rightarrow> fault + int \<times> btPeer" where
  "send_interested p interest =
     (let type = (if interest then BT_MSG_INTERESTED else BT_MSG_NOTINTERESTED)
      in send_message (p\<lparr>p_local := (p_local p)\<lparr>interested := interest\<rparr>\<rparr>) [type] 1)"

definition send_have :: "btPeer \<Rightarrow> int \<Rightarrow> fault + int \<times> btPeer" where
  "send_have p piece = send_message p (BT_MSG_HAVE # be32 piece) 5"

definition send_bitfield :: "btPeer \<Rightarrow> kBitSet \<Rightarrow> fault + int \<times> btPeer" where
  "send_bitfield p s =
     (let nbytes = int ((nbits s + 7) div 8) in
      bindR (peer_fwrite p (be32 (1 + nbytes)) 4) (\<lambda>(r, p).
        if r < 0 then Inr (- 1, p)
        else bindR (peer_fwrite p [BT_MSG_BITFIELD] 1) (\<lambda>(r, p).
          if r < 0 then Inr (- 2, p)
          else bindR (peer_fwrite p (bits s) nbytes) (\<lambda>(r, p).
            if r < 0 then Inr (- 3, p) else Inr (r, p)))))"

definition send_request :: "btPeer \<Rightarrow> int \<Rightarrow> int \<Rightarrow> int \<Rightarrow> fault + int \<times> btPeer" where
  "send_request p piece offs len =
     send_message p (BT_MSG_REQUEST # be32 piece @ be32 offs @ be32 len) 13"

definition send_cancel :: "btPeer \<Rightarrow> int \<Rightarrow> int \<Rightarrow> int \<Rightarrow> fault + int \<times> btPeer" where
  "send_cancel p piece offs len =
     send_message p (8 # be32 piece @ be32 offs @ be32 len) 13"

definition send_piece :: "btPeer \<Rightarrow> int \<Rightarrow> int \<Rightarrow> byte list \<Rightarrow> int \<Rightarrow> fault + int \<times> btPeer" where
  "send_piece p piece offs cbuf len =
     (let buf = BT_MSG_PIECE # be32 piece @ be32 offs; tlen = 9 + len in
      bindR (peer_fwrite p (be32 tlen) 4) (\<lambda>(r, p).
        if r < 0 then Inr (- 1, p)
        else bindR (peer_fwrite p buf 9) (\<lambda>(r, p).
          if r < 0 then Inr (- 2, p)
          else bindR (peer_fwrite p cbuf len) (\<lambda>(r, p).
            if r < 0 then Inr (- 3, p) else Inr (r, p)))))"

section \<open>Messages as data\<close>

datatype btmsg =
    Keepalive
  | Choke bool
  | Interested bool
  | Have int
  | Bitfield "byte list"
  | Request int int int
  | Piece int int "byte list"
  | Cancel int int int

fun msg_body :: "btmsg \<Rightarrow> byte list" where
  "msg_body Keepalive = []"
| "msg_body (Choke b) = [if b then BT_MSG_CHOKE else BT_MSG_UNCHOKE]"
| "msg_body (Interested b) = [if b then BT_MSG_INTERESTED else BT_MSG_NOTINTERESTED]"
| "msg_body (Have n) = BT_MSG_HAVE # be32 n"
| "msg_body (Bitfield bs) = BT_MSG_BITFIELD # bs"
| "msg_body (Request n off len) = BT_MSG_REQUEST # be32 n @ be32 off @ be32 len"
| "msg_body (Piece n off bs) = BT_MSG_PIECE # be32 n @ be32 off @ bs"
| "msg_body (Cancel n off len) = BT_MSG_CANCEL # be32 n @ be32 off @ be32 len"

definition frame :: "byte list \<Rightarrow> byte list" where
  "frame body = be32 (int (length body)) @ body"

text \<open>The sending function for a message.\<close>

fun send_msg :: "btPeer \<Rightarrow> btmsg \<Rightarrow> fault + int \<times> btPeer" where
  "send_msg p Keepalive = send_keepalive p"
| "send_msg p (Choke b) = send_choke p b"
| "send_msg p (Interested b) = send_interested p b"
| "send_msg p (Have n) = send_have p n"
| "send_msg p (Bitfield bs) = send_bitfield p \<lparr>nbits = 8 * length bs, bits = bs\<rparr>"
| "send_msg p (Request n off len) = send_request p n off len"
| "send_msg p (Piece n off bs) = send_piece p n off bs (int (length bs))"
| "send_msg p (Cancel n off len) = send_cancel p n off len"

section \<open>What sending does\<close>

text \<open>All the bytes the peer has been sent, or will be once its socket takes them.\<close>

definition wire :: "btPeer \<Rightarrow> byte list" where
  "wire p = sent (p_sock p) @ sb_buf (obuf (p_ios p))"

text \<open>A peer in which only the stream and its socket have changed, and not what is to be read.\<close>

definition same_but_output :: "btPeer \<Rightarrow> btPeer \<Rightarrow> bool" where
  "same_but_output p q \<longleftrightarrow> q = p\<lparr>p_ios := p_ios q, p_sock := p_sock q\<rparr> \<and> str_ok (p_ios q) \<and>
     in_pending (p_ios q) (p_sock q) = in_pending (p_ios p) (p_sock p)"

lemma same_but_output_refl: "str_ok (p_ios p) \<Longrightarrow> same_but_output p p"
  by (simp add: same_but_output_def)

lemma same_but_output_trans [trans]:
  "same_but_output p q \<Longrightarrow> same_but_output q r \<Longrightarrow> same_but_output p r"
  unfolding same_but_output_def
  by (metis (no_types, lifting) btPeer.surjective btPeer.update_convs(3,4))

lemma same_but_outputD:
  assumes "same_but_output p q"
  shows "p_state q = p_state p" "p_download q = p_download p" "p_blocks q = p_blocks p"
    "p_remote q = p_remote p" "p_local q = p_local p" "p_currentPiece q = p_currentPiece p"
    "p_inqueue q = p_inqueue p" "p_queue q = p_queue p" "p_id q = p_id p" "str_ok (p_ios q)"
    "p_lastreceived q = p_lastreceived p"
  using assms unfolding same_but_output_def
  by (metis btPeer.select_convs(1,2,5-15) btPeer.surjective btPeer.update_convs(3,4))+

text \<open>
  A sending step: it never faults, and unless it reports an error it has put the bytes behind
  those that were there.
\<close>

definition emits :: "btPeer \<Rightarrow> byte list \<Rightarrow> fault + int \<times> btPeer \<Rightarrow> bool" where
  "emits p bs m \<longleftrightarrow> (\<exists>r q. m = Inr (r, q) \<and> same_but_output p q \<and> (0 \<le> r \<longrightarrow> wire q = wire p @ bs))"

lemma emits_fwrite:
  assumes "str_ok (p_ios p)" and "int (length bs) = len"
  shows "emits p bs (peer_fwrite p bs len)"
proof -
  obtain r s n where "kStream_fwrite (p_ios p) (p_sock p) bs (int (length bs)) = Inr (r, s, n)" "str_ok s"
    "sent n @ sb_buf (obuf s) = sent (p_sock p) @ sb_buf (obuf (p_ios p)) @ bs"
    "in_pending s n = in_pending (p_ios p) (p_sock p)"
    using kStream_fwrite_result [OF assms(1)] by blast
  then show ?thesis
    using assms(2) by (auto simp: emits_def peer_fwrite_def same_but_output_def wire_def)
qed

lemma emits_seq:
  assumes "emits p bs m" and "e < 0"
    and "\<And>r q. same_but_output p q \<Longrightarrow> str_ok (p_ios q) \<Longrightarrow> 0 \<le> r \<Longrightarrow> emits q cs (k r q)"
  shows "emits p (bs @ cs) (bindR m (\<lambda>(r, q). if r < 0 then Inr (e, q) else k r q))"
proof -
  obtain r q where m: "m = Inr (r, q)" "same_but_output p q" "0 \<le> r \<longrightarrow> wire q = wire p @ bs"
    using assms(1) by (auto simp: emits_def)
  show ?thesis
  proof (cases "r < 0")
    case True
    then show ?thesis using m assms(2) by (simp add: emits_def)
  next
    case False
    then have "emits q cs (k r q)" using assms(3) m(2) same_but_outputD(10) by simp
    then show ?thesis
      using m False same_but_output_trans [OF m(2)] by (auto simp: emits_def)
  qed
qed

lemma emits_end:
  "emits p bs m \<Longrightarrow> e < 0 \<Longrightarrow>
     emits p bs (bindR m (\<lambda>(r, q). if r < 0 then Inr (e, q) else Inr (r, q)))"
  by (auto simp: emits_def)

lemma emits_result: "emits q [] (Inr (r, q))" if "str_ok (p_ios q)"
  using that by (simp add: emits_def same_but_output_refl)

lemma send_message_emits:
  assumes "str_ok (p_ios p)" and "int (length buf) = len"
  shows "emits p (frame buf) (send_message p buf len)"
proof -
  have "emits q buf (if len > 0 then bindR (peer_fwrite q buf len)
      (\<lambda>(r, p). if r < 0 then Inr (- 2, p) else Inr (0, p)) else Inr (0, q))" if "str_ok (p_ios q)" for q
    using emits_seq [OF emits_fwrite [OF that assms(2)], of "- 2" "[]" "\<lambda>r q. Inr (0, q)"]
      emits_result [OF that] emits_result assms(2) by (cases "len > 0") (auto simp: case_prod_beta')
  then have "emits p (be32 len @ buf) (bindR (peer_fwrite p (be32 len) 4) (\<lambda>(r, p).
       if r < 0 then Inr (- 1, p)
       else if len > 0 then
         bindR (peer_fwrite p buf len) (\<lambda>(r, p). if r < 0 then Inr (- 2, p) else Inr (0, p))
       else Inr (0, p)))"
    by (intro emits_seq emits_fwrite assms) simp_all
  then show ?thesis using assms(2) by (simp add: frame_def send_message_def)
qed

lemma send_message_zero:
  "send_message p buf len = Inr (r, q) \<Longrightarrow> 0 \<le> r \<Longrightarrow> r = 0"
  by (auto simp: send_message_def bt_bind split: if_splits)

text \<open>The changes of state that go with a message.\<close>

fun note_msg :: "btmsg \<Rightarrow> btPeer \<Rightarrow> btPeer" where
  "note_msg (Choke b) p =
     (if choked (p_local p) = b then p
      else p\<lparr>p_queue := clear_request_queue (p_queue p), p_local := (p_local p)\<lparr>choked := b\<rparr>\<rparr>)"
| "note_msg (Interested b) p = p\<lparr>p_local := (p_local p)\<lparr>interested := b\<rparr>\<rparr>"
| "note_msg m p = p"

lemma note_msg_stream [simp]: "p_ios (note_msg m p) = p_ios p" "wire (note_msg m p) = wire p"
  by (cases m; simp add: wire_def)+

lemma send_msg_emits:
  assumes "str_ok (p_ios p)"
  shows "emits (note_msg m p) (frame (msg_body m)) (send_msg p m)"
proof -
  have ok: "str_ok (p_ios (note_msg m p))" using assms by simp
  have three: "emits q (be32 t @ a @ b) (bindR (peer_fwrite q (be32 t) 4) (\<lambda>(r, p).
        if r < 0 then Inr (- 1, p)
        else bindR (peer_fwrite p a la) (\<lambda>(r, p).
          if r < 0 then Inr (- 2, p)
          else bindR (peer_fwrite p b lb) (\<lambda>(r, p). if r < 0 then Inr (- 3, p) else Inr (r, p)))))"
    if "str_ok (p_ios q)" "int (length a) = la" "int (length b) = lb" for q t a la b lb
  proof (intro emits_seq)
    show "emits q (be32 t) (peer_fwrite q (be32 t) 4)" by (rule emits_fwrite [OF that(1)]) simp
    show "emits q1 a (peer_fwrite q1 a la)" if "str_ok (p_ios q1)" for q1
      by (rule emits_fwrite [OF that \<open>int (length a) = la\<close>])
    fix r :: int and q1 :: btPeer assume "str_ok (p_ios q1)"
    then show "emits q1 b (bindR (peer_fwrite q1 b lb)
        (\<lambda>(r, p). if r < 0 then Inr (- 3, p) else Inr (r, p)))"
      by (rule emits_end [OF emits_fwrite [OF _ that(3)]]) simp
  qed simp_all
  show ?thesis
  proof (cases m)
    case (Bitfield bs)
    have "(8 * length bs + 7) div 8 = length bs" by simp
    then have "send_msg p m = bindR (peer_fwrite p (be32 (1 + int (length bs))) 4) (\<lambda>(r, p).
        if r < 0 then Inr (- 1, p)
        else bindR (peer_fwrite p [BT_MSG_BITFIELD] 1) (\<lambda>(r, p).
          if r < 0 then Inr (- 2, p)
          else bindR (peer_fwrite p bs (int (length bs))) (\<lambda>(r, p).
            if r < 0 then Inr (- 3, p) else Inr (r, p))))"
      by (simp only: Bitfield send_msg.simps send_bitfield_def Let_def kBitSet.select_convs)
    moreover have "frame (msg_body m) = be32 (1 + int (length bs)) @ [BT_MSG_BITFIELD] @ bs"
      by (simp add: Bitfield frame_def)
    ultimately show ?thesis
      using three [OF assms, of "[BT_MSG_BITFIELD]" 1 bs "int (length bs)" "1 + int (length bs)"]
      by (simp only: Bitfield note_msg.simps) simp
  next
    case (Piece n off bs)
    have "frame (msg_body m) = be32 (9 + int (length bs)) @ (BT_MSG_PIECE # be32 n @ be32 off) @ bs"
      by (simp add: Piece frame_def)
    then show ?thesis
      using three [OF assms, of "BT_MSG_PIECE # be32 n @ be32 off" 9 bs "int (length bs)" "9 + int (length bs)"]
      by (simp only: Piece note_msg.simps send_msg.simps send_piece_def Let_def) simp
  qed (use ok in \<open>auto simp: send_keepalive_def send_choke_def send_interested_def send_have_def
         send_request_def send_cancel_def bt_msg_defs Let_def intro!: send_message_emits\<close>)
qed

section \<open>Frames of the sending functions\<close>

text \<open>Writing to a socket changes nothing of the peer but its stream.\<close>

lemma peer_fwrite_frame:
  assumes "peer_fwrite p buf len = Inr (r, q)"
  shows "p_inqueue q = p_inqueue p" "p_currentPiece q = p_currentPiece p" "p_download q = p_download p"
    "p_state q = p_state p" "p_blocks q = p_blocks p" "p_queue q = p_queue p"
    "p_local q = p_local p" "p_remote q = p_remote p"
  using assms by (auto simp: peer_fwrite_def bindR_Inr_iff)

lemma send_message_frame:
  assumes "send_message p buf len = Inr (r, q)"
  shows "p_inqueue q = p_inqueue p" "p_currentPiece q = p_currentPiece p" "p_download q = p_download p"
    "p_state q = p_state p" "p_blocks q = p_blocks p" "p_queue q = p_queue p"
    "p_local q = p_local p" "p_remote q = p_remote p"
proof -
  obtain r1 q1 where 1: "peer_fwrite p (be32 len) 4 = Inr (r1, q1)"
    and 2: "q = q1 \<or> (\<exists>r2. peer_fwrite q1 buf len = Inr (r2, q))"
    using assms by (auto simp: send_message_def bindR_Inr_iff split: if_splits)
  note f1 = peer_fwrite_frame [OF 1]
  have "p_inqueue q = p_inqueue q1 \<and> p_currentPiece q = p_currentPiece q1 \<and> p_download q = p_download q1 \<and>
      p_state q = p_state q1 \<and> p_blocks q = p_blocks q1 \<and> p_queue q = p_queue q1 \<and>
      p_local q = p_local q1 \<and> p_remote q = p_remote q1"
    using 2 peer_fwrite_frame by auto
  then show "p_inqueue q = p_inqueue p" "p_currentPiece q = p_currentPiece p" "p_download q = p_download p"
    "p_state q = p_state p" "p_blocks q = p_blocks p" "p_queue q = p_queue p"
    "p_local q = p_local p" "p_remote q = p_remote p" using f1 by simp_all
qed

section \<open>Sequences of messages\<close>

text \<open>Sending one message after another, as long as none reports an error.\<close>

fun send_msgs :: "btPeer \<Rightarrow> btmsg list \<Rightarrow> fault + bool \<times> btPeer" where
  "send_msgs p [] = Inr (True, p)"
| "send_msgs p (m # ms) = bindR (send_msg p m) (\<lambda>(r, p). if r < 0 then Inr (False, p) else send_msgs p ms)"

definition frames :: "btmsg list \<Rightarrow> byte list" where
  "frames ms = concat (map (\<lambda>m. frame (msg_body m)) ms)"

lemma send_msgs_frames:
  assumes "str_ok (p_ios p)"
  shows "\<exists>ok q. send_msgs p ms = Inr (ok, q) \<and> str_ok (p_ios q) \<and>
    in_pending (p_ios q) (p_sock q) = in_pending (p_ios p) (p_sock p) \<and> (ok \<longrightarrow> wire q = wire p @ frames ms)"
  using assms
proof (induction ms arbitrary: p)
  case (Cons m ms)
  obtain r q where q: "send_msg p m = Inr (r, q)" "same_but_output (note_msg m p) q"
    "0 \<le> r \<longrightarrow> wire q = wire p @ frame (msg_body m)"
    using send_msg_emits [OF Cons.prems, of m] by (auto simp: emits_def)
  have sock: "p_sock (note_msg m p) = p_sock p" by (cases m) simp_all
  have ok: "str_ok (p_ios q)" "in_pending (p_ios q) (p_sock q) = in_pending (p_ios p) (p_sock p)"
    using q(2) sock by (simp_all add: same_but_output_def)
  then show ?case using Cons.IH [OF ok(1)] q by (cases "r < 0") (auto simp: frames_def)
qed (auto simp: frames_def)

section \<open>What is put on the wire\<close>



end
