(* ===== verification/Bt_Context.thy ===== *)
theory Bt_Context
  imports Bt_Peer Bt_Segmenter Bt_Status Bt_Types
begin

text \<open>
  The context of \<open>context.h\<close>: the downloads, the peers, the poll table and, for the model, what
  is outside the process. The second half is the part of \<open>peer.c\<close> that decides what to ask a
  peer for: interest, the choice of a piece, and the requests that are kept outstanding.
\<close>

section \<open>State\<close>

text \<open>A pointer to a peer is the address it was allocated at; \<open>NULL\<close> is \<open>None\<close>.\<close>

type_synonym addr = nat

record btPeerset =
  ps_len :: int
  interestedpeers :: int
  incomplete :: int
  ps_peer :: "addr option list"

definition btPeerset_create :: btPeerset where
  "btPeerset_create = \<lparr>ps_len = 0, interestedpeers = 0, incomplete = 0, ps_peer = []\<rparr>"

record btDownload =
  md :: "btObject option"
  url :: "byte list"
  infohash :: "byte list"
  requested :: kBitSet
  wanted :: kBitSet
  fileset :: btFileSet
  reregister_interval :: int
  peerset :: btPeerset
  dl_complete :: bool

text \<open>
  \<open>wanted\<close> is the field \<open>interested\<close> of the source. The float \<open>ulfactor\<close> is \<open>m / 2 ^ k\<close> for a
  pair \<open>(m, k)\<close>; it is taken not to be negative. The last seven fields stand for what the
  program shares with the rest of the world: the allocated peers, the disk, the state of
  \<open>drand48\<close>, the clock (which does not advance within a handler), the buffer
  \<open>g_filebuffer\<close>, the bytes an uninitialised local array holds, and the texts of \<open>strerror\<close>.
\<close>

record btContext =
  downloads :: "btDownload option list"
  sockpeer :: "addr option list"
  myid :: "byte list"
  mykey :: "byte list"
  listenport :: int
  polls :: pollset
  x_set :: "bool list"
  xsock :: int
  ss :: int
  ulfactor :: "nat \<times> nat"
  peers :: "addr \<Rightarrow> btPeer option"
  store :: disk
  rng :: seed
  clock :: int
  filebuffer :: "byte list"
  junk :: "byte list"
  sys_error :: "int \<Rightarrow> byte list"

text \<open>Dereferencing: a freed peer and a closed download are faults.\<close>

definition get_peer :: "btContext \<Rightarrow> addr \<Rightarrow> fault + btPeer" where
  "get_peer ctx a = (case peers ctx a of None \<Rightarrow> Inl Oob | Some p \<Rightarrow> Inr p)"

definition put_peer :: "btContext \<Rightarrow> addr \<Rightarrow> btPeer \<Rightarrow> btContext" where
  "put_peer ctx a p = ctx\<lparr>peers := (peers ctx)(a \<mapsto> p)\<rparr>"

definition get_dl :: "btContext \<Rightarrow> int \<Rightarrow> fault + btDownload" where
  "get_dl ctx i =
     bindR (arr_get (downloads ctx) i) (\<lambda>d. case d of None \<Rightarrow> Inl Oob | Some d \<Rightarrow> Inr d)"

definition put_dl :: "btContext \<Rightarrow> int \<Rightarrow> btDownload \<Rightarrow> btContext" where
  "put_dl ctx i d = ctx\<lparr>downloads := (downloads ctx)[nat i := Some d]\<rparr>"

definition deref :: "addr option \<Rightarrow> fault + addr" where
  "deref a = (case a of None \<Rightarrow> Inl Oob | Some x \<Rightarrow> Inr x)"

text \<open>Running an operation of a peer at an address.\<close>

definition at_peer :: "btContext \<Rightarrow> addr \<Rightarrow> (btPeer \<Rightarrow> fault + 'r \<times> btPeer) \<Rightarrow> fault + 'r \<times> btContext" where
  "at_peer ctx a f =
     bindR (get_peer ctx a) (\<lambda>p. bindR (f p) (\<lambda>(r, p). Inr (r, put_peer ctx a p)))"

section \<open>Interest\<close>

definition peer_send_bitfield :: "btContext \<Rightarrow> btPeer \<Rightarrow> fault + int \<times> btPeer" where
  "peer_send_bitfield ctx p =
     bindR (get_dl ctx (p_download p)) (\<lambda>d. send_bitfield p (completed (fileset d)))"

definition update_interested :: "btContext \<Rightarrow> btPeer \<Rightarrow> fault + int \<times> btPeer" where
  "update_interested ctx p =
     bindR (get_dl ctx (p_download p)) (\<lambda>d.
     bindR (bs_hasInteresting (completed (fileset d)) (p_blocks p) (wanted d)) (\<lambda>interest.
       let result = (if interest then 1 else 0) in
       if interest \<noteq> interested (p_local p) then
         bindR (send_interested p interest) (\<lambda>(r, p).
           if r \<noteq> 0 then Inr (- 1, p)
           else if \<not> interest \<and> \<not> choked (p_remote p)
             then Inr (result, p\<lparr>p_remote := stop_rate_timer (p_remote p) (clock ctx)\<rparr>)
           else Inr (result, p))
       else Inr (result, p)))"

section \<open>Choosing a piece\<close>

definition countpeers :: "btContext \<Rightarrow> btPeerset \<Rightarrow> int \<Rightarrow> fault + nat" where
  "countpeers ctx ps piece =
     for_loop 0 (nat (ps_len ps))
       (\<lambda>i count. bindR (arr_get (ps_peer ps) (int i)) (\<lambda>a. bindR (deref a) (\<lambda>a.
          bindR (get_peer ctx a) (\<lambda>p.
          Inr (if p_currentPiece p = Some piece then count + 1 else count))))) 0"

text \<open>The two loops of \<open>peer_assign_block\<close> over the partial pieces.\<close>

fun unassigned_partial :: "kBitSet \<Rightarrow> kBitSet \<Rightarrow> btPartialPiece list \<Rightarrow> fault + int option" where
  "unassigned_partial reqs have [] = Inr None"
| "unassigned_partial reqs have (q # qs) =
     bindR (bs_isSet reqs (piecenumber q)) (\<lambda>r.
       if r then unassigned_partial reqs have qs
       else bindR (bs_isSet have (piecenumber q)) (\<lambda>h.
         if \<not> h then unassigned_partial reqs have qs else Inr (Some (piecenumber q))))"

fun overlapping_partial ::
    "btContext \<Rightarrow> btPeerset \<Rightarrow> kBitSet \<Rightarrow> btPartialPiece list \<Rightarrow> fault + int option" where
  "overlapping_partial ctx ps have [] = Inr None"
| "overlapping_partial ctx ps have (q # qs) =
     bindR (bs_isSet have (piecenumber q)) (\<lambda>h.
       if h then Inr (Some (piecenumber q))
       else bindR (countpeers ctx ps (piecenumber q)) (\<lambda>n.
         if n < 4 then overlapping_partial ctx ps have qs else Inr (Some (piecenumber q))))"

definition peer_assign_block :: "btContext \<Rightarrow> addr \<Rightarrow> fault + int option \<times> btContext" where
  "peer_assign_block ctx a =
     bindR (get_peer ctx a) (\<lambda>p.
     bindR (get_dl ctx (p_download p)) (\<lambda>d.
     let ps = peerset d; fs = fileset d in
     bindR (if interestedpeers ps > 4 \<or> incomplete ps \<le> 4 \<or> ps_len ps - incomplete ps > 10
            then unassigned_partial (requested d) (p_blocks p) (partial fs)
            else overlapping_partial ctx ps (p_blocks p) (partial fs)) (\<lambda>piece.
     bindR (case piece of
              Some n \<Rightarrow> Inr (Some n, fs, rng ctx)
            | None \<Rightarrow>
                bindR (bs_pickblock (requested d) (p_blocks p) (wanted d) (rng ctx)) (\<lambda>(blk, x).
                bindR (if blk < 0 then bs_pickblock (completed fs) (p_blocks p) (wanted d) x
                       else Inr (blk, x)) (\<lambda>(blk, x).
                if blk < 0 then Inr (None, fs, x)
                else bindR (seg_getPiece fs blk) (\<lambda>(q, fs). Inr (Some (piecenumber q), fs, x)))))
       (\<lambda>(piece, fs, x).
          case piece of
            None \<Rightarrow> Inr (None, ctx\<lparr>rng := x\<rparr>)
          | Some n \<Rightarrow>
              bindR (bs_set (requested d) n) (\<lambda>r.
              Inr (Some n, put_dl (put_peer (ctx\<lparr>rng := x\<rparr>) a (p\<lparr>p_currentPiece := Some n\<rparr>))
                (p_download p) (d\<lparr>fileset := fs, requested := r\<rparr>)))))))"

section \<open>Keeping requests outstanding\<close>

definition REQMAX :: int where "REQMAX = 10"
definition REQUEST_SIZE :: int where "REQUEST_SIZE = 16384"

definition request_depth :: "int \<Rightarrow> int" where
  "request_depth arate =
     (let qlen = c_div (15 * c_div arate 1024) 16;
          qlen = (if qlen > REQMAX then REQMAX else qlen)
      in if qlen < 2 then 2 else qlen)"

text \<open>
  Where the next request starts and how far the piece goes on from there; \<open>None\<close> when the
  function returns. At the end of a piece whose digest was wrong it starts over; otherwise,
  with nothing outstanding, at the first byte that has not come.
\<close>

definition next_range ::
    "btRequestQueue \<Rightarrow> btPartialPiece \<Rightarrow> int \<Rightarrow> fault + (int \<times> int) option \<times> btPartialPiece" where
  "next_range q pc blocklen =
     (let start = nextbyteReq pc; len = blocklen - start in
      if len \<noteq> 0 then Inr (Some (start, len), pc)
      else
        let restart = (\<lambda>pc. let start = nextbyteReq pc; len = blocklen - start
                            in if len = 0 then Inr (None, pc) else Inr (Some (start, len), pc))
        in if isdone pc then restart (pc\<lparr>nextbyteReq := 0\<rparr>)
           else if queue_len q > 0 then Inr (None, pc)
           else bindR (bs_firstClr (filled pc)) (\<lambda>rst.
             if rst < 0 then Inr (None, pc) else restart (pc\<lparr>nextbyteReq := rst\<rparr>)))"

definition rq_indices :: "btRequestQueue \<Rightarrow> bool" where
  "rq_indices q \<longleftrightarrow> q_head q < QUEUESIZE \<and> q_tail q < QUEUESIZE"

lemma queue_request_progress:
  assumes "queue_request q piece offset len = Inr (r, q')" and "rq_indices q"
    and "len \<le> REQUEST_SIZE" and "queue_len q < request_depth arate"
  shows "nat (10 - queue_len q') < nat (10 - queue_len q)" and "rq_indices q'"
proof -
  have depth: "request_depth arate \<le> 10" by (simp add: request_depth_def REQMAX_def Let_def)
  have len: "\<not> len > MAXREQUEST" using assms(3) by (simp add: REQUEST_SIZE_def MAXREQUEST_def)
  define h where "h = q_head q"
  define t where "t = q_tail q"
  have ht: "h < 30" "t < 30" using assms(2) by (simp_all add: rq_indices_def QUEUESIZE_def h_def t_def)
  have ql: "queue_len q = (if t < h then int t - int h + 30 else int t - int h)"
    by (simp add: queue_len_def QUEUESIZE_def Let_def h_def t_def)
  then have lt: "(if t < h then int t - int h + 30 else int t - int h) < 10" using assms(4) depth by simp
  have nt: "(t + 1) mod QUEUESIZE = (if t = 29 then 0 else t + 1)" using ht by (simp add: QUEUESIZE_def)
  then have "(t + 1) mod QUEUESIZE \<noteq> h" using lt ht by (auto split: if_splits)
  then have q': "q_head q' = h" "q_tail q' = (if t = 29 then 0 else t + 1)"
    using assms(1) len nt by (auto simp: queue_request_def Let_def bt_bind h_def t_def)
  show "rq_indices q'" using q' ht by (simp add: rq_indices_def QUEUESIZE_def)
  have "queue_len q' = queue_len q + 1"
    using q' lt ht unfolding ql by (auto simp: queue_len_def QUEUESIZE_def Let_def split: if_splits)
  then show "nat (10 - queue_len q') < nat (10 - queue_len q)" using assms(4) depth by simp
qed

text \<open>
  The loop of \<open>peer_send_request\<close>. The indices of a ring are always below \<open>QUEUESIZE\<close>
  (\<open>rq_ok\<close> is kept by every operation on it); outside that range it would leave the array.
\<close>

function request_loop ::
    "int \<Rightarrow> int \<Rightarrow> btPeer \<Rightarrow> btPartialPiece \<Rightarrow> int \<Rightarrow> fault + int \<times> btPeer \<times> btPartialPiece" where
  "request_loop arate blocklen p pc res =
     (if queue_len (p_inqueue p) < request_depth arate then
        if \<not> rq_indices (p_inqueue p) then Inl Oob
        else bindR (next_range (p_inqueue p) pc blocklen) (\<lambda>(range, pc).
          case range of
            None \<Rightarrow> Inr (0, p, pc)
          | Some (start, len) \<Rightarrow>
              let len = (if len > REQUEST_SIZE then REQUEST_SIZE else len);
                  pc = pc\<lparr>nextbyteReq := nextbyteReq pc + len\<rparr>
              in bindR (send_request p (piecenumber pc) start len) (\<lambda>(res, p).
                 bindR (queue_request (p_inqueue p) (piecenumber pc) start len) (\<lambda>(_, q).
                 request_loop arate blocklen (p\<lparr>p_inqueue := q\<rparr>) pc res)))
      else Inr (res, p, pc))"
  by pat_completeness auto
termination
proof (relation "measure (\<lambda>(arate, blocklen, p, pc, res). nat (10 - queue_len (p_inqueue p)))", goal_cases)
  case 1
  show ?case by simp
next
  case (2 arate blocklen p pc res x range pc1 y start len len' pc2 z res1 p1 w _ q)
  then have len: "len' \<le> REQUEST_SIZE" by auto
  have "p_inqueue p1 = p_inqueue p"
    using 2 send_message_frame by (auto simp: send_request_def)
  then show ?case
    using queue_request_progress(1) [of "p_inqueue p" "piecenumber pc2" start len' _ q arate] 2 len
    by auto
qed

declare request_loop.simps [simp del]

definition peer_send_request :: "btContext \<Rightarrow> addr \<Rightarrow> fault + int \<times> btContext" where
  "peer_send_request ctx a =
     bindR (get_peer ctx a) (\<lambda>p.
     bindR (get_dl ctx (p_download p)) (\<lambda>_.
     let arate = in_rate p (clock ctx) in
     bindR (case p_currentPiece p of
              None \<Rightarrow> peer_assign_block ctx a
            | Some n \<Rightarrow> Inr (Some n, ctx)) (\<lambda>(piece, ctx).
       case piece of
         None \<Rightarrow> bindR (at_peer ctx a (update_interested ctx)) (\<lambda>(_, ctx). Inr (0, ctx))
       | Some n \<Rightarrow>
           bindR (get_peer ctx a) (\<lambda>p.
           bindR (get_dl ctx (p_download p)) (\<lambda>d.
           case find_piece (partial (fileset d)) n of
             None \<Rightarrow> Inl Oob
           | Some pc \<Rightarrow>
               bindR (seg_piecelen (fileset d) n) (\<lambda>blocklen.
               bindR (request_loop arate blocklen p pc 0) (\<lambda>(res, p, pc).
               let fs = (fileset d)\<lparr>partial := update_piece pc (partial (fileset d))\<rparr>
               in Inr (res, put_dl (put_peer ctx a p) (p_download p) (d\<lparr>fileset := fs\<rparr>)))))))))"

section \<open>A context to try things on\<close>

text \<open>Nothing downloaded, nobody connected, an empty disk on which everything can be written.\<close>

definition empty_ctx :: btContext where
  "empty_ctx = \<lparr>downloads = [], sockpeer = replicate 1024 None, myid = replicate 20 1, mykey = replicate 8 2,
     listenport = 6881, polls = pollset_create, x_set = replicate SOCKID_MAX False, xsock = 0, ss = 3,
     ulfactor = (1, 0), peers = Map.empty, store = \<lparr>d_file = Map.empty, d_writable = (\<lambda>_. True)\<rparr>, rng = 0,
     clock = 1000, filebuffer = [], junk = [], sys_error = (\<lambda>_. [])\<rparr>"

end
