(* ===== verification/Bt_Proto.thy ===== *)
theory Bt_Proto
  imports Bt_Context
begin

text \<open>
  The protocol of \<open>peer.c\<close>: the handshake, the frames, the handler of each message, and the
  queue of blocks a peer has asked for.
\<close>

section \<open>Errors\<close>

definition BTERR_PROTOCOL_ID :: int where "BTERR_PROTOCOL_ID = 500"
definition BTERR_HASH_MISMATCH :: int where "BTERR_HASH_MISMATCH = 502"
definition BTERR_LARGEPACKET :: int where "BTERR_LARGEPACKET = 507"
definition BTERR_QUEUE_OVERFLOW :: int where "BTERR_QUEUE_OVERFLOW = 509"

section \<open>The handshake\<close>

definition PROTO_LENGTH :: nat where "PROTO_LENGTH = 20"
definition FLAGS_LENGTH :: nat where "FLAGS_LENGTH = 8"
definition SHA_DIGEST_LENGTH :: nat where "SHA_DIGEST_LENGTH = 20"

definition protocol_id :: "byte list" where
  "protocol_id = 0x13 # ascii ''BitTorrent protocol''"

definition peer_send_handshake :: "btContext \<Rightarrow> btPeer \<Rightarrow> fault + int \<times> btPeer" where
  "peer_send_handshake ctx p =
     die_unless (p_download p \<ge> 0)
       (bindR (peer_fwrite p protocol_id 0x14) (\<lambda>(err, p).
        if err < 0 then Inr (- 1, p)
        else bindR (peer_fwrite p (replicate 8 0) 8) (\<lambda>(err, p).
          if err < 0 then Inr (- 2, p)
          else bindR (get_dl ctx (p_download p)) (\<lambda>d.
            bindR (peer_fwrite p (infohash d) 20) (\<lambda>(err, p).
            if err < 0 then Inr (- 3, p)
            else bindR (peer_fwrite p (myid ctx) 20) (\<lambda>(err, p).
              if err < 0 then Inr (- 4, p) else Inr (0, p)))))))"

text \<open>The search for the torrent of an incoming peer; the number of downloads when there is none.\<close>

fun find_torrent :: "btDownload option list \<Rightarrow> byte list \<Rightarrow> nat \<Rightarrow> fault + nat" where
  "find_torrent [] hash i = Inr i"
| "find_torrent (None # ds) hash i = Inl Oob"
| "find_torrent (Some d # ds) hash i =
     (if hash = infohash d then Inr i else find_torrent ds hash (Suc i))"

definition peerset_append :: "btPeerset \<Rightarrow> addr \<Rightarrow> btPeerset" where
  "peerset_append ps a = ps\<lparr>ps_len := ps_len ps + 1, ps_peer := ps_peer ps @ [Some a]\<rparr>"

text \<open>Joining the peer to the torrent it named, and answering with the own handshake.\<close>

definition join_torrent :: "btContext \<Rightarrow> addr \<Rightarrow> nat \<Rightarrow> fault + int \<times> btContext" where
  "join_torrent ctx a i =
     bindR (get_dl ctx (int i)) (\<lambda>d.
     let ctx = put_dl ctx (int i) (d\<lparr>peerset := peerset_append (peerset d) a\<rparr>) in
     bindR (get_peer ctx a) (\<lambda>p.
     let p = p\<lparr>p_download := int i, p_blocks := kBitSet_create (nat (npieces (fileset d)))\<rparr> in
     bindR (peer_send_handshake ctx p) (\<lambda>(r, p).
     bindR (if r < 0 then Inr (r, p) else peer_send_bitfield ctx p) (\<lambda>(r, p).
     if r < 0 then Inr (- 1, put_peer ctx a (p\<lparr>p_state := PEER_ERROR\<rparr>))
     else Inr (0, put_peer ctx a p)))))"

definition check_handshake :: "btContext \<Rightarrow> addr \<Rightarrow> byte list \<Rightarrow> int \<Rightarrow> fault + int \<times> btContext" where
  "check_handshake ctx a shake len =
     bindR (get_peer ctx a) (\<lambda>p.
     let n = int (length (downloads ctx));
         hash = take 20 (drop 28 shake);
         reject = (\<lambda>ctx e. at_peer ctx a (\<lambda>p. Inr (- 1, set_error e p)));
         finish = (\<lambda>ctx.
           if len \<ge> 68 then at_peer ctx a (\<lambda>p. Inr (0, p\<lparr>p_id := take 20 (drop 48 shake)\<rparr>))
           else Inr (0, ctx))
     in if shake = [] then Inl Oob
        else if hd shake \<noteq> 0x13 then reject ctx BTERR_PROTOCOL_ID
        else if len \<ge> 20 \<and> take 20 shake \<noteq> protocol_id then reject ctx BTERR_PROTOCOL_ID
        else if len \<ge> 48 then
          if p_state p = PEER_INCOMING \<and> p_download p = INT_MAX then
            bindR (find_torrent (downloads ctx) hash 0) (\<lambda>i.
              if int i < n then
                bindR (join_torrent ctx a i) (\<lambda>(r, ctx). if r < 0 then Inr (- 1, ctx) else finish ctx)
              else reject ctx BTERR_HASH_MISMATCH)
          else
            bindR (get_dl ctx (p_download p)) (\<lambda>d.
              if hash \<noteq> infohash d then reject ctx BTERR_HASH_MISMATCH else finish ctx)
        else finish ctx)"

definition recv_handshake :: "btContext \<Rightarrow> addr \<Rightarrow> fault + int \<times> btContext" where
  "recv_handshake ctx a =
     bindR (at_peer ctx a (\<lambda>p. bindR (peer_fread p 68) (\<lambda>(r, shake, p). Inr ((r, shake), p))))
       (\<lambda>((err, shake), ctx).
     if err < 0 then
       bindR (get_peer ctx a) (\<lambda>p.
       if str_error (p_ios p) \<noteq> EAGAIN then Inr (- 1, ctx)
       else
         let len = kStream_iqlen (p_ios p); again = (\<lambda>ctx. at_peer ctx a (\<lambda>p. Inr (- 1, set_error EAGAIN p)))
         in if len > 0 then
              bindR (at_peer ctx a (\<lambda>p. bindR (peer_fpeek p len) (\<lambda>(r, shake, p). Inr ((r, shake), p))))
                (\<lambda>((err, shake), ctx).
                   die_unless (err = len)
                     (bindR (check_handshake ctx a shake len) (\<lambda>(r, ctx).
                        if r \<noteq> 0 then at_peer ctx a (\<lambda>p. Inr (- 1, p\<lparr>p_state := PEER_ERROR\<rparr>))
                        else again ctx)))
            else again ctx)
     else
       die_unless (err = 68)
         (bindR (check_handshake ctx a shake 68) (\<lambda>(r, ctx).
            if r \<noteq> 0 then Inr (- 1, ctx)
            else
              bindR (get_peer ctx a) (\<lambda>p.
              bindR (get_dl ctx (p_download p)) (\<lambda>d.
                let ps = peerset d
                in Inr (0, put_dl (put_peer ctx a (p\<lparr>p_state := PEER_GOOD\<rparr>)) (p_download p)
                     (d\<lparr>peerset := ps\<lparr>incomplete := incomplete ps + 1\<rparr>\<rparr>)))))))"

section \<open>Frames\<close>

text \<open>
  The beginning of \<open>recv_peermsg\<close>: the function returns, or the read failed, or there is a
  message of \<open>len\<close> bytes in \<open>nmsg\<close>, which starts with the length. Up to 80 bytes go to an
  array of 84 on the stack, more to a block of just the size.
\<close>

datatype frame_read = Fr_return int | Fr_failed | Fr_msg int "byte list"

definition recv_frame :: "byte list \<Rightarrow> btPeer \<Rightarrow> fault + frame_read \<times> btPeer" where
  "recv_frame stack p =
     bindR (peer_fpeek p 4) (\<lambda>(err, nbo_len, p).
     if err < 0 then Inr (Fr_return (- 1), p)
     else die_unless (err = 4)
       (let len = int32_of_be nbo_len in
        if \<not> len \<le> 80 \<and> \<not> (0 < len \<and> len \<le> MAXMESSAGE)
        then Inr (Fr_return (- 1), set_error BTERR_LARGEPACKET p)
        else if len = 0 then
          bindR (peer_fread p 4) (\<lambda>(err, _, p). die_unless (err = 4) (Inr (Fr_return 0, p)))
        else die_unless (len \<le> MAXMESSAGE \<and> len \<ge> 0)
          (bindR (peer_fread p (len + 4)) (\<lambda>(err, bs, p).
             if err < 0 then Inr (Fr_failed, p)
             else die_unless (err = len + 4)
               (Inr (Fr_msg len (bs @ (if len \<le> 80 then drop (nat len + 4) stack else [])), p))))))"

text \<open>The end of \<open>recv_peermsg\<close>: whether another whole message is buffered.\<close>

definition more_waiting :: "btPeer \<Rightarrow> fault + int \<times> btPeer" where
  "more_waiting p =
     bindR (peer_fpeek p 4) (\<lambda>(err, nbo_len, p).
     if err = 4 then
       let tlen = to_int32 (int32_of_be nbo_len + 4) in
       if tlen < 0 \<or> tlen > MAXMESSAGE then Inr (- 1, set_error BTERR_LARGEPACKET p)
       else Inr (if kStream_iqlen (p_ios p) \<ge> tlen then 1 else 0, p)
     else Inr (0, p))"

text \<open>\<open>UNSHIFT_INT32\<close> at an offset of the message.\<close>

definition get32 :: "byte list \<Rightarrow> nat \<Rightarrow> fault + int" where
  "get32 nmsg off = (if off + 4 \<le> length nmsg then Inr (int32_of_be (take 4 (drop off nmsg))) else Inl Oob)"

section \<open>Handlers\<close>

text \<open>
  Giving up the piece of a peer: it may be assigned again, and requests for it start over at
  the first byte that is missing.
\<close>

definition release_piece :: "btDownload \<Rightarrow> int option \<Rightarrow> fault + btDownload" where
  "release_piece d cur =
     (case cur of
        None \<Rightarrow> Inr d
      | Some n \<Rightarrow>
          (case find_piece (partial (fileset d)) n of
             None \<Rightarrow> Inl Oob
           | Some pc \<Rightarrow>
               bindR (bs_clr (requested d) (piecenumber pc)) (\<lambda>r.
               bindR (bs_firstClr (filled pc)) (\<lambda>rst.
               let pc = (if rst \<ge> 0 then pc\<lparr>nextbyteReq := rst\<rparr> else pc)
               in Inr (d\<lparr>requested := r,
                    fileset := (fileset d)\<lparr>partial := update_piece pc (partial (fileset d))\<rparr>\<rparr>)))))"

definition on_choke :: "btContext \<Rightarrow> addr \<Rightarrow> fault + int \<times> btContext" where
  "on_choke ctx a =
     bindR (get_peer ctx a) (\<lambda>p.
     if choked (p_remote p) then Inr (0, ctx)
     else
       bindR (get_dl ctx (p_download p)) (\<lambda>d.
       bindR (release_piece d (p_currentPiece p)) (\<lambda>d.
       let rem = (p_remote p)\<lparr>choked := True\<rparr>;
           rem = (if interested (p_local p) then stop_rate_timer rem (clock ctx) else rem)
       in Inr (0, put_dl (put_peer ctx a (p\<lparr>p_remote := rem, p_currentPiece := None,
                 p_inqueue := clear_request_queue (p_inqueue p)\<rparr>)) (p_download p) d))))"

text \<open>Starting the timer of what the peer sends and asking it for blocks.\<close>

definition start_requests :: "btContext \<Rightarrow> addr \<Rightarrow> fault + int \<times> btContext" where
  "start_requests ctx a =
     bindR (at_peer ctx a (\<lambda>p. Inr ((), p\<lparr>p_remote := start_rate_timer (p_remote p) (clock ctx)\<rparr>)))
       (\<lambda>(_, ctx). bindR (peer_send_request ctx a) (\<lambda>(r, ctx). Inr (if r \<noteq> 0 then - 1 else 0, ctx)))"

definition on_unchoke :: "btContext \<Rightarrow> addr \<Rightarrow> fault + int \<times> btContext" where
  "on_unchoke ctx a =
     bindR (get_peer ctx a) (\<lambda>p.
     let p = p\<lparr>p_lastreceived := clock ctx\<rparr> in
     if \<not> choked (p_remote p) then Inr (0, put_peer ctx a p)
     else
       let p = p\<lparr>p_remote := (p_remote p)\<lparr>choked := False\<rparr>\<rparr> in
       bindR (if \<not> interested (p_local p) then update_interested ctx p else Inr (1, p)) (\<lambda>(interest, p).
       if interest = 0 then Inr (0, put_peer ctx a p)
       else start_requests (put_peer ctx a p) a))"

definition on_interested :: "btContext \<Rightarrow> addr \<Rightarrow> bool \<Rightarrow> fault + int \<times> btContext" where
  "on_interested ctx a interest =
     bindR (get_peer ctx a) (\<lambda>p.
     bindR (get_dl ctx (p_download p)) (\<lambda>d.
     let ps = peerset d;
         ps = ps\<lparr>interestedpeers := interestedpeers ps + (if interest then 1 else - 1)\<rparr>;
         p = p\<lparr>p_remote := (p_remote p)\<lparr>interested := interest\<rparr>\<rparr>;
         p = (if \<not> choked (p_local p)
              then p\<lparr>p_local := (if interest then start_rate_timer else stop_rate_timer) (p_local p) (clock ctx)\<rparr>
              else p)
     in Inr (0, put_dl (put_peer ctx a p) (p_download p) (d\<lparr>peerset := ps\<rparr>))))"

text \<open>The first time a peer turns out to have every piece.\<close>

definition note_complete :: "btContext \<Rightarrow> addr \<Rightarrow> bool \<Rightarrow> fault + btContext" where
  "note_complete ctx a full =
     bindR (get_peer ctx a) (\<lambda>p.
     if full \<and> \<not> complete_peer (p_remote p) then
       bindR (get_dl ctx (p_download p)) (\<lambda>d.
       let ps = peerset d in
       Inr (put_dl (put_peer ctx a (p\<lparr>p_remote := (p_remote p)\<lparr>complete_peer := True\<rparr>\<rparr>)) (p_download p)
         (d\<lparr>peerset := ps\<lparr>incomplete := incomplete ps - 1\<rparr>\<rparr>)))
     else Inr ctx)"

definition on_have :: "btContext \<Rightarrow> addr \<Rightarrow> byte list \<Rightarrow> fault + int \<times> btContext" where
  "on_have ctx a nmsg =
     bindR (get32 nmsg 5) (\<lambda>block.
     bindR (get_peer ctx a) (\<lambda>p.
     bindR (bs_set (p_blocks p) block) (\<lambda>b.
     bindR (bs_isFull b) (\<lambda>full.
     bindR (note_complete (put_peer ctx a (p\<lparr>p_blocks := b\<rparr>)) a full) (\<lambda>ctx.
     bindR (at_peer ctx a (update_interested ctx)) (\<lambda>(interest, ctx).
     bindR (get_peer ctx a) (\<lambda>p.
     if interest \<noteq> 0 \<and> \<not> snubbed (p_remote p) \<and> \<not> choked (p_remote p)
     then start_requests ctx a else Inr (0, ctx))))))))"

definition on_bitfield :: "btContext \<Rightarrow> addr \<Rightarrow> byte list \<Rightarrow> int \<Rightarrow> fault + int \<times> btContext" where
  "on_bitfield ctx a nmsg len =
     bindR (get_peer ctx a) (\<lambda>p.
     bindR (kBitSet_readBytes (p_blocks p) (drop 5 nmsg) (len - 1)) (\<lambda>b.
     bindR (bs_countBits b) (\<lambda>n.
     bindR (note_complete (put_peer ctx a (p\<lparr>p_blocks := b\<rparr>)) a (nbits b = n)) (\<lambda>ctx.
     bindR (at_peer ctx a (update_interested ctx)) (\<lambda>(_, ctx). Inr (0, ctx))))))"

definition on_request :: "btContext \<Rightarrow> addr \<Rightarrow> byte list \<Rightarrow> fault + int \<times> btContext" where
  "on_request ctx a nmsg =
     bindR (get32 nmsg 5) (\<lambda>piece. bindR (get32 nmsg 9) (\<lambda>offs. bindR (get32 nmsg 13) (\<lambda>len.
     bindR (get_peer ctx a) (\<lambda>p.
     if choked (p_local p) then Inr (0, ctx)
     else
       bindR (bs_isSet (p_blocks p) piece) (\<lambda>theirs.
       bindR (get_dl ctx (p_download p)) (\<lambda>d.
       bindR (if theirs then Inr False else bs_isSet (completed (fileset d)) piece) (\<lambda>ok.
       if ok then
         bindR (queue_request (p_queue p) piece offs len) (\<lambda>(res, q).
         let p = p\<lparr>p_queue := q\<rparr>
         in Inr (res, put_peer ctx a (if res \<noteq> 0 then set_error BTERR_QUEUE_OVERFLOW p else p)))
       else
         bindR (send_choke p True) (\<lambda>(_, p).
         Inr (0, put_peer ctx a (p\<lparr>p_local := stop_rate_timer (p_local p) (clock ctx)\<rparr>)))))))))) "

text \<open>Cancelling all that is outstanding at a peer; an index outside the ring leaves the array.\<close>

function cancel_all :: "btPeer \<Rightarrow> fault + btPeer" where
  "cancel_all p =
     (if \<not> rq_indices (p_inqueue p) then Inl Oob
      else bindR (dequeue_request (p_inqueue p)) (\<lambda>(req, q).
        let p = p\<lparr>p_inqueue := q\<rparr> in
        case req of
          None \<Rightarrow> Inr p
        | Some r \<Rightarrow>
            bindR (send_cancel p (rq_block r) (rq_offset r) (rq_length r)) (\<lambda>(res, p).
            cancel_all (if res \<noteq> 0 then p\<lparr>p_state := PEER_ERROR\<rparr> else p))))"
  by pat_completeness auto
termination
proof (relation "measure (\<lambda>p. rq_count (p_inqueue p))", goal_cases)
  case 1
  show ?case by simp
next
  case (2 p x req q p1 r y res p2)
  then have q: "dequeue_request (p_inqueue p) = Inr (Some r, q)" by simp
  have "p_inqueue p2 = q"
    using 2 send_message_frame(1) by (auto simp: send_cancel_def)
  moreover have "rq_count q < rq_count (p_inqueue p)"
  proof -
    define h where "h = q_head (p_inqueue p)"
    define t where "t = q_tail (p_inqueue p)"
    have ht: "h < 30" "t < 30" using 2(1) by (simp_all add: rq_indices_def QUEUESIZE_def h_def t_def)
    have "h \<noteq> t" "q_head q = (h + 1) mod 30" "q_tail q = t"
      using q by (auto simp: dequeue_request_def Let_def bindR_Inr_iff QUEUESIZE_def h_def t_def split: if_splits)
    moreover have "(h + 1) mod 30 = (if h = 29 then 0 else h + 1)" using ht by simp
    ultimately show ?thesis using ht
      by (auto simp: rq_count_def QUEUESIZE_def h_def [symmetric] t_def [symmetric] mod_if split: if_splits)
  qed
  ultimately show ?case by simp
qed

declare cancel_all.simps [simp del]

text \<open>What is done for one peer of the torrent when a piece is complete.\<close>

definition drop_piece :: "btContext \<Rightarrow> addr \<Rightarrow> int option \<Rightarrow> fault + btContext" where
  "drop_piece ctx b pp =
     bindR (get_peer ctx b) (\<lambda>p.
     if p_currentPiece p = pp then
       bindR (cancel_all (p\<lparr>p_currentPiece := None\<rparr>)) (\<lambda>p.
       bindR (peer_send_request (put_peer ctx b p) b) (\<lambda>(_, ctx). Inr ctx))
     else Inr ctx)"

definition tell_have :: "btContext \<Rightarrow> addr \<Rightarrow> int \<Rightarrow> fault + btContext" where
  "tell_have ctx b piece =
     bindR (get_peer ctx b) (\<lambda>p.
     if p_state p = PEER_GOOD then
       bindR (send_have p piece) (\<lambda>(r, p).
       Inr (put_peer ctx b (if r \<noteq> 0 then p\<lparr>p_state := PEER_ERROR\<rparr> else p)))
     else Inr ctx)"

definition notify_peer :: "btContext \<Rightarrow> addr \<Rightarrow> int option \<Rightarrow> int \<Rightarrow> fault + btContext" where
  "notify_peer ctx b pp piece = bindR (drop_piece ctx b pp) (\<lambda>ctx. tell_have ctx b piece)"

definition notify_all :: "btContext \<Rightarrow> int \<Rightarrow> int option \<Rightarrow> int \<Rightarrow> nat \<Rightarrow> fault + btContext" where
  "notify_all ctx dlid pp piece n =
     for_loop 0 n
       (\<lambda>i ctx. bindR (get_dl ctx dlid) (\<lambda>d.
          bindR (arr_get (ps_peer (peerset d)) (int i)) (\<lambda>b.
          bindR (deref b) (\<lambda>b. notify_peer ctx b pp piece)))) ctx"

text \<open>Storing a block that was asked for; a whole piece is announced to every peer of the torrent.\<close>

definition store_block ::
    "btContext \<Rightarrow> addr \<Rightarrow> int option \<Rightarrow> int \<Rightarrow> int \<Rightarrow> byte list \<Rightarrow> int \<Rightarrow> fault + int \<times> btContext" where
  "store_block ctx a pp piece offs buf len =
     bindR (get_peer ctx a) (\<lambda>p.
     bindR (get_dl ctx (p_download p)) (\<lambda>d.
     bindR (seg_writebuf (fileset d) (store ctx) piece offs buf len) (\<lambda>(cpl, fs, dsk).
     if cpl < 0 then Inl Abort
     else
       let ctx = (put_dl ctx (p_download p) (d\<lparr>fileset := fs\<rparr>))\<lparr>store := dsk\<rparr> in
       bindR (if cpl \<noteq> 0 then
                bindR (bs_clr (wanted d) piece) (\<lambda>w.
                notify_all (put_dl ctx (p_download p) (d\<lparr>fileset := fs, wanted := w\<rparr>))
                  (p_download p) pp piece (nat (ps_len (peerset d))))
              else Inr ctx) (\<lambda>ctx.
       bindR (peer_send_request ctx a) (\<lambda>(r, ctx). Inr (if r \<noteq> 0 then - 1 else 0, ctx))))))"

definition on_piece :: "btContext \<Rightarrow> addr \<Rightarrow> byte list \<Rightarrow> int \<Rightarrow> fault + int \<times> btContext" where
  "on_piece ctx a nmsg len =
     bindR (get32 nmsg 5) (\<lambda>piece. bindR (get32 nmsg 9) (\<lambda>offs.
     bindR (get_peer ctx a) (\<lambda>p.
     let pp = p_currentPiece p in
     bindR (if pp = None then Inr (0, p_inqueue p)
            else remove_queued_request (p_inqueue p) piece offs (len - 9)) (\<lambda>(removed, q).
     let ctx = put_peer ctx a (p\<lparr>p_lastreceived := clock ctx, p_inqueue := q\<rparr>) in
     if removed = 0 then Inr (0, ctx)
     else store_block ctx a pp piece offs (drop 13 nmsg) (len - 9)))))"

definition on_cancel :: "btContext \<Rightarrow> addr \<Rightarrow> byte list \<Rightarrow> fault + int \<times> btContext" where
  "on_cancel ctx a nmsg =
     bindR (get32 nmsg 5) (\<lambda>piece. bindR (get32 nmsg 9) (\<lambda>offs. bindR (get32 nmsg 13) (\<lambda>len.
     bindR (at_peer ctx a (\<lambda>p.
       bindR (remove_queued_request (p_queue p) piece offs len) (\<lambda>(n, q). Inr (n, p\<lparr>p_queue := q\<rparr>))))
       (\<lambda>(_, ctx). Inr (0, ctx)))))"

definition handle_message :: "btContext \<Rightarrow> addr \<Rightarrow> byte list \<Rightarrow> int \<Rightarrow> fault + int \<times> btContext" where
  "handle_message ctx a nmsg len =
     (if length nmsg < 5 then Inl Oob
      else
        let type = nmsg ! 4 in
        if type = BT_MSG_CHOKE then on_choke ctx a
        else if type = BT_MSG_UNCHOKE then on_unchoke ctx a
        else if type = BT_MSG_INTERESTED then on_interested ctx a True
        else if type = BT_MSG_NOTINTERESTED then on_interested ctx a False
        else if type = BT_MSG_HAVE then on_have ctx a nmsg
        else if type = BT_MSG_BITFIELD then on_bitfield ctx a nmsg len
        else if type = BT_MSG_REQUEST then on_request ctx a nmsg
        else if type = BT_MSG_PIECE then on_piece ctx a nmsg len
        else if type = BT_MSG_CANCEL then on_cancel ctx a nmsg
        else Inr (- 2, ctx))"

definition recv_peermsg :: "btContext \<Rightarrow> addr \<Rightarrow> fault + int \<times> btContext" where
  "recv_peermsg ctx a =
     bindR (get_peer ctx a) (\<lambda>p.
     bindR (get_dl ctx (p_download p)) (\<lambda>_.
     bindR (at_peer ctx a (recv_frame (junk ctx))) (\<lambda>(fr, ctx).
     case fr of
       Fr_return r \<Rightarrow> Inr (r, ctx)
     | Fr_failed \<Rightarrow> Inr (- 1, ctx)
     | Fr_msg len nmsg \<Rightarrow>
         bindR (handle_message ctx a nmsg len) (\<lambda>(res, ctx).
         if res = 0 then at_peer ctx a more_waiting else Inr (res, ctx)))))"

definition peer_recv_message :: "btContext \<Rightarrow> addr \<Rightarrow> fault + int \<times> btContext" where
  "peer_recv_message ctx a =
     bindR (get_peer ctx a) (\<lambda>p.
     case p_state p of
       PEER_INIT \<Rightarrow> Inr (0, ctx)
     | PEER_GOOD \<Rightarrow> recv_peermsg ctx a
     | PEER_ERROR \<Rightarrow> Inr (- 3, ctx)
     | _ \<Rightarrow>
         bindR (recv_handshake ctx a) (\<lambda>(res, ctx).
         if res = 0 then at_peer ctx a (\<lambda>p. Inr (1, p\<lparr>p_state := PEER_GOOD\<rparr>))
         else Inr (res, ctx)))"

section \<open>Serving blocks\<close>

definition process_queue :: "btContext \<Rightarrow> addr \<Rightarrow> int \<Rightarrow> fault + int \<times> btContext" where
  "process_queue ctx a dlid =
     bindR (get_dl ctx dlid) (\<lambda>d.
     bindR (get_peer ctx a) (\<lambda>p.
     bindR (dequeue_request (p_queue p)) (\<lambda>(req, q).
     let p = p\<lparr>p_queue := q\<rparr> in
     case req of
       None \<Rightarrow> Inr (0, put_peer ctx a p)
     | Some r \<Rightarrow>
         bindR (seg_readbuf (fileset d) (store ctx) (rq_block r) (rq_offset r) (filebuffer ctx) (rq_length r))
           (\<lambda>(err, buf).
         let ctx = ctx\<lparr>filebuffer := buf\<rparr> in
         if err < 0 then Inr (err, put_peer ctx a p)
         else
           bindR (send_piece p (rq_block r) (rq_offset r) buf (rq_length r)) (\<lambda>(err, p).
           if err < 0 then Inr (err, put_peer ctx a p)
           else
             let fs = fileset d
             in Inr (1, put_dl (put_peer ctx a p) dlid
                  (d\<lparr>fileset := fs\<lparr>ul := ul fs + rq_length r\<rparr>\<rparr>)))))))"

definition peer_process_queue :: "btContext \<Rightarrow> addr \<Rightarrow> int \<Rightarrow> fault + int \<times> btContext" where
  "peer_process_queue ctx a dlid =
     bindR (get_peer ctx a) (\<lambda>p.
     if kStream_oqlen (p_ios p) \<le> 8096 then process_queue ctx a dlid else Inr (0, ctx))"

end
