(* ===== verification/Bt_Progress.thy ===== *)
theory Bt_Progress
  imports Bt_Proto
begin

text \<open>
  What the handlers do to the input: only the reading functions take bytes from it. A handler
  that sends leaves what every peer has still to be read as it was, so each message consumed
  makes the pending input shorter. That is why the loop of \<open>client_run\<close> ends.
\<close>

section \<open>Pending input\<close>

definition p_pending :: "btPeer \<Rightarrow> byte list" where
  "p_pending p = in_pending (p_ios p) (p_sock p)"

definition pending :: "btContext \<Rightarrow> addr \<Rightarrow> byte list" where
  "pending ctx a = (case peers ctx a of None \<Rightarrow> [] | Some p \<Rightarrow> p_pending p)"

definition quiet :: "btContext \<Rightarrow> btContext \<Rightarrow> bool" where
  "quiet ctx ctx' \<longleftrightarrow> (\<forall>a. pending ctx' a = pending ctx a)"

lemma quiet_refl [simp]: "quiet ctx ctx"
  by (simp add: quiet_def)

lemma quiet_trans [trans]: "quiet a b \<Longrightarrow> quiet b c \<Longrightarrow> quiet a c"
  by (simp add: quiet_def)

lemma pending_put [simp]: "pending (put_peer ctx a p) b = (if b = a then p_pending p else pending ctx b)"
  by (simp add: pending_def put_peer_def)

lemma pending_put_dl [simp]: "pending (put_dl ctx i d) = pending ctx"
  by (simp add: pending_def put_dl_def fun_eq_iff)

lemma pending_env [simp]:
  "pending (ctx\<lparr>rng := x\<rparr>) = pending ctx" "pending (ctx\<lparr>store := y\<rparr>) = pending ctx"
  "pending (ctx\<lparr>filebuffer := z\<rparr>) = pending ctx"
  by (simp_all add: pending_def fun_eq_iff)

lemma get_peer_Inr: "get_peer ctx a = Inr p \<longleftrightarrow> peers ctx a = Some p"
  by (simp add: get_peer_def split: option.splits)

lemma get_peer_pending: "get_peer ctx a = Inr p \<Longrightarrow> pending ctx a = p_pending p"
  by (simp add: get_peer_Inr pending_def)

text \<open>A peer written back with the same input, wherever else the context has changed.\<close>

lemma quiet_put:
  "quiet ctx (put_peer ctx' a p) \<longleftrightarrow> (\<forall>b. b \<noteq> a \<longrightarrow> pending ctx' b = pending ctx b) \<and> p_pending p = pending ctx a"
  by (auto simp: quiet_def)

lemma quiet_put_peer:
  "get_peer ctx' a = Inr p \<Longrightarrow> p_pending q = p_pending p \<Longrightarrow> quiet ctx ctx' \<Longrightarrow> quiet ctx (put_peer ctx' a q)"
  by (auto simp: quiet_def dest!: get_peer_pending)

lemma quiet_put_dl [simp]: "quiet ctx (put_dl ctx' i d) \<longleftrightarrow> quiet ctx ctx'"
  by (simp add: quiet_def)

lemma quiet_env [simp]:
  "quiet ctx (ctx'\<lparr>rng := x\<rparr>) \<longleftrightarrow> quiet ctx ctx'" "quiet ctx (ctx'\<lparr>store := y\<rparr>) \<longleftrightarrow> quiet ctx ctx'"
  "quiet ctx (ctx'\<lparr>filebuffer := z\<rparr>) \<longleftrightarrow> quiet ctx ctx'"
  by (simp_all add: quiet_def)

text \<open>Changes of a peer that leave its stream alone.\<close>

lemma p_pending_simps [simp]:
  "p_pending (p\<lparr>p_state := st\<rparr>) = p_pending p" "p_pending (p\<lparr>p_download := i\<rparr>) = p_pending p"
  "p_pending (p\<lparr>p_id := bs\<rparr>) = p_pending p" "p_pending (p\<lparr>p_blocks := b\<rparr>) = p_pending p"
  "p_pending (p\<lparr>p_remote := s\<rparr>) = p_pending p" "p_pending (p\<lparr>p_local := s\<rparr>) = p_pending p"
  "p_pending (p\<lparr>p_currentPiece := c\<rparr>) = p_pending p" "p_pending (p\<lparr>p_inqueue := q\<rparr>) = p_pending p"
  "p_pending (p\<lparr>p_queue := q\<rparr>) = p_pending p" "p_pending (p\<lparr>p_lastreceived := t\<rparr>) = p_pending p"
  "p_pending (set_error e p) = p_pending p"
  by (simp_all add: p_pending_def set_error_def in_pending_def)

section \<open>Sending leaves the input alone\<close>

lemma kStream_write_input:
  "kStream_write s n bs = (r, s', n') \<Longrightarrow> ibuf s' = ibuf s \<and> rx n' = rx n"
  using kStream_writeD(4,6) by blast

lemma kStream_flushD:
  "kStream_flush s n = Inr (r, s', n') \<Longrightarrow> ibuf s' = ibuf s \<and> rx n' = rx n"
  by (auto simp: kStream_flush_def Let_def bindR_Inr_iff dest!: kStream_write_input split: prod.splits if_splits)

lemma kStream_fwriteD:
  "kStream_fwrite s n buf len = Inr (r, s', n') \<Longrightarrow> ibuf s' = ibuf s \<and> rx n' = rx n"
  by (auto simp: kStream_fwrite_def bindR_Inr_iff dest!: kStream_flushD)

lemma peer_fwrite_quiet: "peer_fwrite p buf len = Inr (r, q) \<Longrightarrow> p_pending q = p_pending p"
  by (auto simp: peer_fwrite_def bindR_Inr_iff p_pending_def in_pending_def rx_bytes_def dest!: kStream_fwriteD)

lemma send_message_quiet: "send_message p buf len = Inr (r, q) \<Longrightarrow> p_pending q = p_pending p"
  by (auto simp: send_message_def bindR_Inr_iff dest!: peer_fwrite_quiet split: if_splits)

lemma send_choke_quiet: "send_choke p c = Inr (r, q) \<Longrightarrow> p_pending q = p_pending p"
  by (auto simp: send_choke_def Let_def dest!: send_message_quiet split: if_splits)

lemma send_interested_quiet: "send_interested p c = Inr (r, q) \<Longrightarrow> p_pending q = p_pending p"
  by (auto simp: send_interested_def Let_def dest!: send_message_quiet)

lemma send_bitfield_quiet: "send_bitfield p s = Inr (r, q) \<Longrightarrow> p_pending q = p_pending p"
  by (auto simp: send_bitfield_def Let_def bindR_Inr_iff dest!: peer_fwrite_quiet split: if_splits)

lemma send_piece_quiet: "send_piece p n off bs len = Inr (r, q) \<Longrightarrow> p_pending q = p_pending p"
  by (auto simp: send_piece_def Let_def bindR_Inr_iff dest!: peer_fwrite_quiet split: if_splits)

lemma update_interested_quiet: "update_interested ctx p = Inr (r, q) \<Longrightarrow> p_pending q = p_pending p"
proof -
  assume "update_interested ctx p = Inr (r, q)"
  then obtain i r1 q1 where "send_interested p i = Inr (r1, q1) \<and> p_pending q = p_pending q1 \<or> q = p"
    unfolding update_interested_def Let_def bindR_Inr_iff
    by (elim exE conjE) (fastforce simp: bindR_Inr_iff split: if_splits)
  then show ?thesis using send_interested_quiet by auto
qed

lemma peer_send_bitfield_quiet: "peer_send_bitfield ctx p = Inr (r, q) \<Longrightarrow> p_pending q = p_pending p"
  by (auto simp: peer_send_bitfield_def bindR_Inr_iff dest!: send_bitfield_quiet)

lemma peer_send_handshake_quiet: "peer_send_handshake ctx p = Inr (r, q) \<Longrightarrow> p_pending q = p_pending p"
  unfolding peer_send_handshake_def die_unless_Inr_iff bindR_Inr_iff
  by (elim exE conjE) (fastforce simp: bindR_Inr_iff dest: peer_fwrite_quiet split: if_splits)

lemma at_peer_quiet:
  assumes "at_peer ctx a f = Inr (r, ctx')" and "\<And>p r q. f p = Inr (r, q) \<Longrightarrow> p_pending q = p_pending p"
  shows "quiet ctx ctx'"
  using assms by (auto simp: at_peer_def bindR_Inr_iff intro!: quiet_put_peer)

text \<open>What holds of the peer and the piece before the loop of requests, and is kept by a turn of it.\<close>

lemma request_loop_invD:
  assumes "request_loop arate blocklen p pc res = Inr (r, p', pc')" and "P p pc"
    and range: "\<And>p pc blocklen range pc'. P p pc \<Longrightarrow> next_range (p_inqueue p) pc blocklen = Inr (range, pc') \<Longrightarrow> P p pc'"
    and ask: "\<And>p pc off len r q qq x. P p pc \<Longrightarrow> send_request p (piecenumber pc) off len = Inr (r, q) \<Longrightarrow>
      P (q\<lparr>p_inqueue := qq\<rparr>) (pc\<lparr>nextbyteReq := x\<rparr>)"
  shows "P p' pc'"
  using assms(1,2)
proof (induction arate blocklen p pc res arbitrary: r p' pc' rule: request_loop.induct)
  case (1 arate blocklen p pc res)
  show ?case
  proof (cases "queue_len (p_inqueue p) < request_depth arate \<and> rq_indices (p_inqueue p)")
    case False
    then show ?thesis using 1(2,3) by (subst (asm) request_loop.simps) (auto split: if_splits)
  next
    case True
    then obtain range pc1 where n: "next_range (p_inqueue p) pc blocklen = Inr (range, pc1)"
      and k: "(case range of None \<Rightarrow> Inr (0, p, pc1)
          | Some (start, len) \<Rightarrow>
              let len = (if len > REQUEST_SIZE then REQUEST_SIZE else len);
                  pc = pc1\<lparr>nextbyteReq := nextbyteReq pc1 + len\<rparr>
              in bindR (send_request p (piecenumber pc) start len) (\<lambda>(res, p).
                 bindR (queue_request (p_inqueue p) (piecenumber pc) start len) (\<lambda>(_, q).
                 request_loop arate blocklen (p\<lparr>p_inqueue := q\<rparr>) pc res))) = Inr (r, p', pc')"
      using 1(2) by (subst (asm) request_loop.simps) (auto simp: bindR_Inr_iff)
    have P1: "P p pc1" by (rule range [OF 1(3) n])
    show ?thesis
    proof (cases range)
      case None
      then show ?thesis using k P1 by simp
    next
      case (Some sl)
      obtain start len where sl: "sl = (start, len)" by (cases sl)
      define len' where "len' = (if len > REQUEST_SIZE then REQUEST_SIZE else len)"
      define pc2 where "pc2 = pc1\<lparr>nextbyteReq := nextbyteReq pc1 + len'\<rparr>"
      obtain res1 p1 x qq where s: "send_request p (piecenumber pc2) start len' = Inr (res1, p1)"
        "queue_request (p_inqueue p1) (piecenumber pc2) start len' = Inr (x, qq)"
        "request_loop arate blocklen (p1\<lparr>p_inqueue := qq\<rparr>) pc2 res1 = Inr (r, p', pc')"
        using k unfolding Some sl by (auto simp: Let_def bindR_Inr_iff len'_def pc2_def)
      have "P (p1\<lparr>p_inqueue := qq\<rparr>) pc2"
        using ask [OF P1, of start len' res1 p1 qq] s(1) by (simp add: pc2_def)
      then show ?thesis
        by (intro 1(1) [of "(range, pc1)" range pc1 sl start len len' pc2 "(res1, p1)" res1 p1 "(x, qq)" x qq r p' pc'])
          (use True n s Some sl in \<open>simp_all add: len'_def pc2_def\<close>)
    qed
  qed
qed

lemma request_loop_quiet:
  "request_loop arate blocklen p pc res = Inr (r, q, pc') \<Longrightarrow> p_pending q = p_pending p"
  by (rule request_loop_invD [where P = "\<lambda>q _. p_pending q = p_pending p"])
    (auto simp: send_request_def dest!: send_message_quiet)

text \<open>The loop writes to the peer's stream and ring, and moves the mark of the piece.\<close>

lemma request_loop_changes:
  "request_loop arate blocklen p pc res = Inr (r, p', pc') \<Longrightarrow>
     p_download p' = p_download p \<and> (\<exists>x. pc' = pc\<lparr>nextbyteReq := x\<rparr>)"
  by (rule request_loop_invD [where P = "\<lambda>q pc'. p_download q = p_download p \<and> (\<exists>x. pc' = pc\<lparr>nextbyteReq := x\<rparr>)"])
    (auto simp: send_request_def next_range_def Let_def bindR_Inr_iff send_message_frame(3)
      intro: exI [of _ "nextbyteReq pc"] split: if_splits)

lemma peer_assign_block_quiet: "peer_assign_block ctx a = Inr (r, ctx') \<Longrightarrow> quiet ctx ctx'"
  by (auto simp: peer_assign_block_def Let_def bindR_Inr_iff quiet_def get_peer_pending split: option.splits if_splits prod.splits)

lemma peer_send_request_quiet: "peer_send_request ctx a = Inr (r, ctx') \<Longrightarrow> quiet ctx ctx'"
proof -
  assume a: "peer_send_request ctx a = Inr (r, ctx')"
  then obtain p piece ctx1 where 1: "get_peer ctx a = Inr p"
    "(case p_currentPiece p of None \<Rightarrow> peer_assign_block ctx a | Some n \<Rightarrow> Inr (Some n, ctx)) = Inr (piece, ctx1)"
    by (auto simp: peer_send_request_def Let_def bindR_Inr_iff)
  have q1: "quiet ctx ctx1" using 1(2) peer_assign_block_quiet by (auto split: option.splits)
  show ?thesis
  proof (cases piece)
    case None
    then show ?thesis
      using a 1 by (auto simp: peer_send_request_def Let_def bindR_Inr_iff
          intro!: quiet_trans [OF q1] elim!: at_peer_quiet dest: update_interested_quiet)
  next
    case (Some n)
    then obtain p1 p2 d pc blocklen pc' where "get_peer ctx1 a = Inr p1"
      "request_loop (in_rate p (clock ctx)) blocklen p1 pc 0 = Inr (r, p2, pc')"
      "ctx' = put_dl (put_peer ctx1 a p2) (p_download p2) d"
      using a 1 by (auto simp: peer_send_request_def Let_def bindR_Inr_iff split: option.splits)
    then show ?thesis using quiet_put_peer request_loop_quiet q1 by auto
  qed
qed

section \<open>Handlers leave the input alone\<close>

lemma cancel_all_quiet: "cancel_all p = Inr q \<Longrightarrow> p_pending q = p_pending p"
proof (induction p arbitrary: q rule: cancel_all.induct)
  case (1 p)
  then obtain req r where d: "rq_indices (p_inqueue p)" "dequeue_request (p_inqueue p) = Inr (req, r)"
    by (subst (asm) (2) cancel_all.simps) (auto simp: bindR_Inr_iff split: if_splits)
  show ?case
  proof (cases req)
    case None
    then show ?thesis using 1(2) d by (subst (asm) cancel_all.simps) auto
  next
    case (Some rq)
    obtain res p1 where s: "send_cancel (p\<lparr>p_inqueue := r\<rparr>) (rq_block rq) (rq_offset rq) (rq_length rq) = Inr (res, p1)"
      "cancel_all (if res \<noteq> 0 then p1\<lparr>p_state := PEER_ERROR\<rparr> else p1) = Inr q"
      using 1(2) d Some by (subst (asm) cancel_all.simps) (auto simp: bindR_Inr_iff Let_def)
    have "p_pending q = p_pending (if res \<noteq> 0 then p1\<lparr>p_state := PEER_ERROR\<rparr> else p1)"
      using 1(1) [OF _ d(2) refl refl Some s(1) refl s(2)] d(1) by simp
    moreover have "p_pending p1 = p_pending (p\<lparr>p_inqueue := r\<rparr>)"
      using s(1) send_message_quiet by (simp add: send_cancel_def)
    ultimately show ?thesis by simp
  qed
qed

lemma drop_piece_quiet: "drop_piece ctx b pp = Inr ctx' \<Longrightarrow> quiet ctx ctx'"
proof -
  assume a: "drop_piece ctx b pp = Inr ctx'"
  then obtain p where p: "get_peer ctx b = Inr p" by (auto simp: drop_piece_def bindR_Inr_iff)
  show ?thesis
  proof (cases "p_currentPiece p = pp")
    case True
    then obtain p2 r where 1: "cancel_all (p\<lparr>p_currentPiece := None\<rparr>) = Inr p2"
      "peer_send_request (put_peer ctx b p2) b = Inr (r, ctx')"
      using a p by (auto simp: drop_piece_def bindR_Inr_iff)
    have "quiet ctx (put_peer ctx b p2)"
      using cancel_all_quiet [OF 1(1)] by (auto intro: quiet_put_peer [OF p])
    then show ?thesis using peer_send_request_quiet [OF 1(2)] quiet_trans by blast
  next
    case False
    then show ?thesis using a p by (simp add: drop_piece_def)
  qed
qed

lemma tell_have_quiet: "tell_have ctx b piece = Inr ctx' \<Longrightarrow> quiet ctx ctx'"
  by (auto simp: tell_have_def send_have_def bindR_Inr_iff dest!: send_message_quiet
      intro!: quiet_put_peer split: if_splits)

lemma notify_peer_quiet: "notify_peer ctx b pp piece = Inr ctx' \<Longrightarrow> quiet ctx ctx'"
  unfolding notify_peer_def bindR_Inr_iff
  by (blast intro: quiet_trans drop_piece_quiet tell_have_quiet)

lemma notify_all_quiet:
  assumes "notify_all ctx i pp piece n = Inr ctx'"
  shows "quiet ctx ctx'"
  using assms unfolding notify_all_def
  by (rule for_loop_invD [where P = "\<lambda>_. quiet ctx"])
    (auto simp: bindR_Inr_iff dest!: notify_peer_quiet elim: quiet_trans)

lemma on_choke_quiet: "on_choke ctx a = Inr (r, ctx') \<Longrightarrow> quiet ctx ctx'"
  by (auto simp: on_choke_def Let_def bindR_Inr_iff intro!: quiet_put_peer split: if_splits)

lemma start_requests_quiet: "start_requests ctx a = Inr (r, ctx') \<Longrightarrow> quiet ctx ctx'"
proof -
  assume "start_requests ctx a = Inr (r, ctx')"
  then obtain ctx1 r1 where 1: "at_peer ctx a (\<lambda>p. Inr ((), p\<lparr>p_remote := start_rate_timer (p_remote p) (clock ctx)\<rparr>)) =
      Inr ((), ctx1)" "peer_send_request ctx1 a = Inr (r1, ctx')"
    by (auto simp: start_requests_def bindR_Inr_iff)
  have "quiet ctx ctx1" by (rule at_peer_quiet [OF 1(1)]) auto
  then show ?thesis using peer_send_request_quiet [OF 1(2)] quiet_trans by blast
qed

lemma on_unchoke_quiet: "on_unchoke ctx a = Inr (r, ctx') \<Longrightarrow> quiet ctx ctx'"
proof -
  assume a: "on_unchoke ctx a = Inr (r, ctx')"
  then obtain p where p: "get_peer ctx a = Inr p" by (auto simp: on_unchoke_def bindR_Inr_iff)
  define p0 where "p0 = p\<lparr>p_lastreceived := clock ctx, p_remote := (p_remote p)\<lparr>choked := False\<rparr>\<rparr>"
  have "\<exists>p1. p_pending p1 = p_pending p \<and>
      (ctx' = put_peer ctx a p1 \<or> start_requests (put_peer ctx a p1) a = Inr (r, ctx'))"
  proof (cases "choked (p_remote p)")
    case False
    then show ?thesis using a p by (auto simp: on_unchoke_def intro!: exI [of _ "p\<lparr>p_lastreceived := clock ctx\<rparr>"])
  next
    case True
    then obtain i p1 where 1: "(if \<not> interested (p_local p0) then update_interested ctx p0 else Inr (1, p0)) = Inr (i, p1)"
      "(if i = 0 then Inr (0, put_peer ctx a p1) else start_requests (put_peer ctx a p1) a) = Inr (r, ctx')"
      using a p by (auto simp: on_unchoke_def Let_def bindR_Inr_iff p0_def cong: if_cong)
    then have "p_pending p1 = p_pending p0" using update_interested_quiet by (auto split: if_splits)
    then show ?thesis using 1(2) by (intro exI [of _ p1]) (auto simp: p0_def split: if_splits)
  qed
  then obtain p1 where 1: "get_peer ctx a = Inr p" "p_pending p1 = p_pending p"
    "ctx' = put_peer ctx a p1 \<or> start_requests (put_peer ctx a p1) a = Inr (r, ctx')" using p by blast
  then have "quiet ctx (put_peer ctx a p1)" by (auto intro: quiet_put_peer)
  then show ?thesis using 1(3) start_requests_quiet quiet_trans by blast
qed

lemma on_interested_quiet: "on_interested ctx a i = Inr (r, ctx') \<Longrightarrow> quiet ctx ctx'"
  by (auto simp: on_interested_def Let_def bindR_Inr_iff intro!: quiet_put_peer split: if_splits)

lemma note_complete_quiet: "note_complete ctx a f = Inr ctx' \<Longrightarrow> quiet ctx ctx'"
  by (auto simp: note_complete_def Let_def bindR_Inr_iff intro!: quiet_put_peer split: if_splits)

lemma update_at_quiet: "at_peer ctx a (update_interested c) = Inr (r, ctx') \<Longrightarrow> quiet ctx ctx'"
  by (erule at_peer_quiet) (rule update_interested_quiet)

lemma on_have_quiet: "on_have ctx a nmsg = Inr (r, ctx') \<Longrightarrow> quiet ctx ctx'"
proof -
  assume "on_have ctx a nmsg = Inr (r, ctx')"
  then obtain p b full ctx1 i ctx2 where 1: "get_peer ctx a = Inr p"
    "note_complete (put_peer ctx a (p\<lparr>p_blocks := b\<rparr>)) a full = Inr ctx1"
    "at_peer ctx1 a (update_interested ctx1) = Inr (i, ctx2)"
    "ctx' = ctx2 \<or> start_requests ctx2 a = Inr (r, ctx')"
    unfolding on_have_def bindR_Inr_iff by (elim exE conjE) (fastforce simp: bindR_Inr_iff split: if_splits)
  have "quiet ctx (put_peer ctx a (p\<lparr>p_blocks := b\<rparr>))" using 1(1) by (auto intro: quiet_put_peer)
  also have "quiet \<dots> ctx1" using 1(2) by (rule note_complete_quiet)
  also have "quiet \<dots> ctx2" using 1(3) by (rule update_at_quiet)
  also have "quiet \<dots> ctx'" using 1(4) start_requests_quiet by auto
  finally show ?thesis .
qed

lemma on_bitfield_quiet: "on_bitfield ctx a nmsg len = Inr (r, ctx') \<Longrightarrow> quiet ctx ctx'"
proof -
  assume "on_bitfield ctx a nmsg len = Inr (r, ctx')"
  then obtain p b full ctx1 i where 1: "get_peer ctx a = Inr p"
    "note_complete (put_peer ctx a (p\<lparr>p_blocks := b\<rparr>)) a full = Inr ctx1"
    "at_peer ctx1 a (update_interested ctx1) = Inr (i, ctx')"
    unfolding on_bitfield_def bindR_Inr_iff by (elim exE conjE) (fastforce simp: bindR_Inr_iff)
  have "quiet ctx (put_peer ctx a (p\<lparr>p_blocks := b\<rparr>))" using 1(1) by (auto intro: quiet_put_peer)
  also have "quiet \<dots> ctx1" using 1(2) by (rule note_complete_quiet)
  also have "quiet \<dots> ctx'" using 1(3) by (rule update_at_quiet)
  finally show ?thesis .
qed

lemma on_request_quiet: "on_request ctx a nmsg = Inr (r, ctx') \<Longrightarrow> quiet ctx ctx'"
proof -
  assume "on_request ctx a nmsg = Inr (r, ctx')"
  then obtain p p1 where 1: "get_peer ctx a = Inr p" "ctx' = ctx \<or> ctx' = put_peer ctx a p1 \<and> p_pending p1 = p_pending p"
    unfolding on_request_def Let_def bindR_Inr_iff
    by (elim exE conjE) (fastforce simp: bindR_Inr_iff dest: send_choke_quiet split: if_splits)
  then show ?thesis by (auto intro: quiet_put_peer)
qed

lemma store_block_quiet: "store_block ctx a pp piece offs buf len = Inr (r, ctx') \<Longrightarrow> quiet ctx ctx'"
proof -
  assume s: "store_block ctx a pp piece offs buf len = Inr (r, ctx')"
  then obtain p d cpl fs dsk where 1: "get_peer ctx a = Inr p" "get_dl ctx (p_download p) = Inr d"
    "seg_writebuf (fileset d) (store ctx) piece offs buf len = Inr (cpl, fs, dsk)"
    by (auto simp: store_block_def bindR_Inr_iff)
  let ?ctx = "(put_dl ctx (p_download p) (d\<lparr>fileset := fs\<rparr>))\<lparr>store := dsk\<rparr>"
  have "bindR (if cpl \<noteq> 0 then bindR (bs_clr (wanted d) piece) (\<lambda>w.
            notify_all (put_dl ?ctx (p_download p) (d\<lparr>fileset := fs, wanted := w\<rparr>))
              (p_download p) pp piece (nat (ps_len (peerset d))))
          else Inr ?ctx)
        (\<lambda>ctx. bindR (peer_send_request ctx a) (\<lambda>(r, ctx). Inr (if r \<noteq> 0 then - 1 else 0, ctx))) = Inr (r, ctx')"
    using s 1 by (simp add: store_block_def Let_def split: if_splits)
  then obtain ctx1 where 2: "(if cpl \<noteq> 0 then bindR (bs_clr (wanted d) piece) (\<lambda>w.
            notify_all (put_dl ?ctx (p_download p) (d\<lparr>fileset := fs, wanted := w\<rparr>))
              (p_download p) pp piece (nat (ps_len (peerset d))))
          else Inr ?ctx) = Inr ctx1"
    "bindR (peer_send_request ctx1 a) (\<lambda>(r, ctx). Inr (if r \<noteq> 0 then - 1 else 0, ctx)) = Inr (r, ctx')"
    by (simp only: bindR_Inr_iff) blast
  have "quiet ctx ctx1"
    using 2(1) by (auto simp: bindR_Inr_iff quiet_def dest!: notify_all_quiet split: if_splits)
  moreover obtain r1 where "peer_send_request ctx1 a = Inr (r1, ctx')"
    using 2(2) by (auto simp: bindR_Inr_iff)
  ultimately show ?thesis using peer_send_request_quiet quiet_trans by blast
qed

lemma on_piece_quiet: "on_piece ctx a nmsg len = Inr (r, ctx') \<Longrightarrow> quiet ctx ctx'"
proof -
  assume s: "on_piece ctx a nmsg len = Inr (r, ctx')"
  then obtain p piece offs where 1: "get_peer ctx a = Inr p" "get32 nmsg 5 = Inr piece" "get32 nmsg 9 = Inr offs"
    unfolding on_piece_def bindR_Inr_iff by blast
  then obtain n q where "(if n = (0::int) then Inr (0, put_peer ctx a (p\<lparr>p_lastreceived := clock ctx, p_inqueue := q\<rparr>))
      else store_block (put_peer ctx a (p\<lparr>p_lastreceived := clock ctx, p_inqueue := q\<rparr>)) a (p_currentPiece p)
        piece offs (drop 13 nmsg) (len - 9)) = Inr (r, ctx')"
    using s by (simp only: on_piece_def Let_def bindR_simps) (elim bindR_pairE, blast)
  moreover have "quiet ctx (put_peer ctx a (p\<lparr>p_lastreceived := clock ctx, p_inqueue := q\<rparr>))"
    by (auto intro: quiet_put_peer [OF 1(1)])
  ultimately show ?thesis using store_block_quiet quiet_trans by (auto split: if_splits)
qed

lemma on_cancel_quiet: "on_cancel ctx a nmsg = Inr (r, ctx') \<Longrightarrow> quiet ctx ctx'"
  unfolding on_cancel_def bindR_Inr_iff
  by (elim exE conjE) (auto simp: bindR_Inr_iff elim!: at_peer_quiet)

lemma handle_message_quiet: "handle_message ctx a nmsg len = Inr (r, ctx') \<Longrightarrow> quiet ctx ctx'"
  by (auto simp: handle_message_def Let_def split: if_splits
      intro: on_choke_quiet on_unchoke_quiet on_interested_quiet on_have_quiet on_bitfield_quiet
        on_request_quiet on_piece_quiet on_cancel_quiet)

section \<open>Reading takes bytes from the front\<close>

lemma fpeek_loop_pending:
  "fpeek_loop s n k = Inr (r, s', n') \<Longrightarrow> in_pending s' n' = in_pending s n"
proof (induction s n k arbitrary: r s' n' rule: fpeek_loop.induct)
  case (1 s n k)
  show ?case
  proof (cases "length (sb_buf (ibuf s)) < k")
    case False
    then show ?thesis using 1(2) by (subst (asm) fpeek_loop.simps) simp
  next
    case True
    obtain nread buf s1 n1 where read: "kStream_read s n 1024 = (nread, buf, s1, n1)" by (metis prod_cases4)
    note d = kStream_readD [OF read]
    have eq: "in_pending s1 n1 = sb_buf (ibuf s) @ rx_bytes n1" using d(2) by (simp add: in_pending_def)
    show ?thesis
    proof (cases "nread < 0")
      case True
      then have "buf = []" using d(6) by auto
      then show ?thesis using 1(2) read True eq d(1) \<open>length _ < k\<close>
        by (subst (asm) fpeek_loop.simps) (auto simp: in_pending_def)
    next
      case False
      then have nz: "nread \<noteq> 0" "nat nread = length buf" using d(6) by auto
      then obtain ib where ib: "sbcat (ibuf s1) buf nread = Inr ib"
        "fpeek_loop (s1\<lparr>ibuf := ib\<rparr>) n1 k = Inr (r, s', n')"
        using 1(2) read False True by (subst (asm) fpeek_loop.simps) (auto simp: bindR_Inr_iff)
      have "in_pending s' n' = in_pending (s1\<lparr>ibuf := ib\<rparr>) n1"
        using 1(1) [OF True read [symmetric] refl refl False nz(1) ib(1,2)] .
      then show ?thesis using sbcatD [OF ib(1)] nz(2) d(1,2) by (simp add: in_pending_def)
    qed
  qed
qed

lemma peer_fpeek_pending: "peer_fpeek p len = Inr (r, bs, q) \<Longrightarrow> p_pending q = p_pending p"
  by (auto simp: peer_fpeek_def kStream_fpeek_def bindR_Inr_iff p_pending_def
      dest!: fpeek_loop_pending split: if_splits)

lemma fpeek_loop_enough:
  "fpeek_loop s n k = Inr (r, s', n') \<Longrightarrow> 0 \<le> r \<Longrightarrow> r = int k \<and> k \<le> length (sb_buf (ibuf s'))"
proof (induction s n k arbitrary: r s' n' rule: fpeek_loop.induct)
  case (1 s n k)
  obtain nread buf s1 n1 where read: "kStream_read s n 1024 = (nread, buf, s1, n1)" by (metis prod_cases4)
  show ?case
  proof (cases "length (sb_buf (ibuf s)) < k \<and> \<not> nread < 0 \<and> nread \<noteq> 0")
    case False
    then show ?thesis using 1(2,3) read by (subst (asm) fpeek_loop.simps) (auto split: if_splits)
  next
    case True
    then obtain ib where ib: "sbcat (ibuf s1) buf nread = Inr ib"
      "fpeek_loop (s1\<lparr>ibuf := ib\<rparr>) n1 k = Inr (r, s', n')"
      using 1(2) read by (subst (asm) fpeek_loop.simps) (auto simp: bindR_Inr_iff)
    show ?thesis using 1(1) [OF _ read [symmetric] refl refl _ _ ib(1,2) 1(3)] True by blast
  qed
qed

lemma peer_fread_pending:
  assumes "peer_fread p len = Inr (r, bs, q)"
  shows "p_pending q = (if 0 < r then drop (nat len) (p_pending p) else p_pending p)"
    and "0 < r \<Longrightarrow> r = len \<and> nat len \<le> length (p_pending p) \<and> bs = take (nat len) (p_pending p)"
proof -
  obtain s n where f: "kStream_fread (p_ios p) (p_sock p) len = Inr (r, bs, s, n)"
    and q: "q = p\<lparr>p_ios := s, p_sock := n\<rparr>"
    using assms by (auto simp: peer_fread_def bindR_Inr_iff)
  then obtain s1 n1 r1 where pk: "fpeek_loop (p_ios p) (p_sock p) (nat len) = Inr (r1, s1, n1)" "0 \<le> len"
    and rest: "if r1 < 0 then r = r1 \<and> s = s1 \<and> n = n1
      else r = len \<and> bs = take (nat len) (sb_buf (ibuf s1)) \<and>
        (if 0 < len then \<exists>ib. sbtail (ibuf s1) len = Inr ib \<and> s = s1\<lparr>ibuf := ib\<rparr> else s = s1) \<and> n = n1"
    by (auto simp: kStream_fread_def kStream_fpeek_def bindR_Inr_iff split: if_splits)
  have same: "in_pending s1 n1 = p_pending p" using fpeek_loop_pending [OF pk(1)] by (simp add: p_pending_def)
  show "p_pending q = (if 0 < r then drop (nat len) (p_pending p) else p_pending p)"
  proof (cases "0 < r")
    case False
    then have "s = s1 \<and> n = n1" using rest pk(2) by (auto split: if_splits)
    then show ?thesis using False same q by (simp add: p_pending_def)
  next
    case True
    then obtain ib where "sbtail (ibuf s1) len = Inr ib" "s = s1\<lparr>ibuf := ib\<rparr>" "n = n1" "0 < len" "r = len"
      using rest by (auto split: if_splits)
    moreover from this have "sb_buf ib = drop (nat len) (sb_buf (ibuf s1))" "nat len \<le> length (sb_buf (ibuf s1))"
      by (auto simp: sbtail_def sb_store_def die_unless_Inr_iff split: if_splits)
    moreover have "p_pending p = sb_buf (ibuf s1) @ rx_bytes n1" using same by (simp add: in_pending_def)
    moreover have "p_pending q = sb_buf (ibuf s) @ rx_bytes n" by (simp add: q p_pending_def in_pending_def)
    ultimately show ?thesis using True by simp
  qed
  show "r = len \<and> nat len \<le> length (p_pending p) \<and> bs = take (nat len) (p_pending p)" if "0 < r"
  proof -
    have "0 \<le> r1" "r = len" "bs = take (nat len) (sb_buf (ibuf s1))" using rest that by (auto split: if_splits)
    moreover have "p_pending p = sb_buf (ibuf s1) @ rx_bytes n1" using same by (simp add: in_pending_def)
    ultimately show ?thesis using fpeek_loop_enough [OF pk(1)] by simp
  qed
qed

section \<open>Frames and messages make the input shorter\<close>

lemma recv_frame_pending:
  assumes "recv_frame stack p = Inr (fr, q)"
  shows "case fr of Fr_msg len nmsg \<Rightarrow> 0 < len \<and> len \<le> MAXMESSAGE \<and> nat (len + 4) \<le> length (p_pending p) \<and>
           take (nat (len + 4)) nmsg = take (nat (len + 4)) (p_pending p) \<and>
           len = int32_of_be (take 4 (p_pending p)) \<and> p_pending q = drop (nat (len + 4)) (p_pending p)
         | Fr_return r \<Rightarrow> r \<in> {0, - 1} \<and> (p_pending q = p_pending p \<or> p_pending q = drop 4 (p_pending p))
         | Fr_failed \<Rightarrow> p_pending q = p_pending p"
proof -
  obtain err nbo p1 where pk: "peer_fpeek p 4 = Inr (err, nbo, p1)"
    using assms unfolding recv_frame_def by (elim bindR_tripleE)
  note same = peer_fpeek_pending [OF pk]
  show ?thesis
  proof (cases "err < 0")
    case True
    then show ?thesis using assms pk same by (auto simp: recv_frame_def)
  next
    case False
    define len where "len = int32_of_be nbo"
    have err: "err = 4" using assms pk False by (auto simp: recv_frame_def die_unless_Inr_iff)
    have nbo: "nbo = take 4 (p_pending p)"
    proof -
      obtain s n r1 where l: "fpeek_loop (p_ios p) (p_sock p) 4 = Inr (r1, s, n)" "\<not> r1 < 0"
        "nbo = take 4 (sb_buf (ibuf s))"
        using pk err by (auto simp: peer_fpeek_def kStream_fpeek_def bindR_Inr_iff split: if_splits)
      then show ?thesis
        using fpeek_loop_enough [OF l(1)] fpeek_loop_pending [OF l(1)]
        by (auto simp: p_pending_def in_pending_def) (metis append_take_drop_id le_numeral_extra(4) take_append diff_is_0_eq' take0 append_Nil2 length_take min.absorb2)
    qed
    have rest: "(if \<not> len \<le> 80 \<and> \<not> (0 < len \<and> len \<le> MAXMESSAGE)
        then Inr (Fr_return (- 1), set_error BTERR_LARGEPACKET p1)
        else if len = 0 then
          bindR (peer_fread p1 4) (\<lambda>(err, _, p). die_unless (err = 4) (Inr (Fr_return 0, p)))
        else die_unless (len \<le> MAXMESSAGE \<and> len \<ge> 0)
          (bindR (peer_fread p1 (len + 4)) (\<lambda>(err, bs, p).
             if err < 0 then Inr (Fr_failed, p)
             else die_unless (err = len + 4)
               (Inr (Fr_msg len (bs @ (if len \<le> 80 then drop (nat len + 4) stack else [])), p))))) = Inr (fr, q)"
      using assms pk err by (simp add: recv_frame_def Let_def len_def [symmetric] split del: if_split cong: if_cong)
    consider "\<not> len \<le> 80 \<and> \<not> (0 < len \<and> len \<le> MAXMESSAGE)" | "len = 0" | "0 < len" "len \<le> MAXMESSAGE"
      using rest by (auto simp: die_unless_Inr_iff split: if_splits)
    then show ?thesis
    proof cases
      case 1
      then show ?thesis using rest same by auto
    next
      case 2
      then obtain bs where "peer_fread p1 4 = Inr (4, bs, q)" "fr = Fr_return 0"
        using rest by (auto simp: bindR_Inr_iff die_unless_Inr_iff)
      then show ?thesis using peer_fread_pending(1) same by auto
    next
      case 3
      then obtain err bs where r: "peer_fread p1 (len + 4) = Inr (err, bs, q)"
        "err < 0 \<and> fr = Fr_failed \<or> err = len + 4 \<and>
          fr = Fr_msg len (bs @ (if len \<le> 80 then drop (nat len + 4) stack else []))"
        using rest by (auto simp: bindR_Inr_iff die_unless_Inr_iff split: if_splits)
      then show ?thesis
        using peer_fread_pending [OF r(1)] same 3 nbo
        by (auto simp: len_def)
    qed
  qed
qed

lemma more_waiting_quiet: "more_waiting p = Inr (r, q) \<Longrightarrow> p_pending q = p_pending p"
  unfolding more_waiting_def Let_def
  by (elim bindR_tripleE) (auto dest!: peer_fpeek_pending split: if_splits)

lemma recv_peermsg_progress:
  assumes "recv_peermsg ctx a = Inr (r, ctx')"
  shows "\<forall>b. b \<noteq> a \<longrightarrow> pending ctx' b = pending ctx b"
    and "\<exists>k. pending ctx' a = drop k (pending ctx a)"
    and "r = 1 \<Longrightarrow> length (pending ctx' a) < length (pending ctx a)"
proof -
  obtain p d fr ctx1 where 1: "get_peer ctx a = Inr p" "get_dl ctx (p_download p) = Inr d"
    "at_peer ctx a (recv_frame (junk ctx)) = Inr (fr, ctx1)"
    and k: "(case fr of Fr_return r \<Rightarrow> Inr (r, ctx1) | Fr_failed \<Rightarrow> Inr (- 1, ctx1)
     | Fr_msg len nmsg \<Rightarrow> bindR (handle_message ctx1 a nmsg len) (\<lambda>(res, ctx).
         if res = 0 then at_peer ctx a more_waiting else Inr (res, ctx))) = Inr (r, ctx')"
    using assms unfolding recv_peermsg_def by (elim bindR_E bindR_pairE) blast
  obtain q where q: "recv_frame (junk ctx) p = Inr (fr, q)" "ctx1 = put_peer ctx a q"
    using 1(1,3) by (auto simp: at_peer_def bindR_Inr_iff)
  note fp = recv_frame_pending [OF q(1)]
  have pa: "pending ctx a = p_pending p" by (rule get_peer_pending [OF 1(1)])
  have rest: "quiet ctx1 ctx'"
  proof (cases fr)
    case (Fr_msg len nmsg)
    then obtain res ctx2 where h: "handle_message ctx1 a nmsg len = Inr (res, ctx2)"
      "(if res = 0 then at_peer ctx2 a more_waiting else Inr (res, ctx2)) = Inr (r, ctx')"
      using k by (auto elim: bindR_pairE)
    have "quiet ctx2 ctx'"
      using h(2) at_peer_quiet [OF _ more_waiting_quiet] by (auto split: if_splits)
    then show ?thesis using handle_message_quiet [OF h(1)] quiet_trans by blast
  qed (use k in auto)
  show "\<forall>b. b \<noteq> a \<longrightarrow> pending ctx' b = pending ctx b"
    using rest q(2) by (simp add: quiet_def)
  have a': "pending ctx' a = p_pending q" using rest q(2) by (simp add: quiet_def)
  show "\<exists>k. pending ctx' a = drop k (pending ctx a)"
    using fp pa a' by (auto split: frame_read.splits) (metis drop0)+
  show "length (pending ctx' a) < length (pending ctx a)" if "r = 1"
    using fp pa a' k that by (auto split: frame_read.splits)
qed

section \<open>The handshake\<close>

lemma join_torrent_quiet: "join_torrent ctx a i = Inr (r, ctx') \<Longrightarrow> quiet ctx ctx'"
proof -
  assume j: "join_torrent ctx a i = Inr (r, ctx')"
  then obtain d where d: "get_dl ctx (int i) = Inr d" by (auto simp: join_torrent_def elim: bindR_E)
  let ?ctx = "put_dl ctx (int i) (d\<lparr>peerset := peerset_append (peerset d) a\<rparr>)"
  obtain p where p: "get_peer ?ctx a = Inr p"
    using j d by (auto simp: join_torrent_def Let_def elim: bindR_E)
  let ?p = "p\<lparr>p_download := int i, p_blocks := kBitSet_create (nat (npieces (fileset d)))\<rparr>"
  have "bindR (peer_send_handshake ?ctx ?p) (\<lambda>(r, p).
     bindR (if r < 0 then Inr (r, p) else peer_send_bitfield ?ctx p) (\<lambda>(r, p).
     if r < 0 then Inr (- 1, put_peer ?ctx a (p\<lparr>p_state := PEER_ERROR\<rparr>))
     else Inr (0, put_peer ?ctx a p))) = Inr (r, ctx')"
    using j d p by (simp add: join_torrent_def Let_def)
  then obtain r1 p1 r2 p2 where 1: "peer_send_handshake ?ctx ?p = Inr (r1, p1)"
    "(if r1 < 0 then Inr (r1, p1) else peer_send_bitfield ?ctx p1) = Inr (r2, p2)"
    "(if r2 < 0 then Inr (- 1, put_peer ?ctx a (p2\<lparr>p_state := PEER_ERROR\<rparr>))
      else Inr (0, put_peer ?ctx a p2)) = (Inr (r, ctx') :: fault + int \<times> btContext)"
    by (elim bindR_pairE) blast
  have "p_pending p2 = p_pending ?p"
    using 1(1,2) peer_send_handshake_quiet peer_send_bitfield_quiet by (auto split: if_splits)
  then have "p_pending p2 = p_pending p" by simp
  then show ?thesis using 1(3) quiet_put_peer [OF p, where ctx = ctx] by (auto split: if_splits)
qed

lemma check_handshake_quiet: "check_handshake ctx a shake len = Inr (r, ctx') \<Longrightarrow> quiet ctx ctx'"
proof -
  assume c: "check_handshake ctx a shake len = Inr (r, ctx')"
  have rej: "quiet c1 c2" if "at_peer c1 a (\<lambda>p. Inr (- 1 :: int, set_error e p)) = Inr (x, c2)" for c1 c2 e x
    using that by (rule at_peer_quiet) auto
  have fin: "quiet c1 c2" if "at_peer c1 a (\<lambda>p. Inr (0 :: int, p\<lparr>p_id := i\<rparr>)) = Inr (x, c2)" for c1 c2 i x
    using that by (rule at_peer_quiet) auto
  show ?thesis
    using c unfolding check_handshake_def Let_def
    by (auto simp: bindR_Inr_iff split: if_splits dest!: rej fin join_torrent_quiet intro: quiet_trans)
qed

lemma recv_handshake_progress:
  assumes "recv_handshake ctx a = Inr (r, ctx')"
  shows "\<forall>b. b \<noteq> a \<longrightarrow> pending ctx' b = pending ctx b"
    and "\<exists>k. pending ctx' a = drop k (pending ctx a)"
    and "r = 0 \<Longrightarrow> length (pending ctx' a) < length (pending ctx a)"
    and "r = 0 \<or> r = - 1"
proof -
  let ?read = "\<lambda>p. bindR (peer_fread p 68) (\<lambda>(r, shake, p). Inr ((r, shake), p))"
  obtain err shake ctx1 where 1: "at_peer ctx a ?read = Inr ((err, shake), ctx1)"
    using assms unfolding recv_handshake_def by (auto elim!: bindR_E)
  obtain p q where pq: "get_peer ctx a = Inr p" "peer_fread p 68 = Inr (err, shake, q)" "ctx1 = put_peer ctx a q"
    using 1 by (auto simp: at_peer_def bindR_Inr_iff)
  note rd = peer_fread_pending [OF pq(2)]
  have pa: "pending ctx a = p_pending p" by (rule get_peer_pending [OF pq(1)])
  have rest: "quiet ctx1 ctx' \<and> (r = 0 \<longrightarrow> 0 < err) \<and> (r = 0 \<or> r = - 1)"
  proof (cases "err < 0")
    case True
    have same: "quiet c1 c2" if "at_peer c1 a (\<lambda>p. Inr (- 1 :: int, set_error EAGAIN p)) = Inr (x, c2)" for c1 c2 x
      using that by (rule at_peer_quiet) auto
    have st: "quiet c1 c2" if "at_peer c1 a (\<lambda>p. Inr (- 1 :: int, p\<lparr>p_state := PEER_ERROR\<rparr>)) = Inr (x, c2)" for c1 c2 x
      using that by (rule at_peer_quiet) auto
    have pk: "quiet c1 c2" if "at_peer c1 a (\<lambda>p. bindR (peer_fpeek p len) (\<lambda>(r, shake, p). Inr ((r, shake), p))) = Inr (x, c2)" for c1 c2 len x
      using that by (rule at_peer_quiet) (auto simp: bindR_Inr_iff dest: peer_fpeek_pending)
    have minus: "x = - 1" if "at_peer c1 a (\<lambda>p. Inr (- 1 :: int, f p)) = Inr (x, c2)" for c1 c2 f x
      using that by (auto simp: at_peer_def bindR_Inr_iff)
    have "quiet ctx1 ctx'"
      using assms 1 True unfolding recv_handshake_def Let_def
      by (auto simp: bindR_Inr_iff die_unless_Inr_iff quiet_def [of ctx1] split: if_splits
          dest!: same [unfolded quiet_def] st [unfolded quiet_def] pk [unfolded quiet_def]
            check_handshake_quiet [unfolded quiet_def])
    moreover have "r = - 1"
      using assms 1 True unfolding recv_handshake_def Let_def
      by (auto simp: bindR_Inr_iff die_unless_Inr_iff split: if_splits dest: minus)
    ultimately show ?thesis by simp
  next
    case False
    then obtain r1 ctx2 where c: "err = 68" "check_handshake ctx1 a shake 68 = Inr (r1, ctx2)"
      "(if r1 \<noteq> 0 then Inr (- 1, ctx2)
        else bindR (get_peer ctx2 a) (\<lambda>p.
          bindR (get_dl ctx2 (p_download p)) (\<lambda>d.
            let ps = peerset d
            in Inr (0, put_dl (put_peer ctx2 a (p\<lparr>p_state := PEER_GOOD\<rparr>)) (p_download p)
                 (d\<lparr>peerset := ps\<lparr>incomplete := incomplete ps + 1\<rparr>\<rparr>))))) = Inr (r, ctx')"
      using assms 1 unfolding recv_handshake_def by (auto simp: bindR_Inr_iff die_unless_Inr_iff)
    have "quiet ctx2 ctx' \<and> (r = 0 \<or> r = - 1)"
      using c(3) by (auto simp: bindR_Inr_iff Let_def intro!: quiet_put_peer split: if_splits)
    then show ?thesis using c(1) check_handshake_quiet [OF c(2)] quiet_trans by auto
  qed
  show "\<forall>b. b \<noteq> a \<longrightarrow> pending ctx' b = pending ctx b" using rest pq(3) by (simp add: quiet_def)
  have a': "pending ctx' a = p_pending q" using rest pq(3) by (simp add: quiet_def)
  show "\<exists>k. pending ctx' a = drop k (pending ctx a)" using rd(1) a' pa by (metis drop0)
  show "r = 0 \<or> r = - 1" using rest by simp
  show "length (pending ctx' a) < length (pending ctx a)" if "r = 0"
    using rest rd that a' pa by auto
qed

section \<open>One turn of the loop\<close>

lemma peer_recv_message_progress:
  assumes "peer_recv_message ctx a = Inr (r, ctx')"
  shows "\<forall>b. b \<noteq> a \<longrightarrow> pending ctx' b = pending ctx b"
    and "\<exists>k. pending ctx' a = drop k (pending ctx a)"
    and "r = 1 \<Longrightarrow> length (pending ctx' a) < length (pending ctx a)"
proof -
  obtain p where p: "get_peer ctx a = Inr p" using assms by (auto simp: peer_recv_message_def elim: bindR_E)
  consider "p_state p = PEER_INIT \<or> p_state p = PEER_ERROR" | "p_state p = PEER_GOOD"
    | "p_state p = PEER_OUTGOING \<or> p_state p = PEER_INCOMING" by (cases "p_state p") auto
  then have "(\<forall>b. b \<noteq> a \<longrightarrow> pending ctx' b = pending ctx b) \<and> (\<exists>k. pending ctx' a = drop k (pending ctx a)) \<and>
    (r = 1 \<longrightarrow> length (pending ctx' a) < length (pending ctx a))"
  proof cases
    case 1
    then have "ctx' = ctx" "r \<noteq> 1" using assms p by (auto simp: peer_recv_message_def)
    then show ?thesis by (auto intro: exI [of _ 0])
  next
    case 2
    then show ?thesis using assms p recv_peermsg_progress by (simp add: peer_recv_message_def)
  next
    case 3
    then obtain res ctx1 where h: "recv_handshake ctx a = Inr (res, ctx1)"
      "(if res = 0 then at_peer ctx1 a (\<lambda>p. Inr (1, p\<lparr>p_state := PEER_GOOD\<rparr>)) else Inr (res, ctx1)) = Inr (r, ctx')"
      using assms p by (auto simp: peer_recv_message_def elim!: bindR_pairE)
    note hp = recv_handshake_progress [OF h(1)]
    show ?thesis
    proof (cases "res = 0")
      case True
      then have "quiet ctx1 ctx'" using h(2) by (auto intro!: at_peer_quiet)
      then show ?thesis using hp True by (auto simp: quiet_def)
    next
      case False
      then show ?thesis using hp h(2) by auto
    qed
  qed
  then show "\<forall>b. b \<noteq> a \<longrightarrow> pending ctx' b = pending ctx b" "\<exists>k. pending ctx' a = drop k (pending ctx a)"
    "r = 1 \<Longrightarrow> length (pending ctx' a) < length (pending ctx a)" by simp_all
qed

section \<open>Looking up what was stored\<close>

lemma get_put_peer [simp]:
  "get_peer (put_peer ctx a p) b = (if b = a then Inr p else get_peer ctx b)"
  "get_dl (put_peer ctx a p) i = get_dl ctx i" "get_peer (put_dl ctx i d) a = get_peer ctx a"
  by (simp_all add: get_peer_def put_peer_def get_dl_def put_dl_def)

lemma get_put_dl:
  "get_dl ctx i = Inr d0 \<Longrightarrow> get_dl (put_dl ctx i d) j = (if j = i then Inr d else get_dl ctx j)"
  by (auto simp: get_dl_def put_dl_def arr_get_def bindR_Inr_iff nth_list_update nat_eq_iff split: if_splits)

lemma at_peer_Inr:
  "get_peer ctx a = Inr p \<Longrightarrow> at_peer ctx a f = bindR (f p) (\<lambda>(r, p). Inr (r, put_peer ctx a p))"
  by (simp add: at_peer_def)

lemma put_peer_twice [simp]: "put_peer (put_peer ctx a p) a q = put_peer ctx a q"
  by (simp add: put_peer_def)

end
