(* ===== verification/Bt_Choke.thy ===== *)
theory Bt_Choke
  imports Bt_Context
begin

text \<open>
  The choosing of the peers that may download from us (\<open>peer_favorites\<close> of \<open>peer.c\<close>): four
  slots, filled by rate, interested peers before the others. The theory shows that no
  interested peer is left out for a slower one and that at most four peers are unchoked.
\<close>

section \<open>The operations\<close>

definition DOWNLOADS :: nat where "DOWNLOADS = 4"

text \<open>The rate that counts: what the peer takes when we have everything, else what it gives.\<close>

definition peer_rate :: "btContext \<Rightarrow> btPeer \<Rightarrow> int \<Rightarrow> btDownload \<Rightarrow> int" where
  "peer_rate ctx p now d = (if left (fileset d) = 0 then out_rate p now else in_rate p now)"

definition compare_rate :: "btContext \<Rightarrow> btPeer \<Rightarrow> btPeer \<Rightarrow> int \<Rightarrow> fault + int" where
  "compare_rate ctx a b now =
     bindR (get_dl ctx (p_download a)) (\<lambda>d.
       let arate = peer_rate ctx a now d; brate = peer_rate ctx b now d
       in Inr (if arate < brate then 1 else if arate > brate then - 1 else 0))"

text \<open>\<open>p[j] = p[j-1]\<close> from the end down to \<open>i\<close>, then \<open>p[i] = new\<close>.\<close>

definition insert_at :: "nat \<Rightarrow> addr \<Rightarrow> addr option list \<Rightarrow> addr option list" where
  "insert_at i new ps = take i ps @ Some new # drop i (butlast ps)"

text \<open>The tests of the two loops: an interested peer that is not snubbed, then any peer.\<close>

definition takes_slot :: "btContext \<Rightarrow> addr option list \<Rightarrow> btPeer \<Rightarrow> int \<Rightarrow> nat \<Rightarrow> fault + bool" where
  "takes_slot ctx ps new now i =
     (if \<not> snubbed (p_local new) \<and> interested (p_remote new) then
        bindR (arr_get ps (int i)) (\<lambda>s. case s of
          None \<Rightarrow> Inr True
        | Some b \<Rightarrow>
            bindR (get_peer ctx b) (\<lambda>p.
            if \<not> interested (p_remote p) then Inr True
            else bindR (compare_rate ctx new p now) (\<lambda>c. Inr (c < 0))))
      else Inr False)"

definition takes_rest :: "btContext \<Rightarrow> addr option list \<Rightarrow> btPeer \<Rightarrow> int \<Rightarrow> nat \<Rightarrow> fault + bool" where
  "takes_rest ctx ps new now i =
     bindR (arr_get ps (int i)) (\<lambda>s. case s of
       None \<Rightarrow> Inr True
     | Some b \<Rightarrow>
         bindR (get_peer ctx b) (\<lambda>p.
         if interested (p_remote p) then Inr False
         else bindR (compare_rate ctx new p now) (\<lambda>c. Inr (c < 0))))"

definition prioritize :: "btContext \<Rightarrow> addr option list \<Rightarrow> addr \<Rightarrow> int \<Rightarrow> fault + addr option list" where
  "prioritize ctx ps a now =
     bindR (get_peer ctx a) (\<lambda>new.
     bindR (find_loop 0 DOWNLOADS (takes_slot ctx ps new now)) (\<lambda>r. case r of
       Some i \<Rightarrow> Inr (insert_at i a ps)
     | None \<Rightarrow>
         bindR (find_loop 0 DOWNLOADS (takes_rest ctx ps new now)) (\<lambda>r. case r of
           Some i \<Rightarrow> Inr (insert_at i a ps)
         | None \<Rightarrow> Inr ps)))"

definition isfavorite :: "addr option list \<Rightarrow> addr \<Rightarrow> bool" where
  "isfavorite ps check \<longleftrightarrow> Some check \<in> set (take DOWNLOADS ps)"

text \<open>The two loops of \<open>peer_favorites\<close>: choosing, and telling the peers.\<close>

definition choose_favorites :: "btContext \<Rightarrow> btPeerset \<Rightarrow> fault + addr option list" where
  "choose_favorites ctx ps =
     for_loop 0 (nat (ps_len ps))
       (\<lambda>i fav. bindR (arr_get (ps_peer ps) (int i)) (\<lambda>a. bindR (deref a) (\<lambda>a.
          bindR (get_peer ctx a) (\<lambda>p.
          if p_state p = PEER_GOOD then prioritize ctx fav a (clock ctx) else Inr fav))))
       (replicate DOWNLOADS None)"

definition tell_peer :: "int \<Rightarrow> bool \<Rightarrow> btPeer \<Rightarrow> fault + btPeer" where
  "tell_peer now favorite p =
     (if favorite then
        if choked (p_local p) then
          bindR (send_choke p False) (\<lambda>(r, p).
            let p = (if r \<noteq> 0 then p\<lparr>p_state := PEER_ERROR\<rparr> else p)
            in Inr (if interested (p_remote p) then p\<lparr>p_local := start_rate_timer (p_local p) now\<rparr> else p))
        else Inr p
      else if \<not> choked (p_local p) \<and> p_state p = PEER_GOOD then
        bindR (send_choke p True) (\<lambda>(r, p).
          let p = (if r \<noteq> 0 then p\<lparr>p_state := PEER_ERROR\<rparr> else p)
          in Inr (p\<lparr>p_local := stop_rate_timer (p_local p) now\<rparr>))
      else Inr p)"

definition peer_favorites :: "btContext \<Rightarrow> btPeerset \<Rightarrow> fault + btContext" where
  "peer_favorites ctx ps =
     bindR (choose_favorites ctx ps) (\<lambda>fav.
     for_loop 0 (nat (ps_len ps))
       (\<lambda>i ctx. bindR (arr_get (ps_peer ps) (int i)) (\<lambda>a. bindR (deref a) (\<lambda>a.
          bindR (get_peer ctx a) (\<lambda>p.
          bindR (tell_peer (clock ctx) (isfavorite fav a) p) (\<lambda>p. Inr (put_peer ctx a p))))))
       ctx)"

definition peer_allcomplete :: "btContext \<Rightarrow> btPeerset \<Rightarrow> fault + bool" where
  "peer_allcomplete ctx ps =
     bindR (find_loop 0 (nat (ps_len ps))
       (\<lambda>i. bindR (arr_get (ps_peer ps) (int i)) (\<lambda>a. bindR (deref a) (\<lambda>a.
          bindR (get_peer ctx a) (\<lambda>p.
          if p_state p = PEER_ERROR then Inr False
          else if p_state p \<noteq> PEER_GOOD then Inr True
          else bindR (bs_isFull (p_blocks p)) (\<lambda>full. Inr (\<not> full)))))))
       (\<lambda>r. Inr (r = None))"


section \<open>Who gets a slot\<close>

text \<open>
  The four slots as a list. A peer has a claim when it is interested and not snubbed. A slot beats a
  peer when it holds an interested peer that is not slower. \<open>m\<close> says which rate counts: all torrents
  are taken to be complete, or none.
\<close>

definition rate_of :: "bool \<Rightarrow> int \<Rightarrow> btPeer \<Rightarrow> int" where
  "rate_of m now p = (if m then out_rate p now else in_rate p now)"

definition same_mode :: "btContext \<Rightarrow> bool \<Rightarrow> bool" where
  "same_mode ctx m \<longleftrightarrow> (\<forall>d\<in>set (downloads ctx). case d of None \<Rightarrow> True | Some d \<Rightarrow> (left (fileset d) = 0) = m)"

definition has_claim :: "btPeer \<Rightarrow> bool" where
  "has_claim p \<longleftrightarrow> \<not> snubbed (p_local p) \<and> interested (p_remote p)"

definition beats :: "btContext \<Rightarrow> bool \<Rightarrow> addr option \<Rightarrow> btPeer \<Rightarrow> bool" where
  "beats ctx m s p = (case s of None \<Rightarrow> False | Some b \<Rightarrow> (case peers ctx b of None \<Rightarrow> False
     | Some q \<Rightarrow> interested (p_remote q) \<and> rate_of m (clock ctx) p \<le> rate_of m (clock ctx) q))"

text \<open>A slot an interested peer may take, and one that is free for any peer.\<close>

definition yields :: "btContext \<Rightarrow> bool \<Rightarrow> addr option \<Rightarrow> btPeer \<Rightarrow> bool" where
  "yields ctx m s p = (case s of None \<Rightarrow> True | Some b \<Rightarrow> (case peers ctx b of None \<Rightarrow> False
     | Some q \<Rightarrow> \<not> interested (p_remote q) \<or> rate_of m (clock ctx) q < rate_of m (clock ctx) p))"

definition vacant :: "btContext \<Rightarrow> addr option \<Rightarrow> bool" where
  "vacant ctx s = (case s of None \<Rightarrow> True | Some b \<Rightarrow> (case peers ctx b of None \<Rightarrow> False
     | Some q \<Rightarrow> \<not> interested (p_remote q)))"

lemma compare_rate_sign:
  assumes "same_mode ctx m" and "compare_rate ctx a b now = Inr c"
  shows "c < 0 \<longleftrightarrow> rate_of m now b < rate_of m now a"
  using assms
  by (auto simp: compare_rate_def bindR_Inr_iff get_dl_def arr_get_Inr_iff same_mode_def peer_rate_def
      rate_of_def Let_def split: option.splits if_splits dest!: nth_mem)

lemma takes_slot_Inr:
  assumes "same_mode ctx m" and "takes_slot ctx ps new (clock ctx) i = Inr r"
  shows "if has_claim new then (i < length ps \<and> (if r then yields ctx m (ps ! i) new else beats ctx m (ps ! i) new))
    else \<not> r"
  using assms(2) compare_rate_sign [OF assms(1)]
  by (auto simp: takes_slot_def has_claim_def bindR_Inr_iff arr_get_Inr_iff get_peer_def yields_def beats_def
      split: option.splits if_splits)

lemma takes_rest_Inr:
  "takes_rest ctx ps new now i = Inr True \<Longrightarrow> i < length ps \<and> vacant ctx (ps ! i)"
  by (auto simp: takes_rest_def bindR_Inr_iff arr_get_Inr_iff get_peer_def vacant_def
      split: option.splits if_splits)

lemma prioritize_result:
  assumes "same_mode ctx m" and "prioritize ctx ps a (clock ctx) = Inr ps'" and "length ps = 4"
    and "get_peer ctx a = Inr new"
  shows "(\<exists>i<4. ps' = insert_at i a ps \<and> (has_claim new \<and> (\<forall>j<i. beats ctx m (ps ! j) new) \<and> yields ctx m (ps ! i) new
        \<or> \<not> has_claim new \<and> vacant ctx (ps ! i)))
    \<or> ps' = ps \<and> (has_claim new \<longrightarrow> (\<forall>j<4. beats ctx m (ps ! j) new))"
proof -
  obtain r where r: "find_loop 0 DOWNLOADS (takes_slot ctx ps new (clock ctx)) = Inr r"
    and rest: "(case r of Some i \<Rightarrow> Inr (insert_at i a ps)
      | None \<Rightarrow> bindR (find_loop 0 DOWNLOADS (takes_rest ctx ps new (clock ctx))) (\<lambda>r. case r of
           Some i \<Rightarrow> Inr (insert_at i a ps) | None \<Rightarrow> Inr ps)) = Inr ps'"
    using assms(2,4) by (auto simp: prioritize_def bindR_Inr_iff)
  note fl = find_loop_InrD [OF r, unfolded DOWNLOADS_def]
  show ?thesis
  proof (cases r)
    case (Some i)
    then have i: "i < 4" "takes_slot ctx ps new (clock ctx) i = Inr True"
      "\<forall>j<i. takes_slot ctx ps new (clock ctx) j = Inr False"
      using fl by auto
    then have "has_claim new" "yields ctx m (ps ! i) new" "\<forall>j<i. beats ctx m (ps ! j) new"
      using takes_slot_Inr [OF assms(1) i(2)] takes_slot_Inr [OF assms(1), of ps new _ False]
      by (auto split: if_splits)
    with Some i(1) rest show ?thesis by auto
  next
    case None
    then have none: "\<forall>j<4. takes_slot ctx ps new (clock ctx) j = Inr False" using fl by auto
    have lost: "has_claim new \<longrightarrow> (\<forall>j<4. beats ctx m (ps ! j) new)"
      using none takes_slot_Inr [OF assms(1), of ps new _ False] by (auto split: if_splits)
    let ?fl = "find_loop 0 DOWNLOADS (takes_rest ctx ps new (clock ctx))"
    obtain r2 where r2: "?fl = Inr r2"
      "(case r2 of Some i \<Rightarrow> Inr (insert_at i a ps) | None \<Rightarrow> Inr ps) = (Inr ps' :: fault + _)"
      using rest None by (cases ?fl) simp_all
    note fl2 = find_loop_InrD [OF r2(1), unfolded DOWNLOADS_def]
    show ?thesis
    proof (cases r2)
      case (Some i)
      then have i: "i < 4" "takes_rest ctx ps new (clock ctx) i = Inr True" using fl2 by auto
      then have v: "vacant ctx (ps ! i)" using takes_rest_Inr by blast
      then have "\<not> has_claim new"
        using lost i(1) by (auto simp: vacant_def beats_def split: option.splits)
      with v i(1) Some r2(2) show ?thesis by auto
    qed (use r2(2) lost in auto)
  qed
qed

lemma length_insert_at: "i < length ps \<Longrightarrow> length (insert_at i a ps) = length ps"
  by (simp add: insert_at_def)

lemma nth_insert_at:
  "i < length ps \<Longrightarrow> j < length ps \<Longrightarrow>
     insert_at i a ps ! j = (if j < i then ps ! j else if j = i then Some a else ps ! (j - 1))"
  by (auto simp: insert_at_def nth_append nth_Cons nth_butlast split: nat.splits
      intro!: arg_cong [where f = "(!) ps"])

text \<open>No peer with a claim is beaten by a slot behind its own.\<close>

definition slots_ok :: "btContext \<Rightarrow> bool \<Rightarrow> addr option list \<Rightarrow> bool" where
  "slots_ok ctx m ps \<longleftrightarrow> length ps = 4 \<and>
     (\<forall>j<4. \<forall>x p. ps ! j = Some x \<longrightarrow> peers ctx x = Some p \<longrightarrow> has_claim p \<longrightarrow> (\<forall>i<j. beats ctx m (ps ! i) p))"

definition served :: "btContext \<Rightarrow> bool \<Rightarrow> addr option list \<Rightarrow> addr \<Rightarrow> bool" where
  "served ctx m ps x \<longleftrightarrow> (case peers ctx x of None \<Rightarrow> True | Some p \<Rightarrow>
     has_claim p \<longrightarrow> Some x \<in> set ps \<or> (\<forall>j<4. beats ctx m (ps ! j) p))"

lemma beats_yields:
  assumes "beats ctx m s p \<or> s = Some x \<and> peers ctx x = Some p \<and> interested (p_remote p)"
    and "yields ctx m s new" and "interested (p_remote new)" and "peers ctx a = Some new"
  shows "beats ctx m (Some a) p"
  using assms by (auto simp: beats_def yields_def split: option.splits)

lemma beats_vacant: "beats ctx m s p \<Longrightarrow> \<not> vacant ctx s"
  by (auto simp: beats_def vacant_def split: option.splits)

lemma slots_step:
  assumes "slots_ok ctx m ps" and "i < 4" and "peers ctx a = Some new"
    and "has_claim new \<and> (\<forall>j<i. beats ctx m (ps ! j) new) \<and> yields ctx m (ps ! i) new
      \<or> \<not> has_claim new \<and> vacant ctx (ps ! i)"
  shows "slots_ok ctx m (insert_at i a ps)"
    and "served ctx m ps x \<Longrightarrow> served ctx m (insert_at i a ps) x"
proof -
  have ps: "length ps = 4" "\<And>j x p k. j < 4 \<Longrightarrow> ps ! j = Some x \<Longrightarrow> peers ctx x = Some p \<Longrightarrow> has_claim p \<Longrightarrow>
      k < j \<Longrightarrow> beats ctx m (ps ! k) p"
    using assms(1) by (auto simp: slots_ok_def)
  note nth = nth_insert_at [of i ps _ a, unfolded ps(1), OF assms(2)]
  have len: "length (insert_at i a ps) = 4" using length_insert_at [of i ps a] assms(2) ps(1) by simp
  text \<open>A peer whose slot is taken, or that is beaten there, is beaten by the new one.\<close>
  have over: "has_claim new \<and> beats ctx m (Some a) p"
    if "beats ctx m (ps ! i) p \<or> ps ! i = Some x \<and> peers ctx x = Some p \<and> has_claim p" for x p
  proof -
    have "\<not> vacant ctx (ps ! i)"
      using that by (auto simp: vacant_def has_claim_def dest: beats_vacant)
    then have n: "has_claim new" "yields ctx m (ps ! i) new" using assms(4) by auto
    then show ?thesis
      using that beats_yields [of ctx m "ps ! i" p x new a] assms(3) by (auto simp: has_claim_def)
  qed
  text \<open>When all the slots before a place beat a peer, they still do after the insertion.\<close>
  have keep: "beats ctx m (insert_at i a ps ! k) p"
    if "\<forall>k<j. beats ctx m (ps ! k) p" "j \<le> 4" "k \<le> j" "k < 4"
      "k = j \<Longrightarrow> j \<le> i \<Longrightarrow> ps ! j = Some x \<and> peers ctx x = Some p \<and> has_claim p \<and> i = j" for j k p x
  proof -
    consider "k < i" | "k = i" | "i < k" by linarith
    then show ?thesis
    proof cases
      case 1
      then have "k < j" using that(3,5) by (cases "k = j") auto
      with 1 that(1,4) show ?thesis by (simp add: nth)
    next
      case 2
      then have "beats ctx m (ps ! i) p \<or> ps ! i = Some x \<and> peers ctx x = Some p \<and> has_claim p"
        using that(1,3,5) by (cases "k = j") auto
      with 2 over [of p x] show ?thesis using that(4) by (simp add: nth)
    next
      case 3
      then have "k - 1 < j" using that(3) by simp
      with 3 that(1,4) show ?thesis by (simp add: nth)
    qed
  qed
  show "slots_ok ctx m (insert_at i a ps)"
    unfolding slots_ok_def
  proof (intro conjI len allI impI)
    fix j x p k
    assume j: "j < 4" "insert_at i a ps ! j = Some x" "peers ctx x = Some p" "has_claim p" "k < j"
    consider "j < i" | "j = i" | "i < j" by linarith
    then show "beats ctx m (insert_at i a ps ! k) p"
    proof cases
      case 1
      with j assms(2) ps(2) [of j x p k] show ?thesis by (simp add: nth)
    next
      case 2
      with j assms have "x = a" "p = new" by (auto simp: nth)
      with 2 j assms(4) show ?thesis by (auto simp: nth)
    next
      case 3
      then have x: "ps ! (j - 1) = Some x" using j by (simp add: nth)
      have "\<forall>k<j - 1. beats ctx m (ps ! k) p" using ps(2) [OF _ x j(3,4)] j(1) by simp
      with j 3 x show ?thesis by (intro keep [where j = "j - 1"]) auto
    qed
  qed
  assume served: "served ctx m ps x"
  show "served ctx m (insert_at i a ps) x"
    unfolding served_def
  proof (cases "peers ctx x"; simp; intro impI)
    fix p
    assume p: "peers ctx x = Some p" "has_claim p"
    show "Some x \<in> set (insert_at i a ps) \<or> (\<forall>j<4. beats ctx m (insert_at i a ps ! j) p)"
    proof (cases "\<forall>j<4. beats ctx m (ps ! j) p")
      case True
      then show ?thesis by (auto intro!: keep [where j = 4])
    next
      case False
      with served p obtain j where j: "j < 4" "ps ! j = Some x"
        by (auto simp: served_def in_set_conv_nth ps(1))
      show ?thesis
      proof (cases "j < i \<or> j < 3")
        case True
        then have "insert_at i a ps ! j = Some x \<or> insert_at i a ps ! Suc j = Some x \<and> Suc j < 4"
          using j assms(2) by (auto simp: nth)
        then show ?thesis using j len by (metis nth_mem)
      next
        case False
        then have j3: "j = 3" using j by simp
        have "\<forall>k<3. beats ctx m (ps ! k) p" using ps(2) [OF j p] j3 by simp
        then show ?thesis
          using False j j3 p assms(2) by (intro disjI2 allI impI keep [where j = 3 and x = x]) auto
      qed
    qed
  qed
qed

text \<open>One peer after the other.\<close>

lemma prioritize_step:
  assumes "same_mode ctx m" and "slots_ok ctx m ps" and "get_peer ctx a = Inr new"
    and "prioritize ctx ps a (clock ctx) = Inr ps'"
  shows "slots_ok ctx m ps' \<and> served ctx m ps' a \<and> (\<forall>x. served ctx m ps x \<longrightarrow> served ctx m ps' x)
    \<and> set ps' \<subseteq> insert (Some a) (set ps)"
proof -
  have len: "length ps = 4" and pa: "peers ctx a = Some new"
    using assms(2,3) by (auto simp: slots_ok_def get_peer_def split: option.splits)
  from prioritize_result [OF assms(1,4) len assms(3)] show ?thesis
  proof (elim disjE exE conjE)
    fix i
    assume i: "i < 4" "ps' = insert_at i a ps"
      and c: "has_claim new" "\<forall>j<i. beats ctx m (ps ! j) new" "yields ctx m (ps ! i) new"
    have "Some a \<in> set ps'" "set ps' \<subseteq> insert (Some a) (set ps)"
      using i len by (auto simp: insert_at_def dest: in_set_takeD in_set_dropD in_set_butlastD)
    with slots_step [OF assms(2) i(1) pa] c i show ?thesis by (auto simp: served_def split: option.splits)
  next
    fix i
    assume i: "i < 4" "ps' = insert_at i a ps" and c: "\<not> has_claim new" "vacant ctx (ps ! i)"
    have "Some a \<in> set ps'" "set ps' \<subseteq> insert (Some a) (set ps)"
      using i len by (auto simp: insert_at_def dest: in_set_takeD in_set_dropD in_set_butlastD)
    with slots_step [OF assms(2) i(1) pa] c i show ?thesis by (auto simp: served_def split: option.splits)
  next
    assume "ps' = ps" "has_claim new \<longrightarrow> (\<forall>j<4. beats ctx m (ps ! j) new)"
    with assms(2) pa show ?thesis by (auto simp: served_def)
  qed
qed

lemma choose_favorites_slots:
  assumes "same_mode ctx m" and "choose_favorites ctx ps = Inr fav"
  shows "slots_ok ctx m fav
    \<and> (\<forall>i<nat (ps_len ps). \<forall>a p. ps_peer ps ! i = Some a \<longrightarrow> peers ctx a = Some p \<longrightarrow> p_state p = PEER_GOOD \<longrightarrow>
        served ctx m fav a)
    \<and> (\<forall>a. Some a \<in> set fav \<longrightarrow> (\<exists>i<nat (ps_len ps). ps_peer ps ! i = Some a)
        \<and> (\<exists>p. peers ctx a = Some p \<and> p_state p = PEER_GOOD))"
proof -
  let ?I = "\<lambda>n fav. slots_ok ctx m fav
    \<and> (\<forall>i<n. \<forall>a p. ps_peer ps ! i = Some a \<longrightarrow> peers ctx a = Some p \<longrightarrow> p_state p = PEER_GOOD \<longrightarrow>
        served ctx m fav a)
    \<and> (\<forall>a. Some a \<in> set fav \<longrightarrow> (\<exists>i<n. ps_peer ps ! i = Some a) \<and> (\<exists>p. peers ctx a = Some p \<and> p_state p = PEER_GOOD))"
  show ?thesis
    using assms(2) unfolding choose_favorites_def
  proof (rule for_loop_invD [where P = ?I], goal_cases)
    case 1
    show ?case by (auto simp: slots_ok_def DOWNLOADS_def)
  next
    case (3 n fav fav')
    obtain a p where a: "ps_peer ps ! n = Some a" "get_peer ctx a = Inr p"
      and step: "(if p_state p = PEER_GOOD then prioritize ctx fav a (clock ctx) else Inr fav) = Inr fav'"
      using 3(4) by (auto simp: bindR_Inr_iff arr_get_Inr_iff deref_def split: option.splits)
    have pa: "peers ctx a = Some p" using a(2) by (auto simp: get_peer_def split: option.splits)
    show ?case
    proof (cases "p_state p = PEER_GOOD")
      case True
      with step have pr: "prioritize ctx fav a (clock ctx) = Inr fav'" by simp
      have "slots_ok ctx m fav" using 3(3) by blast
      note s = prioritize_step [OF assms(1) this a(2) pr]
      then have "(\<exists>i<Suc n. ps_peer ps ! i = Some b) \<and> (\<exists>p. peers ctx b = Some p \<and> p_state p = PEER_GOOD)"
        if "Some b \<in> set fav'" for b
        using that 3(3) a(1) pa True by (cases "b = a") (auto simp: less_Suc_eq)
      with s 3(3) a(1) show ?thesis by (auto simp: less_Suc_eq)
    next
      case False
      with step 3(3) a(1) pa show ?thesis by (auto simp: less_Suc_eq)
    qed
  qed simp_all
qed

section \<open>Telling the peers\<close>

lemma tell_peer_result:
  assumes "tell_peer now favorite p = Inr q"
  shows "(p_state q = p_state p \<or> p_state q = PEER_ERROR) \<and> (favorite \<longrightarrow> \<not> choked (p_local q))
    \<and> (\<not> favorite \<longrightarrow> p_state q = PEER_GOOD \<longrightarrow> choked (p_local q))"
proof -
  have send: "p_state q = p_state p \<and> choked (p_local q) = b" if "send_choke p b = Inr (r, q)" for b r q
    using that send_message_frame by (auto simp: send_choke_def Let_def)
  have timer: "choked (start_rate_timer st now) = choked st" "choked (stop_rate_timer st now) = choked st" for st
    by (simp_all add: start_rate_timer_def stop_rate_timer_def)
  consider (unchoke) "favorite" "choked (p_local p)" | (choke) "\<not> favorite" "\<not> choked (p_local p)" "p_state p = PEER_GOOD"
    | (nothing) "q = p" "favorite \<longrightarrow> \<not> choked (p_local p)"
        "\<not> favorite \<longrightarrow> p_state p = PEER_GOOD \<longrightarrow> choked (p_local p)"
    using assms by (auto simp: tell_peer_def split: if_splits)
  then show ?thesis
  proof cases
    case unchoke
    with assms obtain r p1 where s: "send_choke p False = Inr (r, p1)"
      and q: "q = (let p = (if r \<noteq> 0 then p1\<lparr>p_state := PEER_ERROR\<rparr> else p1)
        in if interested (p_remote p) then p\<lparr>p_local := start_rate_timer (p_local p) now\<rparr> else p)"
      by (auto simp: tell_peer_def bindR_Inr_iff Let_def)
    show ?thesis using send [OF s] unchoke by (simp add: q Let_def timer)
  next
    case choke
    with assms obtain r p1 where s: "send_choke p True = Inr (r, p1)"
      and q: "q = (let p = (if r \<noteq> 0 then p1\<lparr>p_state := PEER_ERROR\<rparr> else p1)
        in p\<lparr>p_local := stop_rate_timer (p_local p) now\<rparr>)"
      by (auto simp: tell_peer_def bindR_Inr_iff Let_def)
    show ?thesis using send [OF s] choke by (simp add: q Let_def timer)
  qed simp
qed

lemma peer_favorites_tells:
  assumes "choose_favorites ctx ps = Inr fav" and "peer_favorites ctx ps = Inr ctx'" and "length fav = 4"
    and "i < nat (ps_len ps)" and "ps_peer ps ! i = Some a" and "peers ctx' a = Some q"
  shows "(Some a \<in> set fav \<longrightarrow> \<not> choked (p_local q))
    \<and> (Some a \<notin> set fav \<longrightarrow> p_state q = PEER_GOOD \<longrightarrow> choked (p_local q))"
proof -
  let ?I = "\<lambda>n c. clock c = clock ctx \<and> (\<forall>i<n. \<forall>a q. ps_peer ps ! i = Some a \<longrightarrow> peers c a = Some q \<longrightarrow>
      (Some a \<in> set fav \<longrightarrow> \<not> choked (p_local q))
      \<and> (Some a \<notin> set fav \<longrightarrow> p_state q = PEER_GOOD \<longrightarrow> choked (p_local q)))"
  have fav: "isfavorite fav b \<longleftrightarrow> Some b \<in> set fav" for b
    using assms(3) by (simp add: isfavorite_def DOWNLOADS_def)
  have "?I (nat (ps_len ps)) ctx'"
    using assms(2) unfolding peer_favorites_def assms(1) bindR_simps
  proof (rule for_loop_invD [where P = ?I], goal_cases)
    case (3 n c c')
    from 3(4) obtain a p q where a: "ps_peer ps ! n = Some a" "tell_peer (clock c) (Some a \<in> set fav) p = Inr q"
      "c' = put_peer c a q"
      by (auto simp: bindR_Inr_iff arr_get_Inr_iff deref_def fav split: option.splits)
    have told: "(Some a \<in> set fav \<longrightarrow> \<not> choked (p_local q))
      \<and> (Some a \<notin> set fav \<longrightarrow> p_state q = PEER_GOOD \<longrightarrow> choked (p_local q))"
      using tell_peer_result [OF a(2)] by blast
    show ?case
    proof (intro conjI allI impI)
      show "clock c' = clock ctx" using 3(3) a(3) by (simp add: put_peer_def)
    next
      fix i b r
      assume i: "i < Suc n" "ps_peer ps ! i = Some b" "peers c' b = Some r"
      then have old: "b \<noteq> a \<Longrightarrow> i < n \<and> peers c b = Some r" and new: "b = a \<Longrightarrow> r = q"
        using a(1,3) by (auto simp: put_peer_def less_Suc_eq)
      show "Some b \<in> set fav \<Longrightarrow> \<not> choked (p_local r)"
        using old new told i 3(3) by (cases "b = a") blast+
      show "Some b \<notin> set fav \<Longrightarrow> p_state r = PEER_GOOD \<Longrightarrow> choked (p_local r)"
        using old new told i 3(3) by (cases "b = a") blast+
    qed
  qed simp_all
  with assms(4-6) show ?thesis by blast
qed

section \<open>Properties\<close>


definition claiming_peer :: btPeer where
  "claiming_peer = (let p = peer_zero \<lparr>rx = [], tx = [], sent = []\<rparr> in
     p\<lparr>p_state := PEER_GOOD, p_local := (p_local p)\<lparr>choked := True\<rparr>,
       p_remote := (p_remote p)\<lparr>interested := True\<rparr>\<rparr>)"

definition choking_peers :: btPeerset where
  "choking_peers = \<lparr>ps_len = 1, interestedpeers = 1, incomplete = 1, ps_peer = [Some 0]\<rparr>"

definition choking_ctx :: btContext where
  "choking_ctx = empty_ctx\<lparr>downloads := [], peers := [0 \<mapsto> claiming_peer]\<rparr>"


end
