(* ===== verification/Bt_Util.thy ===== *)
theory Bt_Util
  imports Bt_Prelude
begin

text \<open>
  \<open>util.c\<close> and \<open>bterror.c\<close>: the texts of errors, the cache of open files, the percent-encoding
  of digests with its decoder, and the list of exit functions.
\<close>

section \<open>Texts of errors\<close>

definition BTERR_BASE :: int where "BTERR_BASE = 500"
definition BTERR_LAST :: int where "BTERR_LAST = 510"

definition bterror_string :: "byte list list" where
  "bterror_string =
     [ascii ''Bad protocol ID on peer connection'',
      ascii ''Unrecognized Flags in peer protocol handshake'',
      ascii ''Peer hash value doesn'' @ [39] @ ascii ''t match my hash value'',
      ascii ''Peer disconnected after repeated errors'',
      ascii ''Poll detected that the peer hung up'',
      ascii ''Poll detected a socket error'',
      ascii ''Poll detected an invalid parameter'',
      ascii ''Peer disconnected after too large packet'',
      ascii ''Protocol error: Tried to decode a negative length string'',
      ascii ''Peer queued too many requests'']"

text \<open>\<open>sys\<close> is \<open>strerror\<close> of the C library, whose texts differ between platforms.\<close>

definition bts_strerror :: "(int \<Rightarrow> byte list) \<Rightarrow> int \<Rightarrow> fault + byte list" where
  "bts_strerror sys err =
     (if err \<noteq> 0 then
        if err \<ge> BTERR_BASE \<and> err < BTERR_LAST then arr_get bterror_string (err - BTERR_BASE)
        else Inr (sys err)
      else Inr (ascii ''Not an error''))"

section \<open>The cache of open files\<close>

text \<open>
  Fifty entries, replaced in turn. A path is compared as a pointer, so it is an address here;
  the entries start zeroed.
\<close>

definition FILESETSIZE :: nat where "FILESETSIZE = 50"

record cached_file =
  cf_fd :: int
  cf_options :: int
  cf_path :: "nat option"

record file_cache =
  c_fileset :: "cached_file list"
  c_index :: nat
  last_i :: nat

definition cache_zero :: file_cache where
  "cache_zero = \<lparr>c_fileset = replicate FILESETSIZE \<lparr>cf_fd = 0, cf_options = 0, cf_path = None\<rparr>,
     c_index = 0, last_i = 0\<rparr>"

definition cache_hit :: "nat \<Rightarrow> int \<Rightarrow> cached_file \<Rightarrow> bool" where
  "cache_hit path options f \<longleftrightarrow> cf_path f = Some path \<and> cf_options f = options"

text \<open>
  \<open>opened\<close> is what \<open>open\<close> answers when it is called. The result has the descriptor, the cache,
  and the descriptor that was closed to make room.
\<close>

definition cacheopen ::
    "file_cache \<Rightarrow> nat \<Rightarrow> int \<Rightarrow> int \<Rightarrow> fault + int \<times> int option \<times> file_cache" where
  "cacheopen c path options opened =
     bindR (arr_get (c_fileset c) (int (last_i c))) (\<lambda>f.
     if cache_hit path options f then Inr (cf_fd f, None, c)
     else
       bindR (find_loop 0 FILESETSIZE
         (\<lambda>i. bindR (arr_get (c_fileset c) (int i)) (\<lambda>f. Inr (cache_hit path options f)))) (\<lambda>r.
       case r of
         Some i \<Rightarrow> bindR (arr_get (c_fileset c) (int i)) (\<lambda>f. Inr (cf_fd f, None, c\<lparr>last_i := i\<rparr>))
       | None \<Rightarrow>
           if opened < 0 then Inr (opened, None, c)
           else
             bindR (arr_get (c_fileset c) (int (c_index c))) (\<lambda>old.
             bindR (arr_set (c_fileset c) (int (c_index c))
               \<lparr>cf_fd = opened, cf_options = options, cf_path = Some path\<rparr>) (\<lambda>fs.
             Inr (opened, if cf_fd old > 0 then Some (cf_fd old) else None,
               c\<lparr>c_fileset := fs, c_index := (c_index c + 1) mod FILESETSIZE\<rparr>)))))"

text \<open>The loop counts with \<open>i\<close> but looks at the entry \<open>c_index\<close>. The closed descriptors are collected.\<close>

definition cacheclose :: "file_cache \<Rightarrow> fault + int list \<times> file_cache" where
  "cacheclose c =
     for_loop 0 FILESETSIZE
       (\<lambda>i (closed, c).
          bindR (arr_get (c_fileset c) (int (c_index c))) (\<lambda>f.
          if cf_fd f \<noteq> 0 then
            bindR (arr_set (c_fileset c) (int (c_index c)) \<lparr>cf_fd = 0, cf_options = 0, cf_path = None\<rparr>)
              (\<lambda>fs. Inr (closed @ [cf_fd f], c\<lparr>c_fileset := fs\<rparr>))
          else Inr (closed, c)))
       ([], c)"

section \<open>Percent-encoded digests\<close>

definition hex_digit :: "nat \<Rightarrow> byte" where
  "hex_digit n = of_nat (if n < 10 then 48 + n else 87 + n)"

text \<open>What \<open>printf("%%%02x", b)\<close> puts out.\<close>

definition percent :: "byte \<Rightarrow> byte list" where
  "percent b = [37, hex_digit (unat b div 16), hex_digit (unat b mod 16)]"

text \<open>
  \<open>snprintf\<close> at a position of a buffer: at most \<open>size - 1\<close> bytes and a NUL, nothing when the
  size is 0; a negative size, converted to \<open>size_t\<close>, is no limit.
\<close>

definition snprintf_at :: "byte list \<Rightarrow> nat \<Rightarrow> int \<Rightarrow> byte list \<Rightarrow> fault + byte list" where
  "snprintf_at buf off sz text =
     (if sz = 0 then Inr buf
      else
        let out = (if sz > 0 then take (nat sz - 1) text else text) @ [0]
        in if off + length out \<le> length buf then Inr (blit buf off out) else Inl Oob)"

definition hexencode :: "byte list \<Rightarrow> int \<Rightarrow> byte list \<Rightarrow> int \<Rightarrow> fault + byte list" where
  "hexencode digest len buf buflen =
     for_loop 0 (nat len)
       (\<lambda>i buf. bindR (arr_get digest (int i)) (\<lambda>b.
          snprintf_at buf (3 * i) (buflen - 3 * int i) (percent b))) buf"

text \<open>
  \<open>sscanf(s, "%%%02x%n")\<close>: a percent sign, then white space, then within two characters an
  optional sign and hexadecimal digits. \<open>None\<close> is a result below 1; otherwise the value and
  the number of characters read.
\<close>

definition hex_value :: "byte \<Rightarrow> nat option" where
  "hex_value c =
     (let n = unat c in
      if 48 \<le> n \<and> n \<le> 57 then Some (n - 48)
      else if 97 \<le> n \<and> n \<le> 102 then Some (n - 87)
      else if 65 \<le> n \<and> n \<le> 70 then Some (n - 55) else None)"

definition is_space :: "byte \<Rightarrow> bool" where
  "is_space c \<longleftrightarrow> c \<in> {32, 9, 10, 11, 12, 13}"

definition scan_hex :: "byte list \<Rightarrow> (int \<times> nat) option" where
  "scan_hex s =
     (case s of
        [] \<Rightarrow> None
      | c # r \<Rightarrow>
          if c \<noteq> 37 then None
          else
            let sp = takeWhile is_space r; t = dropWhile is_space r; k = 1 + length sp
            in case t of
                 [] \<Rightarrow> None
               | d # u \<Rightarrow>
                   if d = 43 \<or> d = 45 then
                     (case u of [] \<Rightarrow> None
                      | e # _ \<Rightarrow> (case hex_value e of None \<Rightarrow> None
                          | Some v \<Rightarrow> Some (if d = 45 then - int v else int v, k + 2)))
                   else
                     (case hex_value d of None \<Rightarrow> None
                      | Some v \<Rightarrow>
                          (case u of [] \<Rightarrow> Some (int v, k + 1)
                           | e # _ \<Rightarrow>
                               if d = 48 \<and> (e = 120 \<or> e = 88) then None
                               else (case hex_value e of None \<Rightarrow> Some (int v, k + 1)
                                     | Some w \<Rightarrow> Some (int (16 * v + w), k + 2)))))"

text \<open>
  The loop of \<open>hexdecode\<close> fills the digest from the front; the text is a C string, without its
  NUL. The result is the return value and the bytes stored.
\<close>

primrec hexdecode_loop :: "nat \<Rightarrow> byte list \<Rightarrow> byte list \<Rightarrow> (int \<times> byte list) \<times> byte list" where
  "hexdecode_loop 0 s out = ((0, out), s)"
| "hexdecode_loop (Suc n) s out =
     (case scan_hex s of
        None \<Rightarrow> ((- 1, out), s)
      | Some (v, k) \<Rightarrow> hexdecode_loop n (drop k s) (out @ [word_of_int v]))"

definition hexdecode :: "int \<Rightarrow> byte list \<Rightarrow> int \<times> byte list" where
  "hexdecode len buf =
     (case hexdecode_loop (nat len) buf [] of ((r, out), rest) \<Rightarrow>
        if r \<noteq> 0 then (r, out)
        else if rest \<noteq> [] \<and> hd rest \<noteq> 10 \<and> hd rest \<noteq> 13 then (- 2, out)
        else (0, out))"

section \<open>Exit functions\<close>

definition EXITMAX :: nat where "EXITMAX = 20"

text \<open>A registered function with its data; \<open>atexit\<close> is told of \<open>on_exit_exit\<close> with the first one.\<close>

record exit_list =
  el_entries :: "(nat \<times> nat) list"
  el_atexit :: bool

definition on_exit :: "exit_list \<Rightarrow> nat \<Rightarrow> nat \<Rightarrow> int \<times> exit_list" where
  "on_exit l f data =
     (if length (el_entries l) \<ge> EXITMAX then (1, l)
      else (0, l\<lparr>el_atexit := (el_atexit l \<or> el_entries l = []), el_entries := el_entries l @ [(f, data)]\<rparr>))"

text \<open>The calls \<open>on_exit_exit\<close> makes, in order: each function with status 0 and its data.\<close>

definition on_exit_exit :: "exit_list \<Rightarrow> (nat \<times> int \<times> nat) list" where
  "on_exit_exit l = map (\<lambda>(f, d). (f, 0, d)) (el_entries l)"

section \<open>Decoding what was encoded\<close>

lemma hex_digit_facts:
  assumes "n < 16"
  shows "hex_value (hex_digit n) = Some n" "\<not> is_space (hex_digit n)" "hex_digit n \<noteq> 43" "hex_digit n \<noteq> 45"
    "hex_digit n \<noteq> 120" "hex_digit n \<noteq> 88" "hex_digit n \<noteq> 0"
proof -
  have "\<forall>n \<in> set [0..<16]. hex_value (hex_digit n) = Some n \<and> \<not> is_space (hex_digit n) \<and>
      hex_digit n \<noteq> 43 \<and> hex_digit n \<noteq> 45 \<and> hex_digit n \<noteq> 120 \<and> hex_digit n \<noteq> 88 \<and> hex_digit n \<noteq> 0"
    by code_simp
  then show "hex_value (hex_digit n) = Some n" "\<not> is_space (hex_digit n)" "hex_digit n \<noteq> 43" "hex_digit n \<noteq> 45"
    "hex_digit n \<noteq> 120" "hex_digit n \<noteq> 88" "hex_digit n \<noteq> 0"
    using assms by simp_all
qed

lemma unat_byte: "unat (b :: byte) div 16 < 16" "unat (b :: byte) mod 16 < 16"
  using unsigned_less [where 'a = nat, of b] by (simp_all add: less_mult_imp_div_less)

lemma scan_percent: "scan_hex (percent b @ s) = Some (uint b, 3)"
proof -
  have d: "16 * (unat b div 16) + unat b mod 16 = unat b" by simp
  note f = hex_digit_facts [OF unat_byte(1) [of b]] hex_digit_facts [OF unat_byte(2) [of b]]
  show ?thesis
    using f by (simp add: scan_hex_def percent_def Let_def d uint_nat [symmetric] del: mult_div_mod_eq)
qed

lemma hexdecode_loop_concat:
  "hexdecode_loop (length bs) (concat (map percent bs) @ s) out = ((0, out @ bs), s)"
proof (induction bs arbitrary: out)
  case (Cons b bs)
  have "length (percent b) = 3" by (simp add: percent_def)
  then show ?case using Cons by (simp add: scan_percent)
qed simp

definition hex_text :: "byte list \<Rightarrow> byte list" where
  "hex_text bs = concat (map percent bs)"

lemma length_percent [simp]: "length (percent b) = 3"
  by (simp add: percent_def)

lemma length_hex_text [simp]: "length (hex_text bs) = 3 * length bs"
  by (induction bs) (simp_all add: hex_text_def)

lemma percent_bytes: "x \<in> set (percent b) \<Longrightarrow> x \<noteq> 0 \<and> \<not> is_space x"
  using hex_digit_facts(2,7) [OF unat_byte(1) [of b]] hex_digit_facts(2,7) [OF unat_byte(2) [of b]]
  by (auto simp: percent_def is_space_def)

lemma hex_text_bytes: "x \<in> set (hex_text bs) \<Longrightarrow> x \<noteq> 0 \<and> \<not> is_space x"
  using percent_bytes by (auto simp: hex_text_def)

lemma hex_text_snoc: "hex_text (bs @ [b]) = hex_text bs @ percent b" "hex_text [b] = percent b" "hex_text [] = []"
  by (simp_all add: hex_text_def)

lemma hexdecode_hex_text:
  "hexdecode (int (length bs)) (hex_text bs @ t) =
     (if t \<noteq> [] \<and> hd t \<noteq> 10 \<and> hd t \<noteq> 13 then - 2 else 0, bs)"
  using hexdecode_loop_concat [of bs t "[]"] by (simp add: hexdecode_def hex_text_def)

lemma hexencode_text:
  assumes "0 < length digest" and "3 * length digest < length buf"
  shows "hexencode digest (int (length digest)) buf (int (length buf)) =
    Inr (blit buf 0 (hex_text digest @ [0]))"
proof -
  let ?P = "\<lambda>i t. t = (if i = 0 then buf else blit buf 0 (hex_text (take i digest) @ [0]))"
  let ?body = "\<lambda>i buf'. bindR (arr_get digest (int i)) (\<lambda>b.
      snprintf_at buf' (3 * i) (int (length buf) - 3 * int i) (percent b))"
  have "\<exists>t. for_loop 0 (length digest) ?body buf = Inr t \<and> ?P (length digest) t"
  proof (rule for_loop_inv)
    fix i t assume i: "i < length digest" and t: "?P i t"
    have len: "length t = length buf" using t i assms(2) by (simp split: if_splits)
    have "take (nat (int (length buf) - 3 * int i) - 1) (percent (digest ! i)) = percent (digest ! i)"
      using i assms(2) by simp
    then have r: "?body i t = Inr (blit t (3 * i) (percent (digest ! i) @ [0]))"
      using i assms(2) len by (simp add: snprintf_at_def Let_def)
    have "blit t (3 * i) (percent (digest ! i) @ [0]) = blit buf 0 (hex_text (take (Suc i) digest) @ [0])"
      using t i assms(2) by (auto simp: blit_def take_Suc_conv_app_nth hex_text_snoc add.commute)
    then show "\<exists>t'. ?body i t = Inr t' \<and> ?P (Suc i) t'" using r by simp
  qed simp_all
  then show ?thesis using assms(1) by (auto simp: hexencode_def)
qed

end
