(* ===== verification/Bt_Client.thy ===== *)
theory Bt_Client
  imports Bt_Progress Bt_Choke Bt_Util
begin

text \<open>
  The life of a connection (the rest of \<open>peer.c\<close>) and the client program \<open>btget.c\<close> around it:
  connecting, answering, reading until nothing whole is left, writing, closing, and one pass of
  the main loop over the sockets. What system calls answer is an argument.
\<close>

section \<open>Connecting\<close>

definition EINPROGRESS :: int where "EINPROGRESS = 115"
definition BTERR_POLLHUP :: int where "BTERR_POLLHUP = 504"
definition BTERR_POLLERR :: int where "BTERR_POLLERR = 505"
definition BTERR_POLLNVAL :: int where "BTERR_POLLNVAL = 506"

text \<open>
  What the kernel answers when a connection is opened: the descriptor of \<open>socket\<close> or \<open>-1\<close>,
  whether the two \<open>fcntl\<close> calls succeed, the \<open>errno\<close> of \<open>connect\<close> (0 for success), and how the
  new socket will behave.
\<close>

record dialled =
  sk_fd :: int
  sk_getfl :: bool
  sk_setfl :: bool
  sk_connect :: int
  sk_net :: net

text \<open>\<open>getsockopt(SO_ERROR)\<close>: its own \<open>errno\<close> (0 for success) and the error it reports.\<close>

definition peer_connect_complete :: "btPeer \<Rightarrow> int \<Rightarrow> int \<Rightarrow> int \<times> btPeer" where
  "peer_connect_complete p failed so_error =
     (if failed \<noteq> 0 then (failed, set_error failed p)
      else if so_error \<noteq> 0 then (so_error, (set_error so_error p)\<lparr>p_state := PEER_ERROR\<rparr>)
      else (0, p\<lparr>p_state := PEER_OUTGOING\<rparr>))"

definition peer_connect_request :: "btContext \<Rightarrow> addr \<Rightarrow> dialled \<Rightarrow> fault + int \<times> btContext" where
  "peer_connect_request ctx a k =
     bindR (get_peer ctx a) (\<lambda>p.
     if myid ctx = p_id p then Inr (- 1, ctx)
     else if sk_fd k = - 1 then Inr (- 1, ctx)
     else if \<not> sk_getfl k then Inr (- 1, ctx)
     else if \<not> sk_setfl k then Inr (- 1, ctx)
     else if sk_connect k \<noteq> 0 \<and> sk_connect k \<noteq> EINPROGRESS then Inr (- 1, ctx)
     else
       bindR (arr_set (sockpeer ctx) (sk_fd k) (Some a)) (\<lambda>sp.
       let p = p\<lparr>p_ios := kStream_create (p_ios p) (sk_fd k), p_sock := sk_net k\<rparr>
       in Inr (if sk_connect k \<noteq> 0 then 1 else 0, (put_peer ctx a p)\<lparr>sockpeer := sp\<rparr>)))"

text \<open>The poll table is a part of the context.\<close>

definition set_events :: "btContext \<Rightarrow> int \<Rightarrow> int \<Rightarrow> fault + btContext" where
  "set_events ctx fd ev = bindR (ctx_setevents (polls ctx) fd ev) (\<lambda>ps. Inr (ctx\<lparr>polls := ps\<rparr>))"

definition clr_events :: "btContext \<Rightarrow> int \<Rightarrow> int \<Rightarrow> fault + btContext" where
  "clr_events ctx fd ev = bindR (ctx_clrevents (polls ctx) fd ev) (\<lambda>ps. Inr (ctx\<lparr>polls := ps\<rparr>))"

text \<open>
  \<open>a\<close> is the address \<open>btcalloc\<close> returns and \<open>ident\<close> the memory at the pointer \<open>id\<close>, of which
  twenty bytes are copied. The increment of \<open>pset->len\<close> is made where the array is extended: the
  only path between the two that returns ends the process in \<open>ctx_delstatus(TMPLOC)\<close>.
\<close>

definition peer_add ::
    "btContext \<Rightarrow> int \<Rightarrow> byte list \<Rightarrow> byte list \<Rightarrow> int \<Rightarrow> addr \<Rightarrow> dialled \<Rightarrow> fault + addr option \<times> btContext" where
  "peer_add ctx dlid ident ipaddr port a k =
     bindR (get_dl ctx dlid) (\<lambda>d.
     bindR (ctx_addstatus (polls ctx) TMPLOC) (\<lambda>(r, ps).
     let ctx = ctx\<lparr>polls := ps\<rparr> in
     if r \<noteq> 0 then Inr (None, ctx)
     else if length ident < IDSIZE then Inl Oob
     else
       let z = peer_zero (sk_net k);
           p = z\<lparr>p_download := dlid, p_blocks := kBitSet_create (nat (npieces (fileset d))),
                 p_id := take IDSIZE ident, p_ip := ipaddr, p_port := port,
                 p_remote := (p_remote z)\<lparr>choked := True\<rparr>, p_local := (p_local z)\<lparr>choked := True\<rparr>\<rparr>
       in bindR (peer_connect_request (put_peer ctx a p) a k) (\<lambda>(err, ctx).
          if err < 0 then
            bindR (ctx_delstatus (polls ctx) TMPLOC) (\<lambda>ps.
            Inr (None, ctx\<lparr>polls := ps, peers := (peers ctx)(a := None)\<rparr>))
          else
            let ctx = put_dl ctx dlid (d\<lparr>peerset := peerset_append (peerset d) a\<rparr>) in
            bindR (get_peer ctx a) (\<lambda>p.
            let fd = str_fd (p_ios p) in
            bindR (ctx_fixtmp (polls ctx) fd) (\<lambda>ps.
            let ctx = ctx\<lparr>polls := ps\<rparr> in
            if err = 1 then
              bindR (set_events (put_peer ctx a (p\<lparr>p_state := PEER_INIT\<rparr>)) fd POLLOUT) (\<lambda>ctx.
              Inr (Some a, ctx))
            else
              bindR (set_events ctx fd POLLIN) (\<lambda>ctx.
              bindR (peer_send_handshake ctx (p\<lparr>p_state := PEER_OUTGOING\<rparr>)) (\<lambda>(r, p).
              let p = (if r < 0 then p\<lparr>p_state := PEER_ERROR\<rparr> else p) in
              bindR (peer_send_bitfield ctx p) (\<lambda>(r, p).
              let p = (if r < 0 then p\<lparr>p_state := PEER_ERROR\<rparr> else p) in
              Inr (Some a, put_peer ctx a p)))))))))"

definition peer_answer ::
    "btContext \<Rightarrow> int \<Rightarrow> addr \<Rightarrow> byte list \<Rightarrow> bool \<Rightarrow> bool \<Rightarrow> net \<Rightarrow> fault + int \<times> btContext" where
  "peer_answer ctx fd a ipaddr getfl setfl n =
     bindR (ctx_addstatus (polls ctx) fd) (\<lambda>(r, ps).
     let ctx = ctx\<lparr>polls := ps\<rparr> in
     if r \<noteq> 0 then Inr (- 1, ctx)
     else
       let z = peer_zero n;
           p = z\<lparr>p_ip := ipaddr, p_port := 0, p_remote := (p_remote z)\<lparr>choked := True\<rparr>,
                 p_local := (p_local z)\<lparr>choked := True\<rparr>, p_state := PEER_INCOMING, p_download := INT_MAX,
                 p_ios := kStream_create (p_ios z) fd\<rparr>
       in bindR (arr_set (sockpeer ctx) fd (Some a)) (\<lambda>sp.
          let ctx = (put_peer ctx a p)\<lparr>sockpeer := sp\<rparr> in
          if \<not> getfl then Inr (- 1, ctx)
          else if \<not> setfl then Inr (- 1, ctx)
          else bindR (set_events ctx fd POLLIN) (\<lambda>ctx. Inr (0, ctx))))"

section \<open>Closing\<close>

definition peer_shutdown :: "btContext \<Rightarrow> addr \<Rightarrow> byte list \<Rightarrow> fault + btContext" where
  "peer_shutdown ctx a reason =
     bindR (get_peer ctx a) (\<lambda>p.
     let fd = str_fd (p_ios p) in
     bindR (case p_currentPiece p of
              None \<Rightarrow> Inr ctx
            | Some n \<Rightarrow> bindR (get_dl ctx (p_download p)) (\<lambda>d.
                bindR (release_piece d (Some n)) (\<lambda>d. Inr (put_dl ctx (p_download p) d)))) (\<lambda>ctx.
     bindR (if fd = - 1 then Inr ctx
            else bindR (arr_get (statmap (polls ctx)) fd) (\<lambda>sid.
              if sid = - 1 then Inr ctx
              else bindR (ctx_delstatus (polls ctx) fd) (\<lambda>ps. Inr (ctx\<lparr>polls := ps\<rparr>)))) (\<lambda>ctx.
     bindR (arr_set (sockpeer ctx) fd None) (\<lambda>sp.
     let p = p\<lparr>p_state := PEER_ERROR, p_local := (p_local p)\<lparr>unreachable := True\<rparr>, p_error := reason,
               p_ios := kStream_finit (p_ios p), p_blocks := (p_blocks p)\<lparr>bits := []\<rparr>\<rparr>
     in Inr ((put_peer ctx a p)\<lparr>sockpeer := sp\<rparr>)))))"

text \<open>Taking a peer out of the set of its torrent; when it is not there the index is uninitialised.\<close>

fun find_member :: "addr option list \<Rightarrow> addr \<Rightarrow> nat \<Rightarrow> nat option" where
  "find_member [] a i = None"
| "find_member (x # xs) a i = (if x = Some a then Some i else find_member xs a (Suc i))"

definition peerset_remove :: "btPeerset \<Rightarrow> addr \<Rightarrow> fault + btPeerset" where
  "peerset_remove ps a =
     (case find_member (ps_peer ps) a 0 of
        None \<Rightarrow> Inl Oob
      | Some j \<Rightarrow> Inr (ps\<lparr>ps_peer := take j (ps_peer ps) @ drop (Suc j) (ps_peer ps), ps_len := ps_len ps - 1\<rparr>))"

definition client_finit :: "btContext \<Rightarrow> int \<Rightarrow> fault + btContext" where
  "client_finit ctx cs =
     bindR (arr_get (sockpeer ctx) cs) (\<lambda>a. bindR (deref a) (\<lambda>a.
     bindR (get_peer ctx a) (\<lambda>p.
     bindR (if str_error (p_ios p) \<noteq> 0 then bts_strerror (sys_error ctx) (str_error (p_ios p))
            else Inr (ascii ''connection closed'')) (\<lambda>err.
     let dlid = p_download p in
     bindR (peer_shutdown ctx a err) (\<lambda>ctx.
     bindR (if dlid \<noteq> INT_MAX then
              bindR (get_dl ctx dlid) (\<lambda>d.
              bindR (peerset_remove (peerset d) a) (\<lambda>ps. Inr (put_dl ctx dlid (d\<lparr>peerset := ps\<rparr>))))
            else Inr ctx) (\<lambda>ctx.
     Inr (ctx\<lparr>peers := (peers ctx)(a := None)\<rparr>)))))))"

definition client_error :: "btContext \<Rightarrow> int \<Rightarrow> fault + btContext" where
  "client_error ctx cs =
     bindR (client_finit ctx cs) (\<lambda>ctx.
     bindR (arr_get (x_set ctx) cs) (\<lambda>x.
     if x then bindR (arr_set (x_set ctx) cs False) (\<lambda>xs. Inr (ctx\<lparr>xsock := xsock ctx - 1, x_set := xs\<rparr>))
     else Inr ctx))"

section \<open>Reading and writing\<close>

text \<open>
  The loop of \<open>client_run\<close>. It ends because each message that is answered with 1 has been taken
  from the pending input.
\<close>

function recv_loop :: "btContext \<Rightarrow> addr \<Rightarrow> fault + int \<times> btContext" where
  "recv_loop ctx a =
     bindR (peer_recv_message ctx a) (\<lambda>(err, ctx'). if err = 1 then recv_loop ctx' a else Inr (err, ctx'))"
  by pat_completeness auto
termination
  by (relation "measure (\<lambda>(ctx, a). length (pending ctx a))") (auto dest: peer_recv_message_progress(3))

declare recv_loop.simps [simp del]

definition READABLE :: int where "READABLE = 1"
definition EXECUTE :: int where "EXECUTE = 2"

definition client_run :: "btContext \<Rightarrow> int \<Rightarrow> int \<Rightarrow> fault + int \<times> btContext" where
  "client_run ctx cs cmd =
     bindR (arr_get (sockpeer ctx) cs) (\<lambda>a. bindR (deref a) (\<lambda>a.
     bindR (get_peer ctx a) (\<lambda>p.
     if p_state p = PEER_ERROR then Inr (- 1, ctx)
     else
       bindR (recv_loop ctx a) (\<lambda>(err, ctx).
       bindR (get_peer ctx a) (\<lambda>p.
       if err < 0 \<and> str_error (p_ios p) \<noteq> EAGAIN then Inr (- 1, ctx)
       else
         bindR (if p_download p \<noteq> INT_MAX then peer_process_queue ctx a (p_download p) else Inr (err, ctx))
           (\<lambda>(err, ctx).
         bindR (get_peer ctx a) (\<lambda>p.
         if err < 0 \<and> str_error (p_ios p) \<noteq> EAGAIN then Inr (- 1, ctx)
         else Inr (if err = 1 \<and> cmd = EXECUTE then 1 else 0, ctx))))))))"

definition client_write :: "btContext \<Rightarrow> int \<Rightarrow> int \<Rightarrow> int \<Rightarrow> fault + int \<times> btContext" where
  "client_write ctx cs failed so_error =
     bindR (arr_get (sockpeer ctx) cs) (\<lambda>a. bindR (deref a) (\<lambda>a.
     bindR (get_peer ctx a) (\<lambda>p.
     let finish = (\<lambda>ctx. bindR (get_peer ctx a) (\<lambda>p.
                     Inr (if kStream_oqlen (p_ios p) > 0 then 1 else 0, ctx)))
     in if p_state p = PEER_INIT then
          case peer_connect_complete p failed so_error of (err, p) \<Rightarrow>
            if err < 0 \<and> str_error (p_ios p) = EAGAIN then Inr (1, put_peer ctx a p)
            else if err \<noteq> 0 then Inr (- 1, put_peer ctx a p)
            else
              bindR (set_events ctx cs POLLIN) (\<lambda>ctx.
              bindR (peer_send_handshake ctx p) (\<lambda>(_, p).
              bindR (peer_send_bitfield ctx p) (\<lambda>(_, p).
              finish (put_peer ctx a (p\<lparr>p_state := PEER_OUTGOING\<rparr>)))))
        else
          bindR (kStream_flush (p_ios p) (p_sock p)) (\<lambda>(err, s, n).
          let ctx = put_peer ctx a (p\<lparr>p_ios := s, p_sock := n\<rparr>) in
          if err < 0 \<and> str_error s \<noteq> EAGAIN then Inr (- 1, ctx) else finish ctx))))"

section \<open>The main loop\<close>

text \<open>Waiting output makes the loop poll for room to write.\<close>

definition watch_output :: "btContext \<Rightarrow> int \<Rightarrow> addr \<Rightarrow> fault + btContext" where
  "watch_output ctx cs a =
     bindR (get_peer ctx a) (\<lambda>p.
     if kStream_oqlen (p_ios p) \<noteq> 0 then set_events ctx cs POLLOUT else Inr ctx)"

text \<open>The first loop over the sockets with more work to do.\<close>

definition execute_socket :: "btContext \<Rightarrow> int \<Rightarrow> fault + btContext" where
  "execute_socket ctx cs =
     bindR (arr_get (x_set ctx) cs) (\<lambda>x.
     if \<not> x then Inr ctx
     else
       bindR (arr_get (sockpeer ctx) cs) (\<lambda>a. bindR (deref a) (\<lambda>a.
       bindR (client_run ctx cs EXECUTE) (\<lambda>(execerr, ctx).
       bindR (if execerr = 0 then
                bindR (arr_get (x_set ctx) cs) (\<lambda>x.
                if x then bindR (arr_set (x_set ctx) cs False) (\<lambda>xs.
                       Inr (ctx\<lparr>x_set := xs, xsock := xsock ctx - 1\<rparr>))
                else Inr ctx)
              else Inr ctx) (\<lambda>ctx.
       bindR (watch_output ctx cs a) (\<lambda>ctx.
       if execerr < 0 then client_error ctx cs else Inr ctx))))))"

text \<open>
  What the system calls answer while one slot is served: \<open>accept\<close>, with what \<open>peer_answer\<close>
  needs, and \<open>getsockopt\<close>.
\<close>

record served =
  sv_accept :: int
  sv_addr :: addr
  sv_ip :: "byte list"
  sv_getfl :: bool
  sv_setfl :: bool
  sv_net :: net
  sv_failed :: int
  sv_so_error :: int

text \<open>\<open>cs\<close> is the socket of the slot, or after an \<open>accept\<close> the new one: the source reuses the variable.\<close>

definition serve_input :: "btContext \<Rightarrow> int \<Rightarrow> served \<Rightarrow> fault + (int \<times> int) \<times> btContext" where
  "serve_input ctx cs k =
     (if cs = ss ctx then
        if sv_accept k < 0 then Inr ((sv_accept k, 0), ctx)
        else bindR (peer_answer ctx (sv_accept k) (sv_addr k) (sv_ip k) (sv_getfl k) (sv_setfl k) (sv_net k))
               (\<lambda>(_, ctx). Inr ((sv_accept k, 0), ctx))
      else
        bindR (arr_get (sockpeer ctx) cs) (\<lambda>a. bindR (deref a) (\<lambda>a.
        bindR (client_run ctx cs READABLE) (\<lambda>(readerr, ctx).
        bindR (if readerr = 1 then
                 bindR (arr_get (x_set ctx) cs) (\<lambda>x.
                 if x then Inr ctx
                 else bindR (arr_set (x_set ctx) cs True) (\<lambda>xs.
                   Inr (ctx\<lparr>x_set := xs, xsock := xsock ctx + 1\<rparr>)))
               else Inr ctx) (\<lambda>ctx.
        bindR (watch_output ctx cs a) (\<lambda>ctx. Inr ((cs, readerr), ctx)))))))"

definition serve_output :: "btContext \<Rightarrow> int \<Rightarrow> served \<Rightarrow> fault + int \<times> btContext" where
  "serve_output ctx cs k =
     bindR (client_write ctx cs (sv_failed k) (sv_so_error k)) (\<lambda>(writeerr, ctx).
     if writeerr = 0 then
       bindR (clr_events ctx cs POLLOUT) (\<lambda>ctx.
       bindR (arr_get (x_set ctx) cs) (\<lambda>x.
       if x then Inr (writeerr, ctx)
       else bindR (arr_set (x_set ctx) cs True) (\<lambda>xs.
         Inr (writeerr, ctx\<lparr>x_set := xs, xsock := xsock ctx + 1\<rparr>))))
     else Inr (writeerr, ctx))"

definition serve_error :: "btContext \<Rightarrow> int \<Rightarrow> int \<Rightarrow> fault + btContext" where
  "serve_error ctx cs events =
     bindR (arr_get (sockpeer ctx) cs) (\<lambda>a. bindR (deref a) (\<lambda>a.
     bindR (at_peer ctx a (\<lambda>p. Inr ((),
       if events AND POLLHUP \<noteq> 0 then set_error BTERR_POLLHUP p
       else if events AND POLLERR \<noteq> 0 then set_error BTERR_POLLERR p
       else if events AND POLLNVAL \<noteq> 0 then set_error BTERR_POLLNVAL p else p))) (\<lambda>(_, ctx). Inr ctx)))"

text \<open>Snub detection: a peer that is wanted and has not choked us has sent nothing for two minutes.\<close>

definition check_snubbed :: "btContext \<Rightarrow> int \<Rightarrow> bool \<Rightarrow> fault + btContext" where
  "check_snubbed ctx cs optsnub =
     bindR (arr_get (sockpeer ctx) cs) (\<lambda>a.
     case a of
       None \<Rightarrow> Inr ctx
     | Some a \<Rightarrow>
         if \<not> optsnub then Inr ctx
         else
           bindR (get_peer ctx a) (\<lambda>p.
           if \<not> choked (p_remote p) \<and> interested (p_local p) \<and> \<not> snubbed (p_local p) \<and>
              clock ctx - p_lastreceived p > 120
           then Inr (put_peer ctx a (p\<lparr>p_local := (p_local p)\<lparr>snubbed := True\<rparr>\<rparr>)) else Inr ctx))"

definition serve_slot :: "btContext \<Rightarrow> int \<Rightarrow> served \<Rightarrow> bool \<Rightarrow> fault + btContext" where
  "serve_slot ctx i k optsnub =
     bindR (arr_get (status (polls ctx)) i) (\<lambda>st.
     let cs = pfd_fd st; revents = pfd_revents st in
     bindR (arr_get (statmap (polls ctx)) cs) (\<lambda>m.
     die_unless (m = i)
       (bindR (if revents AND POLLIN \<noteq> 0
               then die_unless (pfd_events st AND POLLIN \<noteq> 0) (serve_input ctx cs k)
               else Inr ((cs, 0), ctx)) (\<lambda>((cs, readerr), ctx).
        bindR (if revents AND POLLOUT \<noteq> 0 then serve_output ctx cs k else Inr (0, ctx)) (\<lambda>(writeerr, ctx).
        let bad = (revents AND (POLLERR OR POLLHUP OR POLLNVAL) \<noteq> 0) in
        bindR (if bad then serve_error ctx cs revents else Inr ctx) (\<lambda>ctx.
        bindR (if readerr < 0 \<or> writeerr < 0 \<or> bad then client_error ctx cs else Inr ctx) (\<lambda>ctx.
        check_snubbed ctx cs optsnub)))))))"

text \<open>The second loop, over the slots; their number changes on the way, the array ends at \<open>MAXCONN\<close>.\<close>

function serve_slots :: "btContext \<Rightarrow> nat \<Rightarrow> (nat \<Rightarrow> served) \<Rightarrow> bool \<Rightarrow> fault + btContext" where
  "serve_slots ctx i env optsnub =
     (if int i < nstatus (polls ctx) then
        if MAXCONN \<le> i then Inl Oob
        else bindR (serve_slot ctx (int i) (env i) optsnub) (\<lambda>ctx. serve_slots ctx (Suc i) env optsnub)
      else Inr ctx)"
  by pat_completeness auto
termination
  by (relation "measure (\<lambda>(ctx, i, env, optsnub). MAXCONN - i)") auto

declare serve_slots.simps [simp del]

text \<open>Every 30 seconds the favourites of each torrent are chosen anew.\<close>

definition rechoke :: "btContext \<Rightarrow> fault + btContext" where
  "rechoke ctx =
     for_loop 0 (length (downloads ctx))
       (\<lambda>i ctx. bindR (arr_get (downloads ctx) (int i)) (\<lambda>d. case d of
          None \<Rightarrow> Inr ctx
        | Some d \<Rightarrow> peer_favorites ctx (peerset d))) ctx"

definition socket_pass :: "btContext \<Rightarrow> (nat \<Rightarrow> served) \<Rightarrow> bool \<Rightarrow> fault + btContext" where
  "socket_pass ctx env optsnub =
     bindR (for_loop 0 SOCKID_MAX (\<lambda>cs ctx. execute_socket ctx (int cs)) ctx) (\<lambda>ctx.
     serve_slots ctx 0 env optsnub)"

end
