(* ===== verification/Bt_Config.thy ===== *)
theory Bt_Config
  imports Bt_Client
begin

text \<open>
  The beginning of \<open>context.c\<close>: a fresh context, with the identity of the client from the
  configuration file or made up and written to one, and the listening socket. The theory shows
  that an identity that was written is the one the next start reads.
\<close>

section \<open>Reading lines\<close>

text \<open>
  \<open>fgets\<close> of at most \<open>n\<close> characters: the characters read, the rest of the file, and whether the
  end of the file was met.
\<close>

fun read_line :: "nat \<Rightarrow> byte list \<Rightarrow> byte list \<times> byte list \<times> bool" where
  "read_line 0 s = ([], s, False)"
| "read_line (Suc n) [] = ([], [], True)"
| "read_line (Suc n) (c # s) =
     (if c = 10 then ([c], s, False) else case read_line n s of (l, r, e) \<Rightarrow> (c # l, r, e))"

text \<open>The buffer keeps what it holds when nothing is read; the pointer is not looked at.\<close>

definition fgets :: "byte list \<Rightarrow> byte list \<Rightarrow> byte list \<times> byte list \<times> bool" where
  "fgets buf s =
     (case read_line (length buf - 1) s of (l, r, e) \<Rightarrow> (if l = [] then buf else blit buf 0 (l @ [0]), r, e))"

lemma read_line_progress: "read_line n s = (l, r, e) \<Longrightarrow> 0 < n \<Longrightarrow> \<not> e \<Longrightarrow> length r < length s"
proof (induction n s arbitrary: l rule: read_line.induct)
  case (3 n c s)
  then show ?case by (cases n) (auto split: if_splits prod.splits)
qed auto

section \<open>The configuration file\<close>

definition MIN_PORT :: int where "MIN_PORT = 6881"
definition MAX_PORT :: int where "MAX_PORT = 6889"
definition KEYSIZE :: nat where "KEYSIZE = 8"
definition FD_SETSIZE :: nat where "FD_SETSIZE = 1024"

definition parse_config_digest ::
    "byte list \<Rightarrow> byte list \<Rightarrow> nat \<Rightarrow> byte list \<Rightarrow> fault + int \<times> byte list" where
  "parse_config_digest token digest len linebuf =
     (if 0 \<notin> set linebuf then Inl Oob
      else if strncmp linebuf token (length token) = 0 then
        let line = dropWhile (\<lambda>c. c = 32 \<or> c = 9) (c_string (drop (length token) linebuf))
        in case hexdecode (int len) line of (res, out) \<Rightarrow>
             if res \<noteq> 0 then Inl Abort else Inr (res, blit digest 0 out)
      else Inr (- 1, digest))"

text \<open>The loop over the lines; when it ends both values must have been seen.\<close>

function config_loop ::
    "byte list \<Rightarrow> byte list \<Rightarrow> bool \<Rightarrow> (bool \<times> byte list) \<times> (bool \<times> byte list) \<Rightarrow>
     fault + (bool \<times> byte list) \<times> (bool \<times> byte list)" where
  "config_loop hexbuf rest eof ((got_id, ident), (got_key, key)) =
     (if eof \<or> length hexbuf < 2 then Inr ((got_id, ident), (got_key, key))
      else case fgets hexbuf rest of (hexbuf, rest, eof) \<Rightarrow>
        bindR (parse_config_digest (ascii ''myid:'') ident IDSIZE hexbuf) (\<lambda>(r1, ident).
        bindR (parse_config_digest (ascii ''mykey:'') key KEYSIZE hexbuf) (\<lambda>(r2, key).
        config_loop hexbuf rest eof ((got_id \<or> r1 = 0, ident), (got_key \<or> r2 = 0, key)))))"
  by pat_completeness auto
termination
  by (relation "measure (\<lambda>(hexbuf, rest, eof, st). if eof then 0 else Suc (length rest))")
    (auto simp: fgets_def split: prod.splits if_splits dest!: read_line_progress)

declare config_loop.simps [simp del]

text \<open>An uninitialised array of \<open>n\<close> characters, and the lines that are written.\<close>

definition local_array :: "btContext \<Rightarrow> nat \<Rightarrow> byte list" where
  "local_array ctx n = take n (junk ctx @ replicate n 0)"

definition config_line :: "byte list \<Rightarrow> byte list \<Rightarrow> byte list" where
  "config_line token hexbuf = token @ [32] @ c_string hexbuf @ [10]"

definition write_config :: "byte list \<Rightarrow> byte list \<Rightarrow> byte list \<Rightarrow> fault + byte list" where
  "write_config hexbuf ident key =
     bindR (hexencode ident (int IDSIZE) hexbuf (int (length hexbuf))) (\<lambda>hexbuf.
     bindR (hexencode key (int KEYSIZE) hexbuf (int (length hexbuf))) (\<lambda>hexbuf2.
     Inr (config_line (ascii ''myid:'') hexbuf @ config_line (ascii ''mykey:'') hexbuf2)))"

definition rc_name :: "byte list" where "rc_name = ascii ''.libbtrc''"

text \<open>
  \<open>newid\<close> and \<open>newkey\<close> are what \<open>randomid\<close> makes. What is missing is read from the file the caller
  names, and written to \<open>.libbtrc\<close>.
\<close>

definition btContext_create ::
    "btContext \<Rightarrow> nat \<times> nat \<Rightarrow> byte list \<Rightarrow> byte list \<Rightarrow> byte list \<Rightarrow> fault + btContext" where
  "btContext_create ctx ulf rcfile newid newkey =
     (let hexbuf = local_array ctx 80;
          ctx = ctx\<lparr>downloads := [], sockpeer := replicate FD_SETSIZE None, myid := replicate IDSIZE 0,
                    mykey := replicate KEYSIZE 0, polls := pollset_create,
                    x_set := replicate SOCKID_MAX False, xsock := 0, ss := 0\<rparr>;
          finish = (\<lambda>ctx. Inr (ctx\<lparr>ulfactor := ulf, listenport := MIN_PORT\<rparr>))
      in case d_file (store ctx) rcfile of
           None \<Rightarrow>
             if \<not> d_writable (store ctx) rc_name then Inl Oob
             else bindR (write_config hexbuf newid newkey) (\<lambda>text.
               finish (ctx\<lparr>myid := newid, mykey := newkey,
                 store := (store ctx)\<lparr>d_file := (d_file (store ctx))(rc_name \<mapsto> text)\<rparr>\<rparr>))
         | Some text \<Rightarrow>
             bindR (config_loop hexbuf text False ((False, myid ctx), (False, mykey ctx)))
               (\<lambda>((got_id, ident), (got_key, key)).
                if \<not> got_id \<or> \<not> got_key then Inl Abort
                else finish (ctx\<lparr>myid := ident, mykey := key\<rparr>)))"

section \<open>The listening socket\<close>

text \<open>\<open>sock\<close> is what \<open>socket\<close> answers, \<open>binds\<close> whether a port can be bound, \<open>listens\<close> whether \<open>listen\<close> succeeds.\<close>

definition ctx_startserver :: "btContext \<Rightarrow> int \<Rightarrow> (int \<Rightarrow> bool) \<Rightarrow> bool \<Rightarrow> fault + int \<times> btContext" where
  "ctx_startserver ctx sock binds listens =
     bindR (find_loop (nat MIN_PORT) (nat MAX_PORT + 1) (\<lambda>port. Inr (binds (int port)))) (\<lambda>found.
     case found of
       None \<Rightarrow> Inl Abort
     | Some port \<Rightarrow>
         if \<not> listens then Inl Abort
         else
           let ctx = ctx\<lparr>ss := sock, listenport := int port\<rparr> in
           bindR (ctx_addstatus (polls ctx) sock) (\<lambda>(_, ps).
           bindR (set_events (ctx\<lparr>polls := ps\<rparr>) sock POLLIN) (\<lambda>ctx. Inr (0, ctx))))"

section \<open>What is written is read back\<close>

lemma read_line_line:
  "10 \<notin> set l \<Longrightarrow> length l < n \<Longrightarrow> read_line n (l @ 10 # s) = (l @ [10], s, False)"
proof (induction l arbitrary: n)
  case Nil
  then show ?case by (cases n) simp_all
next
  case (Cons c l)
  then show ?case by (cases n) auto
qed

lemma fgets_line:
  assumes "10 \<notin> set l" and "length l + 1 < length buf"
  shows "fgets buf (l @ 10 # s) = (blit buf 0 (l @ [10, 0]), s, False)"
  using read_line_line [OF assms(1), of "length buf - 1" s] assms(2) by (simp add: fgets_def)

lemma fgets_end: "1 < length buf \<Longrightarrow> fgets buf [] = (buf, [], True)"
  by (cases "length buf - 1") (simp_all add: fgets_def)

lemma c_string_append: "0 \<notin> set a \<Longrightarrow> c_string (a @ 0 # b) = a"
  by (induction a) (auto simp: c_string_def)

lemma strncmp_prefix: "strncmp (token @ s) token (length token) = 0"
  by (induction token) auto

lemma strncmp_refuted:
  "strncmp (a @ c # s) (a @ d # t) (Suc (length a) + k) \<noteq> 0" if "c \<noteq> d" "0 \<notin> set a"
  using that by (induction a) (auto simp: word_uint_eq_iff)

text \<open>A line of the file, in the buffer, gives the digest it was made from.\<close>

lemma parse_line:
  assumes "0 \<notin> set token" and "length ident = n" and "length digest = n" and "0 < n"
  shows "parse_config_digest token digest n (token @ [32] @ hex_text ident @ [10, 0] @ rest) = Inr (0, ident)"
proof -
  let ?h = "hex_text ident"
  have "0 \<notin> set ([32] @ ?h @ [10])" using hex_text_bytes by auto
  then have cs: "c_string ([32] @ ?h @ [10, 0] @ rest) = [32] @ ?h @ [10]"
    using c_string_append [of "[32] @ ?h @ [10]" rest] by simp
  obtain b bs where "ident = b # bs" using assms(2,4) by (cases ident) auto
  then have "\<exists>t. ?h = 37 # t" by (simp add: hex_text_def percent_def)
  then have dw: "dropWhile (\<lambda>c. c = 32 \<or> c = 9) (32 # ?h @ [10]) = ?h @ [10]" by auto
  have "hexdecode (int n) (?h @ [10]) = (0, ident)"
    using hexdecode_hex_text [of ident "[10]"] assms(2) by simp
  then show ?thesis
    using strncmp_prefix [of token "[32] @ ?h @ [10, 0] @ rest"] cs dw assms(2,3)
    by (simp add: parse_config_digest_def blit_whole)
qed

lemma parse_other:
  assumes "c \<noteq> d" and "0 \<notin> set a" and "0 \<in> set (a @ c # s)"
  shows "parse_config_digest (a @ d # t) digest n (a @ c # s) = Inr (- 1, digest)"
  using strncmp_refuted [OF assms(1,2), of s t "length t"] assms(3) by (simp add: parse_config_digest_def)

lemma config_loop_step:
  assumes "1 < length hexbuf" and "fgets hexbuf rest = (hexbuf', rest', eof')"
    and "parse_config_digest (ascii ''myid:'') ident IDSIZE hexbuf' = Inr (r1, ident')"
    and "parse_config_digest (ascii ''mykey:'') key KEYSIZE hexbuf' = Inr (r2, key')"
  shows "config_loop hexbuf rest False ((g1, ident), (g2, key)) =
    config_loop hexbuf' rest' eof' ((g1 \<or> r1 = 0, ident'), (g2 \<or> r2 = 0, key'))"
  using assms by (subst config_loop.simps) simp

text \<open>Where the two tokens differ: behind their common first two letters.\<close>

lemma token_split:
  "ascii ''myid:'' = ascii ''my'' @ 105 # ascii ''d:''" "ascii ''mykey:'' = ascii ''my'' @ 107 # ascii ''ey:''"
  "0 \<notin> set (ascii ''my'')" "0 \<notin> set (ascii ''myid:'')" "0 \<notin> set (ascii ''mykey:'')"
  "10 \<notin> set (ascii ''myid:'')" "10 \<notin> set (ascii ''mykey:'')"
  "length (ascii ''myid:'') = 5" "length (ascii ''mykey:'') = 6"
  by (simp_all add: ascii_def)

text \<open>The first, the second and the last turn of the loop on a file with the two lines.\<close>

lemma id_line:
  assumes "length ident = IDSIZE" and "length old = IDSIZE" and "length hexbuf = 80"
  defines "line \<equiv> ascii ''myid:'' @ [32] @ hex_text ident"
  shows "config_loop hexbuf (line @ 10 # s) False ((g1, old), (g2, key)) =
    config_loop (blit hexbuf 0 (line @ [10, 0])) s False ((True, ident), (g2, key))"
proof -
  let ?b = "blit hexbuf 0 (line @ [10, 0])"
  have b: "?b = ascii ''myid:'' @ [32] @ hex_text ident @ [10, 0] @ drop 68 hexbuf"
    using assms(1) by (simp add: blit_def line_def token_split(8) IDSIZE_def)
  have "10 \<notin> set line" using hex_text_bytes token_split(6) by (auto simp: line_def is_space_def)
  moreover have "length line + 1 < 80" using assms(1) by (simp add: line_def token_split(8) IDSIZE_def)
  ultimately have f: "fgets hexbuf (line @ 10 # s) = (?b, s, False)" using assms(3) by (simp add: fgets_line)
  have i: "parse_config_digest (ascii ''myid:'') old IDSIZE ?b = Inr (0, ident)"
    unfolding b using assms(1,2) token_split(4) by (intro parse_line) (simp_all add: IDSIZE_def)
  have k: "parse_config_digest (ascii ''mykey:'') key KEYSIZE ?b = Inr (- 1, key)"
    unfolding b token_split(1,2) using parse_other [of 105 107 "ascii ''my''"] token_split(3) by simp
  show ?thesis using config_loop_step [OF _ f i k, of g1 g2] assms(3) by simp
qed

lemma key_line:
  assumes "length key = KEYSIZE" and "length old = KEYSIZE" and "length hexbuf = 80"
  defines "line \<equiv> ascii ''mykey:'' @ [32] @ hex_text key"
  shows "config_loop hexbuf (line @ [10]) False ((g1, ident), (g2, old)) = Inr ((g1, ident), (True, key))"
proof -
  let ?b = "blit hexbuf 0 (line @ [10, 0])"
  have b: "?b = ascii ''mykey:'' @ [32] @ hex_text key @ [10, 0] @ drop 33 hexbuf"
    using assms(1) by (simp add: blit_def line_def token_split(9) KEYSIZE_def)
  then have len: "length ?b = 80" using assms(1,3) by (simp add: token_split(9) KEYSIZE_def)
  have "10 \<notin> set line" using hex_text_bytes token_split(7) by (auto simp: line_def is_space_def)
  moreover have "length line + 1 < 80" using assms(1) by (simp add: line_def token_split(9) KEYSIZE_def)
  ultimately have f: "fgets hexbuf (line @ [10]) = (?b, [], False)" using assms(3) by (simp add: fgets_line)
  have key: "parse_config_digest (ascii ''mykey:'') k KEYSIZE ?b = Inr (0, key)" if "length k = KEYSIZE" for k
    unfolding b using assms(1) that token_split(5) by (intro parse_line) (simp_all add: KEYSIZE_def)
  have ident: "parse_config_digest (ascii ''myid:'') ident IDSIZE ?b = Inr (- 1, ident)"
    unfolding b token_split(1,2) using parse_other [of 107 105 "ascii ''my''"] token_split(3) by simp
  have "config_loop hexbuf (line @ [10]) False ((g1, ident), (g2, old)) =
      config_loop ?b [] False ((g1, ident), (True, key))"
    using config_loop_step [OF _ f ident key [OF assms(2)], of g1 g2] assms(3) by simp
  also have "\<dots> = config_loop ?b [] True ((g1, ident), (True, key))"
    using config_loop_step [OF _ fgets_end ident key [OF assms(1)], of g1 True] len by simp
  finally show ?thesis by (simp add: config_loop.simps)
qed

lemma write_config_text:
  assumes "length ident = IDSIZE" and "length key = KEYSIZE" and "length hexbuf = 80"
  shows "write_config hexbuf ident key =
    Inr ((ascii ''myid:'' @ [32] @ hex_text ident) @ 10 # (ascii ''mykey:'' @ [32] @ hex_text key) @ [10])"
proof -
  let ?b = "blit hexbuf 0 (hex_text ident @ [0])"
  have n: "0 \<notin> set (hex_text bs)" for bs using hex_text_bytes by blast
  have b: "length ?b = 80" using assms(1,3) by (simp add: IDSIZE_def)
  have c: "c_string (blit xs 0 (hex_text bs @ [0])) = hex_text bs" for xs bs
    using c_string_append [OF n] by (simp add: blit_def)
  have "hexencode ident (int IDSIZE) hexbuf (int (length hexbuf)) = Inr ?b"
    using hexencode_text [of ident hexbuf] assms by (simp add: IDSIZE_def)
  moreover have "hexencode key (int KEYSIZE) ?b (int (length ?b)) = Inr (blit ?b 0 (hex_text key @ [0]))"
    using hexencode_text [of key ?b] assms b by (simp add: KEYSIZE_def)
  ultimately show ?thesis by (simp add: write_config_def config_line_def c)
qed

section \<open>Properties\<close>

text \<open>
  C25. The identity a client makes up is the one it has after the next start: with no
  configuration file, \<open>btContext_create\<close> takes the new id and key and writes them to
  \<open>.libbtrc\<close>, and every later start from that disk, whatever random values it is offered, reads
  both back unchanged.
\<close>

theorem identity_persists:
  assumes "length newid = IDSIZE" and "length newkey = KEYSIZE"
    and "d_file (store ctx) rcfile = None" and "d_writable (store ctx) rc_name"
  shows "\<exists>ctx1. btContext_create ctx ulf rcfile newid newkey = Inr ctx1 \<and> myid ctx1 = newid \<and> mykey ctx1 = newkey \<and>
    (\<forall>ctx2 otherid otherkey. store ctx2 = store ctx1 \<longrightarrow>
       (\<exists>ctx3. btContext_create ctx2 ulf rc_name otherid otherkey = Inr ctx3 \<and> myid ctx3 = newid \<and> mykey ctx3 = newkey))"
proof -
  have len: "length (local_array c 80) = 80" for c by (simp add: local_array_def)
  define saved where "saved = (ascii ''myid:'' @ [32] @ hex_text newid) @ 10 # (ascii ''mykey:'' @ [32] @ hex_text newkey) @ [10]"
  have w: "write_config (local_array ctx 80) newid newkey = Inr saved"
    using write_config_text [OF assms(1,2) len] by (simp add: saved_def)
  have r: "config_loop (local_array c 80) saved False ((False, replicate IDSIZE 0), (False, replicate KEYSIZE 0)) =
      Inr ((True, newid), (True, newkey))" for c
    unfolding saved_def
    by (subst id_line, simp_all only: assms(1,2) len length_replicate, subst key_line)
      (simp_all add: assms(1,2) len token_split(8) IDSIZE_def)
  show ?thesis using assms(3,4) w r by (simp add: btContext_create_def Let_def)
qed

theorem identity_persists_witness:
  "\<exists>ctx1. btContext_create empty_ctx (1, 0) rc_name (replicate 20 7) (replicate 8 9) = Inr ctx1 \<and>
     myid ctx1 = replicate 20 7 \<and> mykey ctx1 = replicate 8 9 \<and>
     (\<forall>ctx2 otherid otherkey. store ctx2 = store ctx1 \<longrightarrow>
       (\<exists>ctx3. btContext_create ctx2 (1, 0) rc_name otherid otherkey = Inr ctx3 \<and>
          myid ctx3 = replicate 20 7 \<and> mykey ctx3 = replicate 8 9))"
  by (rule identity_persists) (simp_all add: IDSIZE_def KEYSIZE_def empty_ctx_def)

end
