(* ===== verification/Bt_Tracker.thy ===== *)
theory Bt_Tracker
  imports Bt_Config Bt_Benc
begin

text \<open>
  The tracker part of \<open>context.c\<close>: the announce request, the peers in the answer, and the events
  of a download. The transfer itself is libcurl's and the look-up of names the C library's; both
  are arguments of the model.
\<close>

section \<open>The world outside\<close>

text \<open>
  \<open>fetch\<close> gives for a URL the chunks libcurl hands to \<open>writebts\<close>, or \<open>None\<close> when the transfer fails.
  \<open>resolve\<close> is \<open>getaddrinfo\<close>: the four bytes of the first address of a name. \<open>dial\<close> gives for each
  call of \<open>peer_add\<close> in turn the address of the new peer and the answers of the kernel. \<open>behind\<close> are
  the bytes that lie behind the empty string literal in memory; in standard C there are none that
  may be read.
\<close>

record outside =
  fetch :: "byte list \<Rightarrow> byte list list option"
  resolve :: "byte list \<Rightarrow> byte list option"
  dial :: "nat \<Rightarrow> addr \<times> dialled"
  behind :: "byte list"

definition EAGAIN_result :: int where "EAGAIN_result = - EAGAIN"

section \<open>The request\<close>

text \<open>\<open>buf\<close> is the fresh allocation.\<close>

definition hexdigest :: "byte list \<Rightarrow> nat \<Rightarrow> fault + byte list" where
  "hexdigest digest len =
     for_loop 0 len
       (\<lambda>i buf. bindR (arr_get digest (int i)) (\<lambda>b.
          if 3 * i + 4 \<le> length buf then Inr (blit buf (3 * i) (percent b @ [0])) else Inl Oob))
       (replicate (3 * len + 1) 0)"

text \<open>\<open>snprintf(url, sizeof(url)-1, ...)\<close>; the strings are cut at their NUL and the text at 1022 bytes.\<close>

definition announce_text ::
    "byte list \<Rightarrow> byte list \<Rightarrow> byte list \<Rightarrow> byte list \<Rightarrow> int \<Rightarrow> int \<Rightarrow> int \<Rightarrow> int \<Rightarrow> byte list option \<Rightarrow> byte list" where
  "announce_text announce dgurl idurl keyurl port uploaded downloaded left_over event =
     c_string announce @ ascii ''?info_hash='' @ c_string dgurl @ ascii ''&peer_id='' @ c_string idurl @
     ascii ''&key='' @ c_string keyurl @ ascii ''&port='' @ dec_int port @
     ascii ''&uploaded='' @ dec_int uploaded @ ascii ''&downloaded='' @ dec_int downloaded @
     ascii ''&left='' @ dec_int left_over @
     (case event of None \<Rightarrow> [] | Some e \<Rightarrow> ascii ''&event='' @ e) @ ascii ''&compact=1''"

definition URL_SIZE :: nat where "URL_SIZE = 1024"

text \<open>Chunk after chunk; libcurl stops when \<open>writebts\<close> takes less than it was given.\<close>

fun curl_write :: "btStream \<Rightarrow> byte list list \<Rightarrow> fault + bool \<times> btStream" where
  "curl_write io [] = Inr (True, io)"
| "curl_write io (c # cs) =
     bindR (writebts c 1 (int (length c)) io) (\<lambda>(n, io).
       if n \<noteq> int (length c) then Inr (False, io) else curl_write io cs)"

text \<open>\<open>curl_easy_perform\<close> into a memory stream that is then rewound; \<open>None\<close> when the transfer failed.\<close>

definition download_into :: "outside \<Rightarrow> byte list \<Rightarrow> fault + bool \<times> btStream" where
  "download_into env link =
     (let io = bts_create_strstream BTS_OUTPUT
      in case fetch env link of None \<Rightarrow> Inr (False, io) | Some cs \<Rightarrow> curl_write io cs)"

definition btrequest ::
    "outside \<Rightarrow> byte list \<Rightarrow> byte list \<Rightarrow> byte list \<Rightarrow> byte list \<Rightarrow> int \<Rightarrow> int \<Rightarrow> int \<Rightarrow> int \<Rightarrow> byte list option \<Rightarrow>
     fault + btObject option" where
  "btrequest env announce ident key digest port downloaded uploaded left_over event =
     bindR (hexdigest digest SHA_DIGEST_LENGTH) (\<lambda>dgurl.
     bindR (hexdigest ident IDSIZE) (\<lambda>idurl.
     bindR (hexdigest key KEYSIZE) (\<lambda>keyurl.
     let link = take (URL_SIZE - 2)
           (announce_text announce dgurl idurl keyurl port uploaded downloaded left_over event)
     in bindR (download_into env link) (\<lambda>(ok, io).
        if \<not> ok then Inr None
        else case bts_rewind io BTS_INPUT of (r, io) \<Rightarrow>
          if r \<noteq> 0 then Inl Abort
          else bindR (benc_get_object io) (\<lambda>(res, _). case res of
                 Inl _ \<Rightarrow> Inl Abort
               | Inr ob \<Rightarrow> Inr (Some ob))))))"

section \<open>The answer\<close>

text \<open>\<open>memcmp\<close> of twenty bytes with memory that may be shorter.\<close>

definition same_id :: "byte list \<Rightarrow> byte list \<Rightarrow> fault + bool" where
  "same_id ident mem = (if length mem < IDSIZE then Inl Oob else Inr (ident = take IDSIZE mem))"

text \<open>The two loops that look for a peer that is already known.\<close>

definition known_peer :: "btContext \<Rightarrow> int \<Rightarrow> (btPeer \<Rightarrow> fault + bool) \<Rightarrow> fault + bool" where
  "known_peer ctx dlid test =
     bindR (get_dl ctx dlid) (\<lambda>d.
     let ps = peerset d in
     bindR (find_loop 0 (nat (ps_len ps))
       (\<lambda>j. bindR (arr_get (ps_peer ps) (int j)) (\<lambda>a. bindR (deref a) (\<lambda>a.
          bindR (get_peer ctx a) test)))) (\<lambda>r. Inr (r \<noteq> None)))"

text \<open>
  The address of a peer is read as a \<open>sockaddr_in\<close>: its family are the first two bytes of the IP
  address, its address the four bytes of the port that follows in the structure (little-endian).
\<close>

definition looks_like :: "byte list \<Rightarrow> btPeer \<Rightarrow> fault + bool" where
  "looks_like ip p = Inr (take 2 (p_ip p) = [2, 0] \<and> rev (be32 (p_port p)) = ip)"

definition call_peer ::
    "outside \<Rightarrow> btContext \<Rightarrow> nat \<Rightarrow> int \<Rightarrow> byte list \<Rightarrow> byte list \<Rightarrow> int \<Rightarrow> fault + btContext \<times> nat" where
  "call_peer env ctx n dlid ident ip port =
     bindR (peer_add ctx dlid ident ip port (fst (dial env n)) (snd (dial env n))) (\<lambda>(_, ctx). Inr (ctx, n + 1))"

text \<open>A string of an object under a name; the name may be missing.\<close>

definition val_string :: "btObject \<Rightarrow> byte list \<Rightarrow> fault + byte list option" where
  "val_string ob name = bindR (btObject_val (Some ob) name) btString_cast"

definition val_integer :: "btObject \<Rightarrow> byte list \<Rightarrow> fault + int option" where
  "val_integer ob name = bindR (btObject_val (Some ob) name) (\<lambda>x. Inr (btInteger_cast x))"

text \<open>Using a pointer that may be \<open>NULL\<close>.\<close>

definition the_ptr :: "'a option \<Rightarrow> fault + 'a" where
  "the_ptr x = (case x of None \<Rightarrow> Inl Oob | Some v \<Rightarrow> Inr v)"

definition listed_peer :: "outside \<Rightarrow> int \<Rightarrow> btObject \<Rightarrow> btContext \<times> nat \<Rightarrow> fault + btContext \<times> nat" where
  "listed_peer env dlid ob = (\<lambda>(ctx, n).
     bindR (val_string ob (ascii ''peer id'')) (\<lambda>peerid.
     bindR (val_string ob (ascii ''ip'')) (\<lambda>ip.
     bindR (val_integer ob (ascii ''port'')) (\<lambda>port.
     bindR (the_ptr port) (\<lambda>port. bindR (the_ptr peerid) (\<lambda>peerid.
     let mem = peerid @ [0] in
     bindR (same_id (myid ctx) mem) (\<lambda>myself.
     if myself then bindR (the_ptr ip) (\<lambda>_. Inr (ctx, n))
     else
       bindR (known_peer ctx dlid (\<lambda>p. same_id (p_id p) mem)) (\<lambda>skip.
       if skip then Inr (ctx, n)
       else
         bindR (the_ptr ip) (\<lambda>ip.
         case resolve env (c_string ip) of
           None \<Rightarrow> Inr (ctx, n)
         | Some addr \<Rightarrow> call_peer env ctx n dlid mem addr (to_int32 port))))))))))"

fun listed_peers :: "outside \<Rightarrow> int \<Rightarrow> btObject list \<Rightarrow> btContext \<times> nat \<Rightarrow> fault + btContext \<times> nat" where
  "listed_peers env dlid [] s = Inr s"
| "listed_peers env dlid (ob # obs) s = bindR (listed_peer env dlid ob s) (listed_peers env dlid obs)"

text \<open>The compact form: six bytes for each peer.\<close>

function compact_peers :: "outside \<Rightarrow> int \<Rightarrow> byte list \<Rightarrow> btContext \<times> nat \<Rightarrow> fault + btContext \<times> nat" where
  "compact_peers env dlid bs s =
     (if length bs < 6 then Inr s
      else
        let ip = take 4 bs; port = uint (bs ! 4) * 256 + uint (bs ! 5) in
        case s of (ctx, n) \<Rightarrow>
        bindR (known_peer ctx dlid (looks_like ip)) (\<lambda>skip.
        bindR (if skip then Inr (ctx, n) else call_peer env ctx n dlid (0 # behind env) ip port) (\<lambda>s.
        compact_peers env dlid (drop 6 bs) s)))"
  by pat_completeness auto
termination
  by (relation "measure (\<lambda>(env, dlid, bs, s). length bs)") auto

declare compact_peers.simps [simp del]

definition btresponse :: "outside \<Rightarrow> btContext \<Rightarrow> int \<Rightarrow> btObject \<Rightarrow> fault + int \<times> btContext" where
  "btresponse env ctx dlid resp =
     bindR (get_dl ctx dlid) (\<lambda>d.
     bindR (val_string resp (ascii ''failure reason'')) (\<lambda>err.
     if err \<noteq> None then Inr (- 1, ctx)
     else
       bindR (val_integer resp (ascii ''interval'')) (\<lambda>interval.
       bindR (the_ptr interval) (\<lambda>interval.
       let ctx = put_dl ctx dlid (d\<lparr>reregister_interval := to_int32 interval\<rparr>) in
       bindR (btObject_val (Some resp) (ascii ''peers'')) (\<lambda>peersgen.
       bindR (the_ptr peersgen) (\<lambda>peersgen.
       bindR (case peersgen of
                BT_LIST obs \<Rightarrow> listed_peers env dlid obs (ctx, 0)
              | BT_STRING bs \<Rightarrow> compact_peers env dlid bs (ctx, 0)
              | _ \<Rightarrow> Inr (ctx, 0)) (\<lambda>(ctx, _). Inr (0, ctx))))))))"

section \<open>Telling the tracker\<close>

text \<open>\<open>ul * ulfactor\<close> is computed in \<open>float\<close> and truncated.\<close>

definition exaggerate :: "int \<Rightarrow> nat \<times> nat \<Rightarrow> int" where
  "exaggerate n f = (case f of (m, k) \<Rightarrow> int (round_bits 24 (round_bits 24 (nat n) * m) div 2 ^ k))"

text \<open>The request of a download with an event, as the four functions below make it.\<close>

definition send_announce :: "outside \<Rightarrow> btContext \<Rightarrow> btDownload \<Rightarrow> byte list option \<Rightarrow> fault + btObject option" where
  "send_announce env ctx d event =
     btrequest env (url d) (myid ctx) (mykey ctx) (infohash d) (listenport ctx)
       (dl (fileset d)) (exaggerate (ul (fileset d)) (ulfactor ctx)) (left (fileset d)) event"

definition ctx_register :: "outside \<Rightarrow> btContext \<Rightarrow> int \<Rightarrow> fault + int \<times> btContext" where
  "ctx_register env ctx dlid =
     bindR (get_dl ctx dlid) (\<lambda>d.
     bindR (send_announce env ctx d (Some (ascii ''started''))) (\<lambda>resp. case resp of
       None \<Rightarrow> Inr (EAGAIN_result, ctx)
     | Some ob \<Rightarrow> bindR (btresponse env ctx dlid ob) (\<lambda>(_, ctx). Inr (0, ctx))))"

definition ctx_reregister :: "outside \<Rightarrow> btContext \<Rightarrow> int \<Rightarrow> fault + int \<times> btContext" where
  "ctx_reregister env ctx dlid =
     bindR (get_dl ctx dlid) (\<lambda>d.
     bindR (send_announce env ctx d None) (\<lambda>resp. case resp of
       None \<Rightarrow> Inr (EAGAIN_result, ctx)
     | Some ob \<Rightarrow> bindR (btresponse env ctx dlid ob) (\<lambda>(_, ctx). Inr (0, ctx))))"

definition ctx_shutdown :: "outside \<Rightarrow> btContext \<Rightarrow> int \<Rightarrow> fault + int" where
  "ctx_shutdown env ctx dlid =
     bindR (get_dl ctx dlid) (\<lambda>d.
     bindR (send_announce env ctx d (Some (ascii ''stopped''))) (\<lambda>resp. case resp of
       None \<Rightarrow> Inr (- 1)
     | Some ob \<Rightarrow> bindR (val_string ob (ascii ''failure reason'')) (\<lambda>err.
         Inr (if err \<noteq> None then - 1 else 0))))"

definition ctx_complete :: "outside \<Rightarrow> btContext \<Rightarrow> int \<Rightarrow> fault + int \<times> btContext" where
  "ctx_complete env ctx dlid =
     bindR (get_dl ctx dlid) (\<lambda>d.
     let d = d\<lparr>dl_complete := True\<rparr>; ctx = put_dl ctx dlid d in
     if dl (fileset d) = 0 then Inr (0, ctx)
     else
       bindR (send_announce env ctx d (Some (ascii ''completed''))) (\<lambda>resp. case resp of
         None \<Rightarrow> Inr (EAGAIN_result, ctx)
       | Some ob \<Rightarrow> bindR (val_string ob (ascii ''failure reason'')) (\<lambda>err.
           Inr (if err \<noteq> None then - 1 else 0, ctx))))"

section \<open>Closing downloads\<close>

text \<open>Every peer of the download is shut down and freed; the slot of the download becomes free.\<close>

definition close_peer :: "int \<Rightarrow> nat \<Rightarrow> btContext \<Rightarrow> fault + btContext" where
  "close_peer dlid i ctx =
     bindR (get_dl ctx dlid) (\<lambda>d.
     bindR (arr_get (ps_peer (peerset d)) (int i)) (\<lambda>a. case a of
       None \<Rightarrow> Inr ctx
     | Some a \<Rightarrow>
         bindR (peer_shutdown ctx a (ascii ''exiting'')) (\<lambda>ctx.
         bindR (get_dl ctx dlid) (\<lambda>d.
         bindR (arr_set (ps_peer (peerset d)) (int i) None) (\<lambda>ps.
         Inr ((put_dl ctx dlid (d\<lparr>peerset := (peerset d)\<lparr>ps_peer := ps\<rparr>\<rparr>))
           \<lparr>peers := (peers ctx)(a := None)\<rparr>))))))"

definition ctx_closedownload :: "btContext \<Rightarrow> int \<Rightarrow> fault + btContext" where
  "ctx_closedownload ctx dlid =
     bindR (get_dl ctx dlid) (\<lambda>d.
     bindR (for_loop 0 (nat (ps_len (peerset d))) (close_peer dlid) ctx) (\<lambda>ctx.
     bindR (arr_set (downloads ctx) dlid None) (\<lambda>ds. Inr (ctx\<lparr>downloads := ds\<rparr>))))"

definition btContext_destroy :: "btContext \<Rightarrow> fault + btContext" where
  "btContext_destroy ctx =
     bindR (for_loop 0 (length (downloads ctx))
       (\<lambda>i ctx. bindR (arr_get (downloads ctx) (int i)) (\<lambda>d. case d of
          None \<Rightarrow> Inr ctx
        | Some _ \<Rightarrow> ctx_closedownload ctx (int i))) ctx) (\<lambda>ctx. Inr (ctx\<lparr>downloads := []\<rparr>))"

text \<open>The loop counts down; the answers of the tracker are not looked at.\<close>

primrec shutdown_loop :: "outside \<Rightarrow> btContext \<Rightarrow> nat \<Rightarrow> fault + unit" where
  "shutdown_loop env ctx 0 = Inr ()"
| "shutdown_loop env ctx (Suc i) = bindR (ctx_shutdown env ctx (int i)) (\<lambda>_. shutdown_loop env ctx i)"

definition ctx_exit :: "outside \<Rightarrow> btContext \<Rightarrow> fault + btContext" where
  "ctx_exit env ctx =
     bindR (shutdown_loop env ctx (length (downloads ctx))) (\<lambda>_. btContext_destroy ctx)"

end
