(* ===== verification/Bt_Load.thy ===== *)
theory Bt_Load
  imports Bt_Tracker Bt_Strbuf
begin

text \<open>
  \<open>ctx_loadfile\<close> of \<open>context.c\<close>: a metadata file becomes a download, with its files laid out and the
  pieces that are on the disk already found. The theory shows that the invariants the protocol
  relies on hold from the beginning.
\<close>

section \<open>The files of the torrent\<close>

definition SHA_LEN :: nat where "SHA_LEN = 20"

text \<open>The first of two names that is there, as the source writes it with \<open>x||(x=...)\<close>.\<close>

definition val_string_or :: "btObject \<Rightarrow> byte list \<Rightarrow> byte list \<Rightarrow> fault + byte list option" where
  "val_string_or ob n1 n2 =
     bindR (val_string ob n1) (\<lambda>x. if x \<noteq> None then Inr x else val_string ob n2)"

definition val_list :: "btObject \<Rightarrow> byte list \<Rightarrow> fault + btObject list option" where
  "val_list ob name = bindR (btObject_val (Some ob) name) btList_cast"

definition val_list_or :: "btObject \<Rightarrow> byte list \<Rightarrow> byte list \<Rightarrow> fault + btObject list option" where
  "val_list_or ob n1 n2 = bindR (val_list ob n1) (\<lambda>x. if x \<noteq> None then Inr x else val_list ob n2)"

fun cat_elements :: "btObject list \<Rightarrow> kStringBuffer \<Rightarrow> fault + kStringBuffer" where
  "cat_elements [] path = Inr path"
| "cat_elements (x # xs) path =
     bindR (btString_cast (Some x)) (\<lambda>el. bindR (the_ptr el) (\<lambda>el.
     bindR (sbputc path 47) (\<lambda>path.
     bindR (sbcat path el (int (length el))) (cat_elements xs))))"

text \<open>One turn of the loop over the files of a directory; \<open>strdup\<close> stops at a NUL.\<close>

definition add_listed_file :: "byte list option \<Rightarrow> btObject \<Rightarrow> btFileSet \<Rightarrow> fault + btFileSet" where
  "add_listed_file dir f fs =
     bindR (val_integer f (ascii ''length'')) (\<lambda>fsize. bindR (the_ptr fsize) (\<lambda>fsize.
     let fs = fs\<lparr>tsize := tsize fs + fsize\<rparr> in
     bindR (the_ptr dir) (\<lambda>dir.
     bindR (sbcat kStringBuffer_create dir (int (length dir))) (\<lambda>path.
     bindR (val_list_or f (ascii ''path.utf-8'') (ascii ''path'')) (\<lambda>filepath.
     bindR (the_ptr filepath) (\<lambda>filepath.
     bindR (cat_elements filepath path) (\<lambda>path.
     Inr (btFileSet_addfile fs (c_string (sb_buf path)) fsize))))))))"

fun add_listed_files :: "byte list option \<Rightarrow> btObject list \<Rightarrow> btFileSet \<Rightarrow> fault + btFileSet" where
  "add_listed_files dir [] fs = Inr fs"
| "add_listed_files dir (f # files) fs = bindR (add_listed_file dir f fs) (add_listed_files dir files)"

definition add_files :: "btObject \<Rightarrow> int option \<Rightarrow> btFileSet \<Rightarrow> fault + btFileSet" where
  "add_files meta flen fs =
     (case flen of
        Some len \<Rightarrow>
          bindR (val_string_or meta (ascii ''info/name.utf-8'') (ascii ''info/name'')) (\<lambda>file.
          bindR (the_ptr file) (\<lambda>file.
          Inr (btFileSet_addfile (fs\<lparr>tsize := len\<rparr>) (c_string file) len)))
      | None \<Rightarrow>
          bindR (val_string_or meta (ascii ''info/name.utf-8'') (ascii ''info/name'')) (\<lambda>dir.
          bindR (val_list meta (ascii ''info/files'')) (\<lambda>files. case files of
            None \<Rightarrow> Inl Abort
          | Some files \<Rightarrow> add_listed_files dir files fs)))"

section \<open>What is on the disk already\<close>

text \<open>
  \<open>enoent i\<close> says whether \<open>errno\<close> is \<open>ENOENT\<close> when the review of piece \<open>i\<close> has failed: a short read
  leaves \<open>errno\<close> as some earlier call set it. The missing file is then passed over.
\<close>

definition review_piece :: "disk \<Rightarrow> bool \<Rightarrow> btFileSet \<Rightarrow> nat \<Rightarrow> fault + int \<times> btFileSet" where
  "review_piece dsk assumeok fs i =
     (if assumeok then bindR (bs_set (completed fs) (int i)) (\<lambda>c. Inr (1, fs\<lparr>completed := c\<rparr>))
      else seg_review fs dsk (int i))"

definition skip_missing :: "btFileSet \<Rightarrow> nat \<Rightarrow> fault + nat" where
  "skip_missing fs i =
     bindR (seg_findFile fs (int i)) (\<lambda>f.
       if blocksize fs = 0 then Inl Oob
       else
         let ni = to_int32 (c_div (bf_start f + bf_len f) (blocksize fs))
         in Inr (if ni > int i then nat ni else i))"

lemma skip_missing_forward: "skip_missing fs i = Inr j \<Longrightarrow> i \<le> j"
  by (auto simp: skip_missing_def bindR_Inr_iff Let_def split: if_splits)

type_synonym loading = "btFileSet \<times> kBitSet \<times> kBitSet"

text \<open>The loop over the pieces: the file set, \<open>requested\<close> and \<open>interested\<close>.\<close>

function review_loop :: "disk \<Rightarrow> bool \<Rightarrow> (nat \<Rightarrow> bool) \<Rightarrow> nat \<Rightarrow> nat \<Rightarrow> loading \<Rightarrow> fault + loading" where
  "review_loop dsk assumeok enoent n i (fs, req, want) =
     (if i < n then
        bindR (review_piece dsk assumeok fs i) (\<lambda>(ok, fs).
        if ok < 0 then
          bindR (if enoent i then skip_missing fs i else Inr i) (\<lambda>j.
          review_loop dsk assumeok enoent n (Suc j) (fs, req, want))
        else if ok \<noteq> 0 then
          bindR (seg_piecelen fs (int i)) (\<lambda>len.
          bindR (bs_set req (int i)) (\<lambda>req.
          bindR (bs_clr want (int i)) (\<lambda>want.
          review_loop dsk assumeok enoent n (Suc i) (fs\<lparr>left := left fs - len\<rparr>, req, want))))
        else review_loop dsk assumeok enoent n (Suc i) (fs, req, want))
      else Inr (fs, req, want))"
  by pat_completeness auto
termination
  by (relation "measure (\<lambda>(dsk, assumeok, enoent, n, i, s). n - i)")
    (auto dest!: skip_missing_forward split: if_splits)

declare review_loop.simps [simp del]

section \<open>Loading\<close>

definition EINVAL :: int where "EINVAL = 22"

definition fileset_zero :: btFileSet where
  "fileset_zero = \<lparr>tsize = 0, ul = 0, dl = 0, left = 0, completed = \<lparr>nbits = 0, bits = []\<rparr>, blocksize = 0,
     fs_file = [], npieces = 0, hashes = [], partial = []\<rparr>"

text \<open>The first free slot, or the number of downloads.\<close>

fun free_slot :: "btDownload option list \<Rightarrow> nat" where
  "free_slot [] = 0"
| "free_slot (None # ds) = 0"
| "free_slot (Some d # ds) = Suc (free_slot ds)"

definition info_hash :: "btObject \<Rightarrow> fault + byte list" where
  "info_hash meta =
     bindR (btObject_val (Some meta) (ascii ''info'')) (\<lambda>info. bindR (the_ptr info) (\<lambda>info.
     bindR (benc_put_object (bts_create_strstream BTS_OUTPUT) info) (\<lambda>(_, infostr).
     Inr (SHA1 (replicate 64 0) (bts_get_buf infostr)))))"

text \<open>The file set before the review, and the number of pieces.\<close>

definition load_fileset :: "btObject \<Rightarrow> fault + btFileSet \<times> nat" where
  "load_fileset meta =
     bindR (val_integer meta (ascii ''info/length'')) (\<lambda>flen.
     bindR (val_string meta (ascii ''info/pieces'')) (\<lambda>hashdata.
     bindR (val_integer meta (ascii ''info/piece length'')) (\<lambda>piecelen.
     bindR (the_ptr hashdata) (\<lambda>hashdata. bindR (the_ptr piecelen) (\<lambda>piecelen.
     let n = length hashdata div SHA_LEN in
     bindR (btFileSet_create fileset_zero n (to_int32 piecelen) hashdata) (\<lambda>fs.
     bindR (add_files meta flen fs) (\<lambda>fs. Inr (fs\<lparr>left := tsize fs\<rparr>, n))))))))"

definition load_download :: "btObject \<Rightarrow> disk \<Rightarrow> bool \<Rightarrow> (nat \<Rightarrow> bool) \<Rightarrow> fault + btDownload" where
  "load_download meta dsk assumeok enoent =
     bindR (info_hash meta) (\<lambda>hash.
     bindR (val_string meta (ascii ''announce'')) (\<lambda>ann. case ann of
       None \<Rightarrow> Inl Abort
     | Some ann \<Rightarrow>
         bindR (load_fileset meta) (\<lambda>(fs, n).
         bindR (for_loop 0 n (\<lambda>i want. bs_set want (int i)) (kBitSet_create n)) (\<lambda>want.
         bindR (review_loop dsk assumeok enoent n 0 (fs, kBitSet_create n, want)) (\<lambda>(fs, req, want).
         if n = 0 then Inl Oob
         else Inr \<lparr>md = Some meta, url = ann @ [0], infohash = hash, requested = req, wanted = want, fileset = fs,
                reregister_interval = 0, peerset = btPeerset_create, dl_complete = False\<rparr>)))))"

text \<open>
  \<open>wild\<close> is what an uninitialised entry of the enlarged array points to; a load that fails
  leaves it there. The percentage printed at the end divides by the number of pieces.
\<close>

definition ctx_loadfile ::
    "btStream \<Rightarrow> btContext \<Rightarrow> bool \<Rightarrow> (nat \<Rightarrow> bool) \<Rightarrow> btDownload option \<Rightarrow> fault + int \<times> btContext" where
  "ctx_loadfile bts ctx assumeok enoent wild =
     (let dlid = free_slot (downloads ctx);
          ctx = (if dlid = length (downloads ctx) then ctx\<lparr>downloads := downloads ctx @ [wild]\<rparr> else ctx)
      in bindR (benc_get_object bts) (\<lambda>(r, _). case r of
           Inl _ \<Rightarrow> Inr (- EINVAL, ctx)
         | Inr meta \<Rightarrow>
             bindR (load_download meta (store ctx) assumeok enoent) (\<lambda>d.
             bindR (arr_set (downloads ctx) (int dlid) (Some d)) (\<lambda>ds.
             Inr (int dlid, ctx\<lparr>downloads := ds\<rparr>)))))"

text \<open>Fetching the metadata by URL: the program exits when that fails.\<close>

definition fetchtorrent :: "outside \<Rightarrow> byte list \<Rightarrow> fault + btStream option" where
  "fetchtorrent env link =
     bindR (download_into env link) (\<lambda>(ok, io). Inr (if ok then Some io else None))"

section \<open>What a loaded download is like\<close>

text \<open>The count of what is left is not looked at by the invariants of the store.\<close>

lemma left_update [simp]:
  "layout_ok (fs\<lparr>left := x\<rparr>) = layout_ok fs" "plen (fs\<lparr>left := x\<rparr>) = plen fs"
  "in_range (fs\<lparr>left := x\<rparr>) = in_range fs" "stored (fs\<lparr>left := x\<rparr>) = stored fs"
  "piece_hash (fs\<lparr>left := x\<rparr>) = piece_hash fs" "piece_data (fs\<lparr>left := x\<rparr>) = piece_data fs"
  "fs_ok (fs\<lparr>left := x\<rparr>) = fs_ok fs" "verified (fs\<lparr>left := x\<rparr>) = verified fs"
  using counter_update [where fs = fs and x = "dl fs" and y = x] verified_update(2) [where fs = fs and x = "dl fs" and y = x]
  by (simp_all add: fs_ok_def)

text \<open>A piece that is on the disk as announced.\<close>

definition on_disk :: "btFileSet \<Rightarrow> disk \<Rightarrow> nat \<Rightarrow> bool" where
  "on_disk fs dsk k \<longleftrightarrow> stored fs dsk (int k * blocksize fs) (plen fs (int k)) \<and>
     sha1_spec (piece_data fs dsk (int k)) = piece_hash fs (int k)"

lemma on_disk_update: "fs\<lparr>completed := c, left := l\<rparr> = fs0 \<Longrightarrow> on_disk fs0 = on_disk fs"
  by (auto simp: on_disk_def fun_eq_iff)

text \<open>
  Before piece \<open>i\<close> is reviewed: the three bit sets agree, the bytes of the pieces found are counted,
  and when no file was passed over every piece on the disk is found.
\<close>

fun reviewed :: "disk \<Rightarrow> (nat \<Rightarrow> bool) \<Rightarrow> nat \<Rightarrow> btFileSet \<Rightarrow> nat \<Rightarrow> loading \<Rightarrow> bool" where
  "reviewed dsk enoent n fs0 i (fs, req, want) \<longleftrightarrow>
     fs_ok fs \<and> verified fs dsk \<and> nat (npieces fs) = n \<and> fs\<lparr>completed := completed fs0, left := left fs0\<rparr> = fs0 \<and>
     bs_elems (completed fs) \<subseteq> {..<i} \<and>
     bs_wf req \<and> nbits req = n \<and> bs_elems req = bs_elems (completed fs) \<and>
     bs_wf want \<and> nbits want = n \<and> bs_elems want = {..<n} - bs_elems (completed fs) \<and>
     left fs = tsize fs - (\<Sum>k \<in> bs_elems (completed fs). plen fs (int k)) \<and>
     ((\<forall>k. \<not> enoent k) \<longrightarrow> (\<forall>k < min i n. on_disk fs0 dsk k \<longrightarrow> k \<in> bs_elems (completed fs)))"

lemma reviewed_later:
  assumes "reviewed dsk enoent n fs0 i (fs, req, want)" and "i \<le> j" and "enoent k \<or> j = Suc i \<and> \<not> on_disk fs0 dsk i"
  shows "reviewed dsk enoent n fs0 j (fs, req, want)"
proof -
  have "bs_elems (completed fs) \<subseteq> {..<j}" using assms(1,2) by auto
  then show ?thesis using assms by (auto simp: less_Suc_eq_le order_le_less)
qed

text \<open>One piece that is found, and one that is not.\<close>

lemma review_one:
  assumes inv: "reviewed dsk enoent n fs0 i (fs, req, want)" and i: "i < n"
  shows "\<exists>r c. seg_review fs dsk (int i) = Inr (r, fs\<lparr>completed := c\<rparr>) \<and> (r = 1 \<longleftrightarrow> on_disk fs0 dsk i) \<and>
    r \<in> {- 1, 0, 1} \<and> bs_elems c = (if r = 1 then insert i (bs_elems (completed fs)) else bs_elems (completed fs)) \<and>
    fs_ok (fs\<lparr>completed := c\<rparr>) \<and> verified (fs\<lparr>completed := c\<rparr>) dsk"
proof -
  have ok: "fs_ok fs" "verified fs dsk" "nat (npieces fs) = n" using inv by simp_all
  have rng: "in_range fs (int i)" using ok(3) i by (simp add: in_range_def)
  obtain r c where r: "seg_review fs dsk (int i) = Inr (r, fs\<lparr>completed := c\<rparr>)" "r = 1 \<longleftrightarrow> on_disk fs dsk i" "r \<in> {- 1, 0, 1}"
    "bs_elems c = (if on_disk fs dsk i then insert i (bs_elems (completed fs)) else bs_elems (completed fs) - {i})"
    using seg_review_ok [OF ok(1) rng, of dsk, folded on_disk_def] unfolding nat_int by blast
  have "fs\<lparr>completed := completed fs0, left := left fs0\<rparr> = fs0" using inv by simp
  then have "on_disk fs dsk i = on_disk fs0 dsk i" using on_disk_update by metis
  moreover have "i \<notin> bs_elems (completed fs)" using inv by auto
  ultimately show ?thesis using r seg_review_keeps [OF ok(1) r(1)] ok(2) by (intro exI [of _ r] exI [of _ c]) auto
qed

lemma reviewed_found:
  assumes inv: "reviewed dsk enoent n fs0 i (fs, req, want)" and i: "i < n"
    and c: "bs_elems c = insert i (bs_elems (completed fs))" "fs_ok (fs\<lparr>completed := c\<rparr>)" "verified (fs\<lparr>completed := c\<rparr>) dsk"
  shows "\<exists>len req' want'. seg_piecelen (fs\<lparr>completed := c\<rparr>) (int i) = Inr len \<and> bs_set req (int i) = Inr req' \<and>
    bs_clr want (int i) = Inr want' \<and>
    reviewed dsk enoent n fs0 (Suc i) (fs\<lparr>completed := c, left := left fs - len\<rparr>, req', want')"
proof -
  let ?fs = "fs\<lparr>completed := c\<rparr>"
  have rng: "in_range ?fs (int i)" "layout_ok ?fs" using inv c(2) i by (auto simp: in_range_def fs_ok_def)
  obtain req' where r: "bs_set req (int i) = Inr req'" "bs_wf req'" "nbits req' = n" "bs_elems req' = insert i (bs_elems req)"
    using bs_set_spec [of req i] inv i by auto
  obtain want' where w: "bs_clr want (int i) = Inr want'" "bs_wf want'" "nbits want' = n" "bs_elems want' = bs_elems want - {i}"
    using bs_clr_spec [of want i] inv i by auto
  have "i \<notin> bs_elems (completed fs)" using inv by auto
  then have total: "(\<Sum>k \<in> bs_elems c. plen fs (int k)) = plen fs (int i) + (\<Sum>k \<in> bs_elems (completed fs). plen fs (int k))"
    using c(1) by simp
  have "bs_elems c \<subseteq> {..<Suc i}" using inv c(1) by (auto simp: less_Suc_eq)
  moreover have "\<forall>k < min (Suc i) n. on_disk fs0 dsk k \<longrightarrow> k \<in> bs_elems c" if "\<forall>k. \<not> enoent k"
    using inv that c(1) by (auto simp: less_Suc_eq)
  ultimately have "reviewed dsk enoent n fs0 (Suc i) (fs\<lparr>completed := c, left := left fs - plen fs (int i)\<rparr>, req', want')"
    using inv r w c total by auto
  then show ?thesis using r(1) w(1) seg_piecelen_ok [OF rng(2,1)] by auto
qed

lemma review_loop_reviewed:
  assumes "reviewed dsk enoent n fs0 i s"
  shows "holds (\<lambda>s. \<exists>j. n \<le> j \<and> reviewed dsk enoent n fs0 j s) (review_loop dsk False enoent n i s)"
  using assms
proof (induction "n - i" arbitrary: i s rule: less_induct)
  case less
  obtain fs req want where s: "s = (fs, req, want)" by (cases s)
  note inv = less.prems [unfolded s]
  show ?case
  proof (cases "i < n")
    case False
    then have "review_loop dsk False enoent n i s = Inr s" unfolding s by (subst review_loop.simps) simp
    then show ?thesis using less.prems False by (simp del: reviewed.simps) (meson linorder_not_less)
  next
    case True
    obtain r c where r: "seg_review fs dsk (int i) = Inr (r, fs\<lparr>completed := c\<rparr>)" "r = 1 \<longleftrightarrow> on_disk fs0 dsk i" "r \<in> {- 1, 0, 1}"
      "bs_elems c = (if r = 1 then insert i (bs_elems (completed fs)) else bs_elems (completed fs))"
      "fs_ok (fs\<lparr>completed := c\<rparr>)" "verified (fs\<lparr>completed := c\<rparr>) dsk"
      using review_one [OF inv True] by blast
    show ?thesis
    proof (cases "r = 1")
      case found: True
      obtain len req' want' where f: "seg_piecelen (fs\<lparr>completed := c\<rparr>) (int i) = Inr len" "bs_set req (int i) = Inr req'"
        "bs_clr want (int i) = Inr want'"
        "reviewed dsk enoent n fs0 (Suc i) (fs\<lparr>completed := c, left := left fs - len\<rparr>, req', want')"
        using reviewed_found [OF inv True _ r(5,6)] r(4) found by auto
      show ?thesis using less.hyps [OF _ f(4)] True r(1) found f(1-3) unfolding s
        by (subst review_loop.simps) (simp add: review_piece_def)
    next
      case missed: False
      have same: "reviewed dsk enoent n fs0 i (fs\<lparr>completed := c\<rparr>, req, want)"
        using inv r(4-6) missed by simp
      have next_one: "holds (\<lambda>s. \<exists>j. n \<le> j \<and> reviewed dsk enoent n fs0 j s)
          (review_loop dsk False enoent n (Suc j) (fs\<lparr>completed := c\<rparr>, req, want))" if "i \<le> j" "enoent i \<or> j = i" for j
        using reviewed_later [OF same, of "Suc j" i] that r(2) missed True
        by (intro less.hyps) auto
      show ?thesis
        using True r(1,3) missed next_one unfolding s
        by (subst review_loop.simps) (auto simp: review_piece_def dest!: skip_missing_forward intro!: holds_any simp del: reviewed.simps)
    qed
  qed
qed

text \<open>The file set before the review has its bits and hashes, and no piece.\<close>

definition fresh_fileset :: "nat \<Rightarrow> btFileSet \<Rightarrow> bool" where
  "fresh_fileset n fs \<longleftrightarrow> completed fs = kBitSet_create n \<and> npieces fs = int n \<and> length (hashes fs) = n * 20 \<and>
     partial fs = [] \<and> ul fs = 0 \<and> dl fs = 0"

lemma fresh_update [simp]:
  "fresh_fileset n (fs\<lparr>tsize := x\<rparr>) = fresh_fileset n fs" "fresh_fileset n (fs\<lparr>left := x\<rparr>) = fresh_fileset n fs"
  "fresh_fileset n (btFileSet_addfile fs path len) = fresh_fileset n fs"
  by (simp_all add: fresh_fileset_def btFileSet_addfile_def Let_def)

lemma add_listed_files_fresh: "fresh_fileset n fs \<Longrightarrow> holds (fresh_fileset n) (add_listed_files dir files fs)"
proof (induction files arbitrary: fs)
  case (Cons f files)
  have "holds (fresh_fileset n) (add_listed_file dir f fs)"
    using Cons.prems by (auto simp: add_listed_file_def Let_def intro!: holds_any)
  then show ?case by (auto intro!: holds_bind [where Q = "fresh_fileset n"] Cons.IH)
qed simp

lemma add_files_fresh: "fresh_fileset n fs \<Longrightarrow> holds (fresh_fileset n) (add_files meta flen fs)"
  by (auto simp: add_files_def intro!: holds_any add_listed_files_fresh split: option.split)

lemma load_fileset_fresh: "holds (\<lambda>(fs, n). fresh_fileset n fs \<and> left fs = tsize fs) (load_fileset meta)"
  unfolding load_fileset_def Let_def
  by (intro holds_any [where m = "val_integer x y" for x y] holds_any [where m = "val_string x y" for x y]
      holds_any [where m = "the_ptr x" for x] holds_bind [where Q = "fresh_fileset n" for n] holds_bind [OF add_files_fresh])
    (auto simp: btFileSet_create_def fresh_fileset_def fileset_zero_def)

lemma all_wanted:
  assumes "for_loop 0 n (\<lambda>i want. bs_set want (int i)) (kBitSet_create n) = Inr w"
  shows "bs_wf w \<and> nbits w = n \<and> bs_elems w = {..<n}"
proof -
  have "bs_wf w \<and> nbits w = n \<and> bs_elems w = {..<n}"
    using assms
  proof (rule for_loop_invD [where P = "\<lambda>i w. bs_wf w \<and> nbits w = n \<and> bs_elems w = {..<i}"])
    fix i t t'
    assume "i < n" "bs_wf t \<and> nbits t = n \<and> bs_elems t = {..<i}" "bs_set t (int i) = Inr t'"
    then show "bs_wf t' \<and> nbits t' = n \<and> bs_elems t' = {..<Suc i}"
      using bs_set_spec [of t i] by (auto simp: less_Suc_eq)
  qed simp_all
  then show ?thesis by simp
qed

text \<open>What never changes of a file set; the review leaves it alone.\<close>

definition layout_of :: "btFileSet \<Rightarrow> int \<times> int \<times> int \<times> byte list \<times> btFile list" where
  "layout_of fs = (blocksize fs, npieces fs, tsize fs, hashes fs, fs_file fs)"

lemma layout_of_update [simp]:
  "layout_of (fs\<lparr>completed := c\<rparr>) = layout_of fs" "layout_of (fs\<lparr>left := x\<rparr>) = layout_of fs"
  "layout_of (fs\<lparr>partial := ps\<rparr>) = layout_of fs" "layout_of (fs\<lparr>ul := x\<rparr>) = layout_of fs"
  "layout_of (fs\<lparr>dl := x\<rparr>) = layout_of fs"
  by (simp_all add: layout_of_def)

lemma layout_ok_of: "layout_of fs' = layout_of fs \<Longrightarrow> layout_ok fs' = layout_ok fs"
  by (simp add: layout_ok_def layout_of_def)

lemma review_loop_layout:
  "holds (\<lambda>(fs', req, want). layout_of fs' = layout_of (fst s)) (review_loop dsk assumeok enoent n i s)"
proof (induction "n - i" arbitrary: i s rule: less_induct)
  case less
  obtain fs req want where s: "s = (fs, req, want)" by (cases s)
  have piece: "holds (\<lambda>(r, fs'). layout_of fs' = layout_of fs) (review_piece dsk assumeok fs i)"
    by (auto simp: review_piece_def seg_review_def Let_def intro!: holds_any)
  have go: "holds (\<lambda>(fs', req, want). layout_of fs' = layout_of fs) (review_loop dsk assumeok enoent n (Suc j) (fs1, r, w))"
    if "i < n" "i \<le> j" "layout_of fs1 = layout_of fs" for fs1 j r w
    using less.hyps [of "Suc j" "(fs1, r, w)"] that by simp
  show ?case
  proof (cases "i < n")
    case True
    note go = go [OF True]
    show ?thesis
      unfolding s by (subst review_loop.simps) (simp add: True, rule holds_bind [OF piece],
        auto intro!: holds_any [where m = "skip_missing x y" for x y] holds_any [where m = "seg_piecelen x y" for x y]
          holds_any [where m = "bs_set x y" for x y] holds_any [where m = "bs_clr x y" for x y] go dest!: skip_missing_forward)
  next
    case False
    then show ?thesis unfolding s by (subst review_loop.simps) simp
  qed
qed

text \<open>A loaded download, as the review leaves it.\<close>

lemma load_download_reviewed:
  assumes "load_download meta dsk False enoent = Inr d" and "layout_ok (fileset d)"
  shows "\<exists>fs0 j. nat (npieces fs0) \<le> j \<and>
    reviewed dsk enoent (nat (npieces fs0)) fs0 j (fileset d, requested d, wanted d)"
proof -
  obtain fs n w fs1 req want where run: "load_fileset meta = Inr (fs, n)"
    "for_loop 0 n (\<lambda>i want. bs_set want (int i)) (kBitSet_create n) = Inr w"
    "review_loop dsk False enoent n 0 (fs, kBitSet_create n, w) = Inr (fs1, req, want)"
    and d: "fileset d = fs1" "requested d = req" "wanted d = want"
    using assms(1) unfolding load_download_def by (auto simp: bindR_Inr_iff split: option.splits if_splits)
  have fresh: "fresh_fileset n fs" "left fs = tsize fs" using holdsD [OF load_fileset_fresh run(1)] by simp_all
  have "layout_ok fs" using holdsD [OF review_loop_layout run(3)] layout_ok_of [of fs1 fs] assms(2) d(1) by simp
  then have "fs_ok fs" "bs_elems (completed fs) = {}" "nat (npieces fs) = n" using fresh by (simp_all add: fs_ok_def fresh_fileset_def)
  then have "reviewed dsk enoent n fs 0 (fs, kBitSet_create n, w)"
    using fresh all_wanted [OF run(2)] nothing_complete_verified [of fs dsk] by simp
  then have "\<exists>j. n \<le> j \<and> reviewed dsk enoent n fs j (fs1, req, want)"
    using holdsD [OF review_loop_reviewed run(3)] by blast
  then show ?thesis using d \<open>nat (npieces fs) = n\<close> by blast
qed

section \<open>Properties\<close>

text \<open>
  C28. When a torrent whose lengths fit together has been loaded with a review of the disk, the download is well
  formed: every piece marked complete is on the disk with its announced digest; exactly the other
  pieces are wanted, and exactly the complete ones count as requested; the number of bytes left is
  the total size less the lengths of the pieces found. When no file was missing, every piece that
  is on the disk has been found.
\<close>

theorem loading_finds_the_pieces:
  assumes "load_download meta dsk False enoent = Inr d" and "layout_ok (fileset d)"
  defines "have \<equiv> bs_elems (completed (fileset d))" and "n \<equiv> nat (npieces (fileset d))"
  shows "fs_ok (fileset d) \<and> verified (fileset d) dsk \<and>
    bs_elems (requested d) = have \<and> nbits (requested d) = n \<and> bs_elems (wanted d) = {..<n} - have \<and> nbits (wanted d) = n \<and>
    left (fileset d) = tsize (fileset d) - (\<Sum>k \<in> have. plen (fileset d) (int k)) \<and>
    ((\<forall>k. \<not> enoent k) \<longrightarrow> (\<forall>k < n. on_disk (fileset d) dsk k \<longrightarrow> k \<in> have))"
proof -
  obtain fs0 j where r: "nat (npieces fs0) \<le> j" "reviewed dsk enoent (nat (npieces fs0)) fs0 j (fileset d, requested d, wanted d)"
    using load_download_reviewed [OF assms(1,2)] by blast
  then have "(fileset d)\<lparr>completed := completed fs0, left := left fs0\<rparr> = fs0" by simp
  then have eq: "on_disk fs0 = on_disk (fileset d)" by (rule on_disk_update)
  have "min j (nat (npieces fs0)) = nat (npieces fs0)" "nat (npieces fs0) = n" using r by (simp_all add: n_def)
  then show ?thesis using r(2) by (simp add: n_def have_def eq)
qed

definition demo_torrent :: btObject where
  "demo_torrent = BT_DICT [(ascii ''announce'', BT_STRING (ascii ''http://t/'')),
     (ascii ''info'', BT_DICT [(ascii ''length'', BT_INTEGER 6), (ascii ''name'', BT_STRING (ascii ''a'')),
        (ascii ''piece length'', BT_INTEGER 4), (ascii ''pieces'', BT_STRING (replicate 40 7))])]"

lemma demo_loads:
  "gives (\<lambda>(fs, n). gives (\<lambda>want. gives (\<lambda>(fs, req, want). n = 2 \<and> layout_ok fs \<and> npieces fs = 2)
       (review_loop demo_disk False (\<lambda>_. False) n 0 (fs, kBitSet_create n, want)))
     (for_loop 0 n (\<lambda>i want. bs_set want (int i)) (kBitSet_create n))) (load_fileset demo_torrent)"
  "gives (\<lambda>ann. ann \<noteq> None) (val_string demo_torrent (ascii ''announce''))"
  "gives (\<lambda>info. info \<noteq> None \<and> gives (\<lambda>_. True) (benc_put_object (bts_create_strstream BTS_OUTPUT) (the info)))
     (btObject_val (Some demo_torrent) (ascii ''info''))"
  by code_simp+

theorem loading_finds_the_pieces_witness:
  "\<exists>d. load_download demo_torrent demo_disk False (\<lambda>_. False) = Inr d \<and> fs_ok (fileset d) \<and> verified (fileset d) demo_disk \<and>
     bs_elems (requested d) = bs_elems (completed (fileset d)) \<and> bs_elems (wanted d) = {..<2} - bs_elems (completed (fileset d))"
proof -
  have "\<exists>d. load_download demo_torrent demo_disk False (\<lambda>_. False) = Inr d \<and> layout_ok (fileset d) \<and> npieces (fileset d) = 2"
    using demo_loads unfolding load_download_def info_hash_def by (auto simp: gives_iff the_ptr_def)
  then obtain d where "load_download demo_torrent demo_disk False (\<lambda>_. False) = Inr d" "layout_ok (fileset d)" "npieces (fileset d) = 2"
    by blast
  then show ?thesis using loading_finds_the_pieces [of demo_torrent demo_disk "\<lambda>_. False" d] by auto
qed

end
