(* ===== verification/Bt_Main.thy ===== *)
theory Bt_Main
  imports Bt_Load
begin

text \<open>
  The program \<open>btget\<close>: loading the torrents named on the command line, the first contact with
  the trackers, and one turn of the endless loop with its timers. What \<open>poll\<close> and the trackers
  answer is an argument; the progress line and the dump of the peers only print.
\<close>

section \<open>Starting\<close>

record timers =
  choke_timer :: int
  report_timer :: int
  reregister_timer :: "int list"

text \<open>\<open>wild\<close> stands for the entries of the enlarged array that are not set.\<close>

definition set_timer :: "int \<Rightarrow> int list \<Rightarrow> nat \<Rightarrow> int \<Rightarrow> int list" where
  "set_timer wild ts i now =
     (let ts = (if length ts \<le> i then ts @ replicate (i + 1 - length ts) wild else ts) in ts[i := now])"

text \<open>A torrent of the command line: its stream, and what \<open>ctx_loadfile\<close> needs to know of the outside.\<close>

record torrent_arg =
  ta_stream :: btStream
  ta_enoent :: "nat \<Rightarrow> bool"
  ta_wild :: "btDownload option"

text \<open>With \<open>-f\<close> only the files whose path contains the name are wanted.\<close>

definition mark_wanted :: "btContext \<Rightarrow> int \<Rightarrow> byte list option \<Rightarrow> fault + btContext" where
  "mark_wanted ctx dlid optfile =
     (case optfile of
        None \<Rightarrow> Inr ctx
      | Some name \<Rightarrow>
          bindR (get_dl ctx dlid) (\<lambda>d.
          bindR (seg_markFile (fileset d) name (wanted d)) (\<lambda>w. Inr (put_dl ctx dlid (d\<lparr>wanted := w\<rparr>)))))"

fun load_torrents ::
    "torrent_arg list \<Rightarrow> bool \<Rightarrow> byte list option \<Rightarrow> int \<Rightarrow> int \<Rightarrow> btContext \<times> int list \<Rightarrow>
     fault + btContext \<times> int list" where
  "load_torrents [] optseed optfile now wild s = Inr s"
| "load_torrents (t # ts) optseed optfile now wild (ctx, tm) =
     bindR (ctx_loadfile (ta_stream t) ctx optseed (ta_enoent t) (ta_wild t)) (\<lambda>(dlid, ctx).
     if dlid < 0 then load_torrents ts optseed optfile now wild (ctx, tm)
     else
       bindR (mark_wanted ctx dlid optfile) (\<lambda>ctx.
       load_torrents ts optseed optfile now wild (ctx, set_timer wild tm (nat dlid) now)))"

definition for_downloads ::
    "(nat \<Rightarrow> btDownload \<Rightarrow> btContext \<Rightarrow> fault + btContext) \<Rightarrow> btContext \<Rightarrow> fault + btContext" where
  "for_downloads f ctx =
     for_loop 0 (length (downloads ctx))
       (\<lambda>i ctx. bindR (arr_get (downloads ctx) (int i)) (\<lambda>d. case d of
          None \<Rightarrow> Inr ctx | Some d \<Rightarrow> f i d ctx)) ctx"

definition register_all :: "outside \<Rightarrow> btContext \<Rightarrow> fault + btContext" where
  "register_all env ctx =
     for_downloads (\<lambda>i d ctx. bindR (ctx_register env ctx (int i)) (\<lambda>(_, ctx). Inr ctx)) ctx"

section \<open>The timers of the loop\<close>

definition reregister_one :: "outside \<Rightarrow> int \<Rightarrow> nat \<Rightarrow> btContext \<times> int list \<Rightarrow> fault + btContext \<times> int list" where
  "reregister_one env now i = (\<lambda>(ctx, tm).
     bindR (arr_get (downloads ctx) (int i)) (\<lambda>d. case d of
       None \<Rightarrow> Inr (ctx, tm)
     | Some d \<Rightarrow>
         bindR (arr_get tm (int i)) (\<lambda>t.
         if now - t > reregister_interval d then
           bindR (ctx_reregister env ctx (int i)) (\<lambda>(_, ctx). Inr (ctx, tm[i := now]))
         else Inr (ctx, tm))))"

definition reregister_due :: "outside \<Rightarrow> int \<Rightarrow> btContext \<times> int list \<Rightarrow> fault + btContext \<times> int list" where
  "reregister_due env now s = for_loop 0 (length (downloads (fst s))) (reregister_one env now) s"

text \<open>Every peer of a download that is complete must have given up its piece.\<close>

definition check_idle :: "btContext \<Rightarrow> btPeerset \<Rightarrow> fault + unit" where
  "check_idle ctx ps =
     for_loop 0 (nat (ps_len ps))
       (\<lambda>i u. bindR (arr_get (ps_peer ps) (int i)) (\<lambda>a. case a of
          None \<Rightarrow> Inr u
        | Some a \<Rightarrow> bindR (get_peer ctx a) (\<lambda>p. die_unless (p_currentPiece p = None) (Inr u)))) ()"

text \<open>
  What the report does besides printing: a download that has become complete is announced once.
  The percentage divides by the number of pieces.
\<close>

definition report_one :: "outside \<Rightarrow> nat \<Rightarrow> btDownload \<Rightarrow> btContext \<Rightarrow> fault + btContext" where
  "report_one env i d ctx =
     bindR (bs_countBits (completed (fileset d))) (\<lambda>complt.
     bindR (if int complt = npieces (fileset d) \<and> \<not> dl_complete d then
              bindR (ctx_complete env ctx (int i)) (\<lambda>(_, ctx).
              bindR (get_dl ctx (int i)) (\<lambda>d.
              bindR (check_idle ctx (peerset d)) (\<lambda>_. Inr ctx)))
            else Inr ctx) (\<lambda>ctx.
     if npieces (fileset d) = 0 then Inl Oob else Inr ctx))"

definition report_due :: "outside \<Rightarrow> btContext \<Rightarrow> fault + btContext" where
  "report_due env ctx = for_downloads (report_one env) ctx"

text \<open>
  \<open>revents\<close> is what \<open>poll\<close> writes into the slots, or \<open>None\<close> when it returns -1, which ends the
  program; the comparison with \<open>EINTR\<close> before that can not succeed.
\<close>

definition poll_slots :: "btContext \<Rightarrow> (nat \<Rightarrow> int) option \<Rightarrow> fault + btContext" where
  "poll_slots ctx revents =
     (case revents of
        None \<Rightarrow> Inl Abort
      | Some ev \<Rightarrow>
          let ps = polls ctx; n = nat (nstatus ps);
              sts = map (\<lambda>(i, st). st\<lparr>pfd_revents := ev i\<rparr>) (enumerate 0 (take n (status ps)))
          in Inr (ctx\<lparr>polls := ps\<lparr>status := sts @ drop n (status ps)\<rparr>\<rparr>))"

definition main_pass ::
    "outside \<Rightarrow> (nat \<Rightarrow> served) \<Rightarrow> (nat \<Rightarrow> int) option \<Rightarrow> bool \<Rightarrow> int \<Rightarrow> btContext \<times> timers \<Rightarrow>
     fault + btContext \<times> timers" where
  "main_pass env sv revents optsnub now = (\<lambda>(ctx, tm).
     bindR (poll_slots ctx revents) (\<lambda>ctx.
     bindR (socket_pass (ctx\<lparr>clock := now\<rparr>) sv optsnub) (\<lambda>ctx.
     bindR (reregister_due env now (ctx, reregister_timer tm)) (\<lambda>(ctx, rt).
     let tm = tm\<lparr>reregister_timer := rt\<rparr> in
     bindR (if now - report_timer tm > 0
            then bindR (report_due env ctx) (\<lambda>ctx. Inr (ctx, tm\<lparr>report_timer := now\<rparr>))
            else Inr (ctx, tm)) (\<lambda>(ctx, tm).
     if now - choke_timer tm > 30
     then bindR (rechoke ctx) (\<lambda>ctx. Inr (ctx, tm\<lparr>choke_timer := now\<rparr>))
     else Inr (ctx, tm))))))"

text \<open>The endless loop for as long as it is watched; a turn is what the world does during it.\<close>

record turn =
  t_env :: outside
  t_served :: "nat \<Rightarrow> served"
  t_revents :: "(nat \<Rightarrow> int) option"
  t_now :: int

fun main_turns :: "bool \<Rightarrow> turn list \<Rightarrow> btContext \<times> timers \<Rightarrow> fault + btContext \<times> timers" where
  "main_turns optsnub [] s = Inr s"
| "main_turns optsnub (t # ts) s =
     bindR (main_pass (t_env t) (t_served t) (t_revents t) optsnub (t_now t) s) (main_turns optsnub ts)"

text \<open>
  Everything \<open>main\<close> does before the loop, after the options: the context, the torrents, the
  listening socket and the trackers.
\<close>

definition main_start ::
    "outside \<Rightarrow> btContext \<Rightarrow> nat \<times> nat \<Rightarrow> byte list \<times> byte list \<Rightarrow> torrent_arg list \<Rightarrow> bool \<Rightarrow> byte list option \<Rightarrow>
     int \<Rightarrow> int \<Rightarrow> (int \<Rightarrow> bool) \<Rightarrow> bool \<Rightarrow> int \<Rightarrow> fault + btContext \<times> timers" where
  "main_start env ctx ulf new args optseed optfile now sock binds listens wild =
     bindR (btContext_create ctx ulf rc_name (fst new) (snd new)) (\<lambda>ctx.
     bindR (load_torrents args optseed optfile now wild (ctx, [])) (\<lambda>(ctx, rt).
     bindR (ctx_startserver ctx sock binds listens) (\<lambda>(_, ctx).
     bindR (register_all env ctx) (\<lambda>ctx.
     Inr (ctx, \<lparr>choke_timer = now, report_timer = now, reregister_timer = rt\<rparr>)))))"

end
