(* ===== verification/Bt_Wire.thy ===== *)
theory Bt_Wire
  imports Bt_Client
begin

text \<open>
  The two ends of a connection: what one peer sends is what the other reads. The frames of
  \<open>Bt_Peer\<close> are taken apart again by \<open>recv_frame\<close>, handshakes are accepted or refused, and the
  reading loop returns.
\<close>

section \<open>Reading what has arrived\<close>

text \<open>The socket has no error in store and no empty packet (an orderly shutdown).\<close>

definition live :: "btPeer \<Rightarrow> bool" where
  "live p \<longleftrightarrow> str_ok (p_ios p) \<and> (\<forall>e \<in> set (rx (p_sock p)). \<exists>d. e = Rx_data d \<and> d \<noteq> [])"

lemma kStream_read_rx:
  assumes "kStream_read str n mx = (r, bs, str', n')" and "0 < mx"
    and "\<forall>e \<in> set (rx n). \<exists>d. e = Rx_data d \<and> d \<noteq> []"
  shows "\<forall>e \<in> set (rx n'). \<exists>d. e = Rx_data d \<and> d \<noteq> []"
  using assms by (auto simp: kStream_read_def Let_def split: prod.splits if_splits list.splits rx_event.splits)

lemma fpeek_loop_rx:
  assumes "fpeek_loop str n want = Inr (r, str', n')"
    and "\<forall>e \<in> set (rx n). \<exists>d. e = Rx_data d \<and> d \<noteq> []"
  shows "\<forall>e \<in> set (rx n'). \<exists>d. e = Rx_data d \<and> d \<noteq> []"
  using assms
proof (induction str n want rule: fpeek_loop.induct)
  case (1 str n want)
  obtain nread buf s1 n1 where read: "kStream_read str n 1024 = (nread, buf, s1, n1)" by (metis prod_cases4)
  have rx1: "\<forall>e \<in> set (rx n1). \<exists>d. e = Rx_data d \<and> d \<noteq> []"
    using kStream_read_rx [OF read] 1(3) by simp
  show ?case
  proof (cases "length (sb_buf (ibuf str)) < want \<and> \<not> nread < 0 \<and> nread \<noteq> 0")
    case False
    then show ?thesis using 1(2,3) read rx1 by (subst (asm) fpeek_loop.simps) (auto split: if_splits)
  next
    case True
    then obtain ib where ib: "sbcat (ibuf s1) buf nread = Inr ib"
      "fpeek_loop (s1\<lparr>ibuf := ib\<rparr>) n1 want = Inr (r, str', n')"
      using 1(2) read by (subst (asm) fpeek_loop.simps) (auto simp: bindR_Inr_iff)
    show ?thesis using 1(1) [OF _ read [symmetric] refl refl _ _ ib(1,2) rx1] True by blast
  qed
qed

text \<open>Only the stream of the peer and its socket differ.\<close>

definition same_but_stream :: "btPeer \<Rightarrow> btPeer \<Rightarrow> bool" where
  "same_but_stream p q \<longleftrightarrow> q = p\<lparr>p_ios := p_ios q, p_sock := p_sock q\<rparr>"

lemma same_but_streamI [intro]: "same_but_stream p (p\<lparr>p_ios := s, p_sock := n\<rparr>)"
  by (simp add: same_but_stream_def)

lemma same_but_stream_trans [trans]:
  "same_but_stream p q \<Longrightarrow> same_but_stream q r \<Longrightarrow> same_but_stream p r"
  unfolding same_but_stream_def by (metis (no_types, lifting) btPeer.surjective btPeer.update_convs(3,4))

lemma same_but_streamD:
  assumes "same_but_stream p q"
  shows "p_state q = p_state p" "p_download q = p_download p" "p_id q = p_id p"
  using assms unfolding same_but_stream_def
  by (metis btPeer.select_convs(1,2,5) btPeer.surjective btPeer.update_convs(3,4))+

text \<open>A peek and a read of bytes that have arrived.\<close>

lemma peer_fpeek_live:
  assumes "live p" and "k \<le> length (p_pending p)"
  shows "\<exists>q. peer_fpeek p (int k) = Inr (int k, take k (p_pending p), q) \<and> live q \<and>
    p_pending q = p_pending p \<and> same_but_stream p q"
proof -
  have ok: "str_ok (p_ios p)" and rx: "\<forall>e \<in> set (rx (p_sock p)). \<exists>d. e = Rx_data d \<and> d \<noteq> []"
    using assms(1) by (simp_all add: live_def)
  obtain s n where l: "fpeek_loop (p_ios p) (p_sock p) k = Inr (int k, s, n)"
    using fpeek_loop_live [OF ok rx, of k] assms(2) by (auto simp: p_pending_def)
  have s: "str_ok s" "in_pending s n = p_pending p"
    using fpeek_loop_result [OF ok, of "p_sock p" k] l by (auto simp: p_pending_def)
  have "k \<le> length (sb_buf (ibuf s))" using fpeek_loop_enough [OF l] by simp
  then have t: "take k (sb_buf (ibuf s)) = take k (p_pending p)"
    using s(2) by (metis in_pending_def take_append append_Nil2 diff_is_0_eq take0)
  let ?q = "p\<lparr>p_ios := s, p_sock := n\<rparr>"
  have "peer_fpeek p (int k) = Inr (int k, take k (p_pending p), ?q)"
    using l t by (simp add: peer_fpeek_def kStream_fpeek_def)
  moreover have "live ?q" using s(1) fpeek_loop_rx [OF l rx] by (simp add: live_def)
  moreover have "p_pending ?q = p_pending p" using s(2) by (simp add: p_pending_def)
  ultimately show ?thesis by blast
qed

lemma peer_fread_live:
  assumes "live p" and "k \<le> length (p_pending p)" and "0 < k"
  shows "\<exists>q. peer_fread p (int k) = Inr (int k, take k (p_pending p), q) \<and> live q \<and>
    p_pending q = drop k (p_pending p) \<and> same_but_stream p q"
proof -
  have ok: "str_ok (p_ios p)" and rx: "\<forall>e \<in> set (rx (p_sock p)). \<exists>d. e = Rx_data d \<and> d \<noteq> []"
    using assms(1) by (simp_all add: live_def)
  obtain s n where f: "kStream_fread (p_ios p) (p_sock p) (int k) = Inr (int k, take k (p_pending p), s, n)"
    using kStream_fread_live [OF ok rx, of k] assms(2) by (auto simp: p_pending_def)
  then obtain s1 n1 r1 where l: "fpeek_loop (p_ios p) (p_sock p) k = Inr (r1, s1, n1)" and "n = n1"
    by (auto simp: kStream_fread_def kStream_fpeek_def bindR_Inr_iff split: if_splits)
  have "str_ok s" using kStream_fread_result [OF ok, of "p_sock p" k] f by auto
  then have "live (p\<lparr>p_ios := s, p_sock := n\<rparr>)"
    using fpeek_loop_rx [OF l rx] \<open>n = n1\<close> by (simp add: live_def)
  moreover have r: "peer_fread p (int k) = Inr (int k, take k (p_pending p), p\<lparr>p_ios := s, p_sock := n\<rparr>)"
    using f by (simp add: peer_fread_def)
  moreover have "p_pending (p\<lparr>p_ios := s, p_sock := n\<rparr>) = drop k (p_pending p)"
    using peer_fread_pending(1) [OF r] assms(3) by simp
  ultimately show ?thesis by blast
qed

section \<open>Taking a frame off the wire\<close>

lemma recv_frame_frame:
  assumes "live p" and "p_pending p = frame body @ rest" and "body \<noteq> []" and "int (length body) \<le> MAXMESSAGE"
  shows "\<exists>t q. recv_frame stack p = Inr (Fr_msg (int (length body)) (frame body @ t), q) \<and> live q \<and>
    p_pending q = rest \<and> same_but_stream p q"
proof -
  let ?n = "length body"
  have len: "length (frame body) = ?n + 4" by (simp add: frame_def)
  have n: "0 < ?n" "int ?n < 2147483648" using assms(3,4) by (simp_all add: MAXMESSAGE_def MAXREQUEST_def)
  obtain q1 where q1: "peer_fpeek p 4 = Inr (4, take 4 (p_pending p), q1)" "live q1"
    "p_pending q1 = p_pending p" "same_but_stream p q1"
    using peer_fpeek_live [OF assms(1), of 4] assms(2) len by auto
  have be: "int32_of_be (take 4 (p_pending p)) = int ?n"
    using n int32_of_be_be32 [of "int ?n"] assms(2) by (simp add: frame_def int32_range_def)
  obtain q where q: "peer_fread q1 (int (?n + 4)) = Inr (int (?n + 4), frame body, q)" "live q"
    "p_pending q = rest" "same_but_stream q1 q"
    using peer_fread_live [OF q1(2), of "?n + 4"] q1(3) assms(2) len by auto
  have "recv_frame stack p = Inr (Fr_msg (int ?n)
      (frame body @ (if int ?n \<le> 80 then drop (?n + 4) stack else [])), q)"
    using q1(1) q(1) be n(1) assms(4) by (auto simp: recv_frame_def Let_def algebra_simps)
  then show ?thesis using q same_but_stream_trans [OF q1(4) q(4)] by blast
qed

lemma recv_frame_keepalive:
  assumes "live p" and "p_pending p = frame [] @ rest"
  shows "\<exists>q. recv_frame stack p = Inr (Fr_return 0, q) \<and> live q \<and> p_pending q = rest \<and> same_but_stream p q"
proof -
  have f: "frame [] = be32 0" by (simp add: frame_def)
  obtain q1 where q1: "peer_fpeek p 4 = Inr (4, take 4 (p_pending p), q1)" "live q1"
    "p_pending q1 = p_pending p" "same_but_stream p q1"
    using peer_fpeek_live [OF assms(1), of 4] assms(2) f by auto
  have be: "int32_of_be (take 4 (p_pending p)) = 0"
    using int32_of_be_be32 [of 0] assms(2) f by (simp add: int32_range_def)
  obtain q where q: "peer_fread q1 4 = Inr (4, be32 0, q)" "live q" "p_pending q = rest" "same_but_stream q1 q"
    using peer_fread_live [OF q1(2), of 4] q1(3) assms(2) f by auto
  then show ?thesis
    using q1(1,4) be same_but_stream_trans by (auto simp: recv_frame_def Let_def)
qed

section \<open>Reading messages back\<close>

text \<open>
  The fields of a message as the handlers take them from the array: the type from \<open>nmsg[4]\<close>, the
  numbers with \<open>UNSHIFT_INT32\<close>, the rest from \<open>nmsg + 5\<close> and \<open>nmsg + 13\<close>.
\<close>

definition field :: "byte list \<Rightarrow> nat \<Rightarrow> int option" where
  "field nmsg off = (case get32 nmsg off of Inl _ \<Rightarrow> None | Inr v \<Rightarrow> Some v)"

definition three_fields :: "(int \<Rightarrow> int \<Rightarrow> int \<Rightarrow> btmsg) \<Rightarrow> byte list \<Rightarrow> btmsg option" where
  "three_fields c nmsg =
     (case (field nmsg 5, field nmsg 9, field nmsg 13) of
        (Some x, Some y, Some z) \<Rightarrow> Some (c x y z) | _ \<Rightarrow> None)"

definition decode :: "int \<Rightarrow> byte list \<Rightarrow> btmsg option" where
  "decode len nmsg =
     (let type = nmsg ! 4 in
      if type = BT_MSG_CHOKE then Some (Choke True)
      else if type = BT_MSG_UNCHOKE then Some (Choke False)
      else if type = BT_MSG_INTERESTED then Some (Interested True)
      else if type = BT_MSG_NOTINTERESTED then Some (Interested False)
      else if type = BT_MSG_HAVE then map_option Have (field nmsg 5)
      else if type = BT_MSG_BITFIELD then Some (Bitfield (take (nat len - 1) (drop 5 nmsg)))
      else if type = BT_MSG_REQUEST then three_fields Request nmsg
      else if type = BT_MSG_PIECE then
        (case (field nmsg 5, field nmsg 9) of
           (Some n, Some off) \<Rightarrow> Some (Piece n off (take (nat len - 9) (drop 13 nmsg))) | _ \<Rightarrow> None)
      else if type = BT_MSG_CANCEL then three_fields Cancel nmsg
      else None)"

fun message_of :: "frame_read \<Rightarrow> btmsg option" where
  "message_of (Fr_return r) = (if r = 0 then Some Keepalive else None)"
| "message_of Fr_failed = None"
| "message_of (Fr_msg len nmsg) = decode len nmsg"

text \<open>A number of frames read one after another.\<close>

fun recv_msgs :: "byte list \<Rightarrow> nat \<Rightarrow> btPeer \<Rightarrow> fault + btmsg option list \<times> btPeer" where
  "recv_msgs stack 0 p = Inr ([], p)"
| "recv_msgs stack (Suc n) p =
     bindR (recv_frame stack p) (\<lambda>(fr, p).
     bindR (recv_msgs stack n p) (\<lambda>(ms, p). Inr (message_of fr # ms, p)))"

text \<open>Messages that fit the wire format: 32-bit numbers, and no more bytes than are accepted.\<close>

fun msg_fits :: "btmsg \<Rightarrow> bool" where
  "msg_fits (Have n) \<longleftrightarrow> int32_range n"
| "msg_fits (Bitfield bs) \<longleftrightarrow> int (length bs) + 1 \<le> MAXMESSAGE"
| "msg_fits (Request n off len) \<longleftrightarrow> int32_range n \<and> int32_range off \<and> int32_range len"
| "msg_fits (Piece n off bs) \<longleftrightarrow> int32_range n \<and> int32_range off \<and> int (length bs) + 9 \<le> MAXMESSAGE"
| "msg_fits (Cancel n off len) \<longleftrightarrow> int32_range n \<and> int32_range off \<and> int32_range len"
| "msg_fits _ \<longleftrightarrow> True"

lemma field_be32:
  "int32_range v \<Longrightarrow> length pre = off \<Longrightarrow> field (pre @ be32 v @ post) off = Some v"
  by (simp add: field_def get32_def int32_of_be_be32)

lemma decode_frame:
  assumes "msg_fits m" and "m \<noteq> Keepalive"
  shows "decode (int (length (msg_body m))) (frame (msg_body m) @ t) = Some m"
proof -
  have type: "(frame (c # b) @ t) ! 4 = c" for c b by (simp add: frame_def nth_append)
  have f5: "field (frame (c # be32 v @ b) @ t) 5 = Some v" if "int32_range v" for c v b
    using field_be32 [OF that, of "be32 (int (length (c # be32 v @ b))) @ [c]" 5 "b @ t"]
    by (simp add: frame_def)
  have f9: "field (frame (c # be32 u @ be32 v @ b) @ t) 9 = Some v" if "int32_range v" for c u v b
    using field_be32 [OF that, of "be32 (int (length (c # be32 u @ be32 v @ b))) @ c # be32 u" 9 "b @ t"]
    by (simp add: frame_def)
  have f13: "field (frame (c # be32 u @ be32 w @ be32 v) @ t) 13 = Some v" if "int32_range v" for c u v w
    using field_be32 [OF that, of "be32 (int (length (c # be32 u @ be32 w @ be32 v))) @ c # be32 u @ be32 w" 13 t]
    by (simp add: frame_def)
  have f5': "field (frame (c # be32 v) @ t) 5 = Some v" if "int32_range v" for c v
    using f5 [OF that, of c "[]"] by simp
  show ?thesis
    using assms
    by (cases m) (simp_all only: msg_body.simps decode_def Let_def type,
      simp_all add: bt_msg_defs f5 f5' f9 f13 three_fields_def, simp_all add: frame_def)
qed

lemma body_fits:
  assumes "msg_fits m" and "m \<noteq> Keepalive"
  shows "msg_body m \<noteq> [] \<and> int (length (msg_body m)) \<le> MAXMESSAGE"
  using assms by (cases m) (auto simp: MAXMESSAGE_def MAXREQUEST_def)

lemma recv_msgs_frames:
  assumes "live p" and "p_pending p = frames ms @ rest" and "\<forall>m \<in> set ms. msg_fits m"
  shows "\<exists>q. recv_msgs stack (length ms) p = Inr (map Some ms, q) \<and> live q \<and> p_pending q = rest \<and>
    same_but_stream p q"
  using assms
proof (induction ms arbitrary: p)
  case Nil
  then show ?case by (auto simp: frames_def same_but_stream_def)
next
  case (Cons m ms)
  have pend: "p_pending p = frame (msg_body m) @ frames ms @ rest" using Cons.prems(2) by (simp add: frames_def)
  have "\<exists>fr q. recv_frame stack p = Inr (fr, q) \<and> message_of fr = Some m \<and> live q \<and>
      p_pending q = frames ms @ rest \<and> same_but_stream p q"
  proof (cases "m = Keepalive")
    case True
    then show ?thesis using recv_frame_keepalive [OF Cons.prems(1), of "frames ms @ rest" stack] pend by auto
  next
    case False
    have fits: "msg_fits m" using Cons.prems(3) by simp
    show ?thesis
      using recv_frame_frame [OF Cons.prems(1) pend, of stack] body_fits [OF fits False] decode_frame [OF fits False]
      by fastforce
  qed
  then obtain fr q where q: "recv_frame stack p = Inr (fr, q)" "message_of fr = Some m" "live q"
    "p_pending q = frames ms @ rest" "same_but_stream p q" by blast
  obtain q2 where "recv_msgs stack (length ms) q = Inr (map Some ms, q2)" "live q2" "p_pending q2 = rest"
    "same_but_stream q q2"
    using Cons.IH [OF q(3,4)] Cons.prems(3) by auto
  then show ?case using q same_but_stream_trans [OF q(5)] by auto
qed

section \<open>Handshakes\<close>

lemma check_handshake_known:
  assumes "get_peer ctx a = Inr p" and "get_dl ctx (p_download p) = Inr d" and "p_state p \<noteq> PEER_INCOMING"
    and "length shake = 68"
  shows "check_handshake ctx a shake 68 =
    (if take 20 shake \<noteq> protocol_id then Inr (- 1, put_peer ctx a (set_error BTERR_PROTOCOL_ID p))
     else if take 20 (drop 28 shake) \<noteq> infohash d then Inr (- 1, put_peer ctx a (set_error BTERR_HASH_MISMATCH p))
     else Inr (0, put_peer ctx a (p\<lparr>p_id := take 20 (drop 48 shake)\<rparr>)))"
proof -
  obtain c cs where shake: "shake = c # cs" using assms(4) by (cases shake) auto
  have "take 20 shake \<noteq> protocol_id" if "c \<noteq> 0x13" using that shake by (simp add: protocol_id_def)
  then show ?thesis
    using assms shake by (auto simp: check_handshake_def at_peer_Inr Let_def)
qed

section \<open>The reading loop\<close>

text \<open>The loop of \<open>client_run\<close> with a bound on its turns; \<open>None\<close> when they do not suffice.\<close>

fun recv_turns :: "nat \<Rightarrow> btContext \<Rightarrow> addr \<Rightarrow> (fault + int \<times> btContext) option" where
  "recv_turns 0 ctx a = None"
| "recv_turns (Suc n) ctx a =
     (case peer_recv_message ctx a of
        Inl e \<Rightarrow> Some (Inl e)
      | Inr (err, ctx') \<Rightarrow> if err = 1 then recv_turns n ctx' a else Some (Inr (err, ctx')))"

lemma recv_turns_enough:
  "length (pending ctx a) < n \<Longrightarrow> recv_turns n ctx a = Some (recv_loop ctx a)"
proof (induction n arbitrary: ctx)
  case (Suc n)
  show ?case
  proof (cases "peer_recv_message ctx a")
    case (Inl e)
    then show ?thesis by (subst recv_loop.simps) simp
  next
    case (Inr s)
    then obtain err ctx' where r: "peer_recv_message ctx a = Inr (err, ctx')" by (cases s) simp
    show ?thesis
    proof (cases "err = 1")
      case True
      then have "length (pending ctx' a) < n"
        using peer_recv_message_progress(3) [OF r] Suc.prems by simp
      then show ?thesis using Suc.IH [of ctx'] r True by (subst recv_loop.simps) simp
    next
      case False
      then show ?thesis using r by (subst recv_loop.simps) simp
    qed
  qed
qed simp

section \<open>A client to try things on\<close>

text \<open>One torrent, and one peer at address 0 from which some bytes have arrived in one packet.\<close>

definition demo_dl :: btDownload where
  "demo_dl = \<lparr>md = None, url = [0], infohash = replicate 20 5, requested = kBitSet_create 2,
     wanted = kBitSet_create 2, fileset = demo_fs, reregister_interval = 0,
     peerset = \<lparr>ps_len = 1, interestedpeers = 0, incomplete = 0, ps_peer = [Some 0]\<rparr>, dl_complete = False\<rparr>"

definition reading_peer :: "peerstates \<Rightarrow> byte list \<Rightarrow> btPeer" where
  "reading_peer st bs = (peer_zero \<lparr>rx = [Rx_data bs], tx = [], sent = []\<rparr>)
     \<lparr>p_state := st, p_blocks := kBitSet_create 2\<rparr>"

definition demo_ctx :: "btPeer \<Rightarrow> btContext" where
  "demo_ctx p = empty_ctx\<lparr>downloads := [Some demo_dl], peers := [0 \<mapsto> p]\<rparr>"

lemma reading_peer_facts [simp]:
  "bs \<noteq> [] \<Longrightarrow> live (reading_peer st bs)" "p_pending (reading_peer st bs) = bs"
  "p_state (reading_peer st bs) = st" "p_download (reading_peer st bs) = 0"
  "str_ok (p_ios (reading_peer st bs))"
  by (auto simp: reading_peer_def peer_zero_def kStream_zero_def live_def str_ok_def p_pending_def
      in_pending_def rx_bytes_def)

lemma demo_ctx_facts [simp]:
  "get_peer (demo_ctx p) 0 = Inr p" "get_dl (demo_ctx p) 0 = Inr demo_dl"
  by (simp_all add: demo_ctx_def get_peer_def get_dl_def arr_get_def)

section \<open>Properties\<close>





text \<open>
  C22. The reading loop of \<open>client_run\<close> returns: it takes at most one turn more than there are
  bytes to be read, whatever the peer sends, because every turn that is repeated has consumed
  input.
\<close>

theorem recv_loop_terminates:
  "recv_turns (Suc (length (pending ctx a))) ctx a = Some (recv_loop ctx a)"
  by (rule recv_turns_enough) simp

text \<open>
  C23. A keep-alive ends the loop even when whole messages are buffered behind it: the result says
  that there is no more work, and everything behind the four bytes stays unread until the
  socket becomes readable again.
\<close>

theorem keepalive_ends_reading:
  assumes "get_peer ctx a = Inr p" and "p_state p = PEER_GOOD" and "get_dl ctx (p_download p) = Inr d"
    and "live p" and "p_pending p = frame [] @ rest"
  shows "\<exists>ctx'. recv_loop ctx a = Inr (0, ctx') \<and> pending ctx' a = rest"
proof -
  obtain q where "recv_frame (junk ctx) p = Inr (Fr_return 0, q)" "p_pending q = rest"
    using recv_frame_keepalive [OF assms(4,5)] by blast
  then have "peer_recv_message ctx a = Inr (0, put_peer ctx a q)"
    using assms(1-3) by (simp add: peer_recv_message_def recv_peermsg_def at_peer_Inr)
  then show ?thesis using \<open>p_pending q = rest\<close> by (subst recv_loop.simps) simp
qed

theorem keepalive_ends_reading_witness:
  "\<exists>ctx'. recv_loop (demo_ctx (reading_peer PEER_GOOD (frame [] @ frame [BT_MSG_CHOKE]))) 0 = Inr (0, ctx') \<and>
     pending ctx' 0 = frame [BT_MSG_CHOKE]"
  using keepalive_ends_reading [of "demo_ctx (reading_peer PEER_GOOD (frame [] @ frame [BT_MSG_CHOKE]))" 0 _ demo_dl]
  by (simp add: frame_def be32_def)

text \<open>
  C24. A negative length ends the whole client: the test for messages of at most 80 bytes lets it
  pass, and the assertion behind it aborts.
\<close>

theorem negative_length_aborts:
  assumes "get_peer ctx a = Inr p" and "get_dl ctx (p_download p) = Inr d" and "live p"
    and "p_pending p = be32 len @ rest" and "int32_range len" and "len < 0"
  shows "recv_peermsg ctx a = Inl Abort"
proof -
  obtain q where "peer_fpeek p 4 = Inr (4, be32 len, q)"
    using peer_fpeek_live [OF assms(3), of 4] assms(4) by auto
  then have "recv_frame (junk ctx) p = Inl Abort"
    using assms(5,6) int32_of_be_be32 [of len] by (simp add: recv_frame_def)
  then show ?thesis using assms(1,2) by (simp add: recv_peermsg_def at_peer_Inr)
qed

theorem negative_length_aborts_witness:
  "recv_peermsg (demo_ctx (reading_peer PEER_GOOD (be32 (- 1) @ []))) 0 = Inl Abort"
  by (rule negative_length_aborts [where d = demo_dl and p = "reading_peer PEER_GOOD (be32 (- 1) @ [])"
        and len = "- 1" and rest = "[]"])
    (simp_all add: int32_range_def be32_def)

end
