(* ===== verification/Bt_Requests.thy ===== *)
theory Bt_Requests
  imports Bt_Wire
begin

text \<open>
  What is asked for and what is answered: the requests \<open>peer_send_request\<close> keeps outstanding lie
  inside the piece and are at most ten, and a request of a peer is queued exactly when it may be
  served.
\<close>

section \<open>Outstanding requests\<close>

definition request_in :: "int \<Rightarrow> int \<Rightarrow> btRequest \<Rightarrow> bool" where
  "request_in n blocklen r \<longleftrightarrow> rq_block r = n \<and> 0 \<le> rq_offset r \<and> 0 < rq_length r \<and>
     rq_length r \<le> REQUEST_SIZE \<and> rq_offset r + rq_length r \<le> blocklen"

definition asking_ok :: "int \<Rightarrow> btPartialPiece \<Rightarrow> bool" where
  "asking_ok blocklen pc \<longleftrightarrow> 0 < blocklen \<and> 0 \<le> nextbyteReq pc \<and> nextbyteReq pc \<le> blocklen \<and>
     bs_wf (filled pc) \<and> nbits (filled pc) = nat blocklen"

lemma bs_firstClr_bounds:
  assumes "bs_wf a" and "0 < nbits a"
  shows "\<exists>v. bs_firstClr a = Inr v \<and> 0 \<le> v \<and> v < int (nbits a)"
proof (cases "bs_elems a = {..<nbits a}")
  case True
  then show ?thesis using bs_firstClr_spec [OF assms(1)] assms(2) by simp
next
  case False
  moreover have "bs_elems a \<subseteq> {..<nbits a}" by (auto simp: bs_elems_def)
  ultimately obtain i where "i < nbits a" "i \<notin> bs_elems a" by auto
  then have "(LEAST i. i \<notin> bs_elems a) < nbits a" using Least_le [of "\<lambda>i. i \<notin> bs_elems a" i] by simp
  then show ?thesis using bs_firstClr_spec [OF assms(1)] False by simp
qed

lemma next_range_ok:
  assumes "asking_ok blocklen pc"
  shows "\<exists>range pc'. next_range q pc blocklen = Inr (range, pc') \<and> asking_ok blocklen pc' \<and>
    piecenumber pc' = piecenumber pc \<and>
    (case range of None \<Rightarrow> True | Some (s, l) \<Rightarrow> s = nextbyteReq pc' \<and> 0 < l \<and> s + l = blocklen)"
proof -
  obtain v where v: "bs_firstClr (filled pc) = Inr v" "0 \<le> v" "v < blocklen"
    using bs_firstClr_bounds [of "filled pc"] assms by (auto simp: asking_ok_def)
  have a: "asking_ok blocklen (pc\<lparr>nextbyteReq := x\<rparr>)" if "0 \<le> x" "x \<le> blocklen" for x
    using assms that by (simp add: asking_ok_def)
  have nb: "0 \<le> nextbyteReq pc" "nextbyteReq pc \<le> blocklen" "0 < blocklen"
    using assms by (simp_all add: asking_ok_def)
  consider "blocklen \<noteq> nextbyteReq pc" | "blocklen = nextbyteReq pc" "isdone pc"
    | "blocklen = nextbyteReq pc" "\<not> isdone pc" "queue_len q > 0"
    | "blocklen = nextbyteReq pc" "\<not> isdone pc" "\<not> queue_len q > 0" by blast
  then show ?thesis
  proof cases
    case 1
    then show ?thesis using nb assms by (simp add: next_range_def Let_def)
  next
    case 2
    then show ?thesis using a [of 0] nb by (simp add: next_range_def Let_def)
  next
    case 3
    then show ?thesis using assms by (simp add: next_range_def Let_def)
  next
    case 4
    then show ?thesis using a [of v] nb v by (simp add: next_range_def Let_def)
  qed
qed

lemma send_request_ok:
  assumes "str_ok (p_ios p)"
  shows "\<exists>r q. send_request p n off len = Inr (r, q) \<and> same_but_output p q"
  using send_msg_emits [OF assms, of "Request n off len"] by (auto simp: emits_def)

lemma request_loop_ok:
  assumes "rq_ok (p_inqueue p)" and "str_ok (p_ios p)" and "asking_ok blocklen pc"
  shows "\<exists>r p' pc' new. request_loop arate blocklen p pc res = Inr (r, p', pc') \<and>
    rq_ok (p_inqueue p') \<and> str_ok (p_ios p') \<and> asking_ok blocklen pc' \<and> piecenumber pc' = piecenumber pc \<and>
    rq_list (p_inqueue p') = rq_list (p_inqueue p) @ new \<and>
    list_all (request_in (piecenumber pc) blocklen) new \<and> (new \<noteq> [] \<longrightarrow> length (rq_list (p_inqueue p')) \<le> 10)"
  using assms
proof (induction arate blocklen p pc res rule: request_loop.induct)
  case (1 arate blocklen p pc res)
  let ?q = "p_inqueue p"
  show ?case
  proof (cases "queue_len ?q < request_depth arate")
    case False
    then show ?thesis using 1(2-4) by (subst request_loop.simps) simp
  next
    case True
    have depth: "request_depth arate \<le> 10" by (simp add: request_depth_def REQMAX_def Let_def)
    have count: "length (rq_list ?q) < 10" using queue_len_eq [OF 1(2)] True depth by simp
    have ind: "rq_indices ?q" using 1(2) by (simp add: rq_indices_def rq_ok_def)
    obtain range pc1 where n: "next_range ?q pc blocklen = Inr (range, pc1)" "asking_ok blocklen pc1"
      "piecenumber pc1 = piecenumber pc"
      "case range of None \<Rightarrow> True | Some (s, l) \<Rightarrow> s = nextbyteReq pc1 \<and> 0 < l \<and> s + l = blocklen"
      using next_range_ok [OF 1(4)] by blast
    show ?thesis
    proof (cases range)
      case None
      then show ?thesis using n True ind 1(2,3) by (subst request_loop.simps) simp
    next
      case (Some sl)
      then obtain s l where sl: "range = Some (s, l)" "s = nextbyteReq pc1" "0 < l" "s + l = blocklen"
        using n(4) by (cases sl) auto
      define len where "len = (if l > REQUEST_SIZE then REQUEST_SIZE else l)"
      define pc2 where "pc2 = pc1\<lparr>nextbyteReq := nextbyteReq pc1 + len\<rparr>"
      have len: "0 < len" "len \<le> REQUEST_SIZE" "s + len \<le> blocklen" "len \<le> MAXREQUEST"
        using sl by (simp_all add: len_def REQUEST_SIZE_def MAXREQUEST_def)
      have pc2: "asking_ok blocklen pc2" "piecenumber pc2 = piecenumber pc"
        using n(2,3) len sl by (simp_all add: asking_ok_def pc2_def)
      obtain r p1 where p1: "send_request p (piecenumber pc2) s len = Inr (r, p1)" "same_but_output p p1"
        using send_request_ok [OF 1(3)] by blast
      have same: "p_inqueue p1 = ?q" "str_ok (p_ios p1)" using same_but_outputD [OF p1(2)] by simp_all
      obtain q2 where q2: "queue_request ?q (piecenumber pc2) s len = Inr (0, q2)" "rq_ok q2"
        "rq_list q2 = rq_list ?q @ [\<lparr>rq_block = piecenumber pc2, rq_offset = s, rq_length = len\<rparr>]"
        using queue_request_ok [OF 1(2) len(4)] count by (auto simp: QUEUESIZE_def)
      have step: "request_loop arate blocklen p pc res = request_loop arate blocklen (p1\<lparr>p_inqueue := q2\<rparr>) pc2 r"
        using True ind n(1,3) sl(1) p1(1) q2(1) same(1) pc2(2)
        by (subst request_loop.simps) (simp add: len_def [symmetric] pc2_def [symmetric] Let_def)
      have new: "request_in (piecenumber pc) blocklen \<lparr>rq_block = piecenumber pc2, rq_offset = s, rq_length = len\<rparr>"
        using len sl n(2) pc2(2) by (simp add: request_in_def asking_ok_def)
      have "\<exists>r' p' pc' new. request_loop arate blocklen (p1\<lparr>p_inqueue := q2\<rparr>) pc2 r = Inr (r', p', pc') \<and>
          rq_ok (p_inqueue p') \<and> str_ok (p_ios p') \<and> asking_ok blocklen pc' \<and> piecenumber pc' = piecenumber pc2 \<and>
          rq_list (p_inqueue p') = rq_list (p_inqueue (p1\<lparr>p_inqueue := q2\<rparr>)) @ new \<and> list_all (request_in (piecenumber pc2) blocklen) new \<and>
          (new \<noteq> [] \<longrightarrow> length (rq_list (p_inqueue p')) \<le> 10)"
        by (rule 1(1) [of "(range, pc1)" range pc1 "(s, l)" s l len pc2 "(r, p1)" r p1 "(0, q2)" 0 q2])
          (use True ind n(1) sl(1) p1(1) q2 same pc2 in \<open>simp_all add: len_def pc2_def\<close>)
      then show ?thesis unfolding step using q2(3) new pc2(2) count by (auto simp del: length_rq_list)
    qed
  qed
qed

section \<open>Requests of the peer\<close>

lemma get32_be32:
  "int32_range v \<Longrightarrow> length pre = off \<Longrightarrow> get32 (pre @ be32 v @ post) off = Inr v"
  by (simp add: get32_def int32_of_be_be32)

lemma request_fields:
  fixes t :: "byte list"
  assumes "int32_range n" and "int32_range off" and "int32_range len"
  defines "nmsg \<equiv> frame (msg_body (Request n off len)) @ t"
  shows "get32 nmsg 5 = Inr n" "get32 nmsg 9 = Inr off" "get32 nmsg 13 = Inr len"
proof -
  have m: "nmsg = be32 13 @ BT_MSG_REQUEST # be32 n @ be32 off @ be32 len @ t"
    by (simp add: nmsg_def frame_def)
  show "get32 nmsg 5 = Inr n" "get32 nmsg 9 = Inr off" "get32 nmsg 13 = Inr len"
    using get32_be32 [OF assms(1), of "be32 13 @ [BT_MSG_REQUEST]" 5 "be32 off @ be32 len @ t"]
      get32_be32 [OF assms(2), of "be32 13 @ BT_MSG_REQUEST # be32 n" 9 "be32 len @ t"]
      get32_be32 [OF assms(3), of "be32 13 @ BT_MSG_REQUEST # be32 n @ be32 off" 13 t]
    by (simp_all add: m)
qed

lemma send_choke_ok:
  assumes "str_ok (p_ios p)" and "rq_ok (p_queue p)" and "choked (p_local p) \<noteq> c"
  shows "\<exists>r q. send_choke p c = Inr (r, q) \<and> choked (p_local q) = c \<and> rq_list (p_queue q) = []"
proof -
  let ?m = "note_msg (Choke c) p"
  obtain r q where q: "send_choke p c = Inr (r, q)" "same_but_output ?m q"
    using send_msg_emits [OF assms(1), of "Choke c"] by (auto simp: emits_def)
  have "choked (p_local ?m) = c" "rq_list (p_queue ?m) = []"
    using assms(3) clear_request_queue_spec [OF assms(2)] by simp_all
  then show ?thesis using q(1) same_but_outputD(5,8) [OF q(2)] by simp
qed

section \<open>Properties\<close>

text \<open>
  C26. Asking for a piece goes on until the queue is as long as the rate of the peer allows, or
  nothing is left to ask for. It never faults; every request it adds lies inside the piece, is
  not empty and at most 16 KiB long; and when it has added any, no more than ten are
  outstanding. The ring and the marks of the piece stay well-formed.
\<close>

theorem requests_in_piece:
  assumes "rq_ok (p_inqueue p)" and "str_ok (p_ios p)" and "asking_ok blocklen pc"
  shows "\<exists>r p' pc' new. request_loop arate blocklen p pc 0 = Inr (r, p', pc') \<and>
    rq_ok (p_inqueue p') \<and> asking_ok blocklen pc' \<and> rq_list (p_inqueue p') = rq_list (p_inqueue p) @ new \<and>
    (\<forall>x \<in> set new. rq_block x = piecenumber pc \<and> 0 \<le> rq_offset x \<and> 0 < rq_length x \<and> rq_length x \<le> 16384 \<and>
       rq_offset x + rq_length x \<le> blocklen) \<and>
    (new \<noteq> [] \<longrightarrow> length (rq_list (p_inqueue p')) \<le> 10)"
proof -
  obtain r p' pc' new where l: "request_loop arate blocklen p pc 0 = Inr (r, p', pc')" "rq_ok (p_inqueue p')"
    "asking_ok blocklen pc'" "rq_list (p_inqueue p') = rq_list (p_inqueue p) @ new"
    "list_all (request_in (piecenumber pc) blocklen) new" "new \<noteq> [] \<longrightarrow> length (rq_list (p_inqueue p')) \<le> 10"
    using request_loop_ok [OF assms, of arate 0] by blast
  have "\<forall>x \<in> set new. rq_block x = piecenumber pc \<and> 0 \<le> rq_offset x \<and> 0 < rq_length x \<and> rq_length x \<le> 16384 \<and>
      rq_offset x + rq_length x \<le> blocklen"
    using l(5) by (simp add: list_all_iff request_in_def REQUEST_SIZE_def)
  then show ?thesis using l by blast
qed

theorem requests_in_piece_witness:
  "\<exists>r p' pc' new. request_loop 2048 40000 (peer_zero demo_net)
       \<lparr>piecenumber = 7, filled = kBitSet_create 40000, nextbyteReq = 0, isdone = False, pp_buffer = []\<rparr> 0 =
       Inr (r, p', pc') \<and>
     rq_list (p_inqueue p') = new \<and> (\<forall>x \<in> set new. rq_block x = 7 \<and> rq_offset x + rq_length x \<le> 40000) \<and>
     length new \<le> 10"
proof -
  let ?pc = "\<lparr>piecenumber = 7, filled = kBitSet_create 40000, nextbyteReq = 0, isdone = False, pp_buffer = []\<rparr>"
  have "rq_ok (p_inqueue (peer_zero demo_net))" "str_ok (p_ios (peer_zero demo_net))"
    "rq_list (p_inqueue (peer_zero demo_net)) = []"
    by (simp_all add: peer_zero_def kStream_zero_def str_ok_def)
  moreover have "asking_ok 40000 ?pc" by (simp add: asking_ok_def)
  ultimately show ?thesis using requests_in_piece [of "peer_zero demo_net" 40000 ?pc 2048] by fastforce
qed



end
