(* ===== verification/Bt_Kept.thy ===== *)
theory Bt_Kept
  imports Bt_Wire
begin

text \<open>
  What the handling of messages can change. A predicate on contexts that does not look at the
  peers, and that survives the few ways in which the protocol touches the torrents and the disk,
  survives every handler, whatever the peers send. The contract is stated once as a locale; the
  theory of the whole run interprets it.
\<close>

section \<open>Steps of a file set\<close>

text \<open>
  The changes to the pieces and the disk that the protocol makes: starting a piece, storing a
  block, asking for blocks, counting what was sent.
\<close>

inductive file_step :: "btFileSet \<times> disk \<Rightarrow> btFileSet \<times> disk \<Rightarrow> bool" where
  file_idle: "file_step s s"
| file_start: "seg_getPiece fs n = Inr (p, fs') \<Longrightarrow> file_step (fs, d) (fs', d)"
| file_write: "seg_writebuf fs d n off buf len = Inr (r, fs', d') \<Longrightarrow> file_step (fs, d) (fs', d')"
| file_ask: "find_piece (partial fs) n = Some pc \<Longrightarrow>
    file_step (fs, d) (fs\<lparr>partial := update_piece (pc\<lparr>nextbyteReq := x\<rparr>) (partial fs)\<rparr>, d)"
| file_sent: "file_step (fs, d) (fs\<lparr>ul := u\<rparr>, d)"

inductive_cases file_stepE: "file_step (fs, d) (fs', d')"

text \<open>What a download is known by, apart from its file set.\<close>

definition metadata :: "btDownload \<Rightarrow> btObject option \<times> byte list \<times> byte list" where
  "metadata d = (md d, url d, infohash d)"

definition torrent_of :: "btDownload \<Rightarrow> (btObject option \<times> byte list \<times> byte list) \<times> btFileSet" where
  "torrent_of d = (metadata d, fileset d)"

lemma metadata_update [simp]:
  "metadata (d\<lparr>fileset := fs\<rparr>) = metadata d" "metadata (d\<lparr>requested := b\<rparr>) = metadata d"
  "metadata (d\<lparr>wanted := b\<rparr>) = metadata d" "metadata (d\<lparr>peerset := ps\<rparr>) = metadata d"
  "metadata (d\<lparr>reregister_interval := n\<rparr>) = metadata d" "metadata (d\<lparr>dl_complete := c\<rparr>) = metadata d"
  by (simp_all add: metadata_def)

lemma torrent_of_update [simp]:
  "torrent_of (d\<lparr>requested := b\<rparr>) = torrent_of d" "torrent_of (d\<lparr>wanted := b\<rparr>) = torrent_of d"
  "torrent_of (d\<lparr>peerset := ps\<rparr>) = torrent_of d" "torrent_of (d\<lparr>reregister_interval := n\<rparr>) = torrent_of d"
  "torrent_of (d\<lparr>dl_complete := c\<rparr>) = torrent_of d"
  by (simp_all add: torrent_of_def)

text \<open>Writing a peer and writing a download do not get in each other's way.\<close>

lemma put_dl_swap [simp]:
  "put_dl (put_peer ctx a p) i d = put_peer (put_dl ctx i d) a p"
  "put_dl (ctx\<lparr>rng := x\<rparr>) i d = (put_dl ctx i d)\<lparr>rng := x\<rparr>"
  "put_dl (ctx\<lparr>filebuffer := b\<rparr>) i d = (put_dl ctx i d)\<lparr>filebuffer := b\<rparr>"
  by (simp_all add: put_dl_def put_peer_def)

lemma get_dl_env [simp]:
  "get_dl (ctx\<lparr>rng := x\<rparr>) i = get_dl ctx i" "get_dl (ctx\<lparr>store := y\<rparr>) i = get_dl ctx i"
  "get_dl (ctx\<lparr>filebuffer := z\<rparr>) i = get_dl ctx i"
  by (simp_all add: get_dl_def)

lemma store_put [simp]: "store (put_peer ctx a p) = store ctx" "store (put_dl ctx i d) = store ctx"
  by (simp_all add: put_peer_def put_dl_def)

lemma store_same [simp]: "ctx\<lparr>store := store ctx\<rparr> = ctx" "(put_dl ctx i d)\<lparr>store := store ctx\<rparr> = put_dl ctx i d"
  by (simp_all add: put_dl_def)

text \<open>The choice of \<open>peer_assign_block\<close> starts at most one piece.\<close>

lemma picked_piece:
  "(case piece of
      None \<Rightarrow>
        bindR (bs_pickblock r h w x) (\<lambda>(blk, x).
        bindR (if blk < 0 then bs_pickblock c h w x else Inr (blk, x)) (\<lambda>(blk, x).
        if blk < 0 then Inr (None, fs, x)
        else bindR (seg_getPiece fs blk) (\<lambda>(q, fs). Inr (Some (piecenumber q), fs, x))))
    | Some n \<Rightarrow> Inr (Some n, fs, x)) = Inr (piece', fs', x') \<Longrightarrow> file_step (fs, s) (fs', s)"
  by (auto simp: bindR_Inr_iff intro: file_idle file_start split: option.splits if_splits)

text \<open>Giving up a piece moves its mark back.\<close>

lemma release_piece_step:
  "release_piece d cur = Inr d' \<Longrightarrow> file_step (fileset d, s) (fileset d', s) \<and> metadata d' = metadata d"
  using file_ask [of "fileset d" _ _ s] file_ask [of "fileset d" _ pc s "nextbyteReq pc" for pc]
  by (auto simp: release_piece_def Let_def bindR_Inr_iff intro: file_idle split: option.splits)

text \<open>Steps that only look something up, in front of the rest of a handler.\<close>

lemmas looked_up =
  holds_any [where m = "get_peer c b" for c b] holds_any [where m = "get_dl c b" for c b]
  holds_any [where m = "arr_get c b" for c b] holds_any [where m = "arr_set c b v" for c b v]
  holds_any [where m = "deref x" for x] holds_any [where m = "get32 x y" for x y]
  holds_any [where m = "bs_set x y" for x y] holds_any [where m = "bs_isFull x" for x]
  holds_any [where m = "bs_countBits x" for x] holds_any [where m = "kBitSet_readBytes x y z" for x y z]
  holds_any [where m = "cancel_all x" for x]

section \<open>The contract\<close>

locale kept =
  fixes I :: "btContext \<Rightarrow> bool"
  assumes put_peer_iff: "I (put_peer ctx a p) \<longleftrightarrow> I ctx"
    and rng_iff: "I (ctx\<lparr>rng := x\<rparr>) \<longleftrightarrow> I ctx"
    and filebuffer_iff: "I (ctx\<lparr>filebuffer := b\<rparr>) \<longleftrightarrow> I ctx"
    and same_torrent: "I ctx \<Longrightarrow> get_dl ctx i = Inr d \<Longrightarrow> torrent_of d' = torrent_of d \<Longrightarrow> I (put_dl ctx i d')"
    and file_step: "I ctx \<Longrightarrow> get_dl ctx i = Inr d \<Longrightarrow>
      file_step (fileset d, store ctx) (fileset d', dsk) \<Longrightarrow> metadata d' = metadata d \<Longrightarrow>
      I ((put_dl ctx i d')\<lparr>store := dsk\<rparr>)"
begin

lemmas plain = put_peer_iff rng_iff filebuffer_iff

text \<open>The last two laws with the torrent looked up, as the proofs below meet them.\<close>

lemma put_dl_kept:
  assumes "I ctx" and "case get_dl ctx i of Inl e \<Rightarrow> False
      | Inr d \<Rightarrow> file_step (fileset d, store ctx) (fileset d', store ctx) \<and> metadata d' = metadata d"
  shows "I (put_dl ctx i d')"
  using file_step [of ctx i _ d' "store ctx"] assms by (auto split: sum.splits)

lemma put_dl_same:
  assumes "I ctx" and "case get_dl ctx i of Inl e \<Rightarrow> False | Inr d \<Rightarrow> torrent_of d' = torrent_of d"
  shows "I (put_dl ctx i d')"
  using same_torrent assms by (auto split: sum.splits)

lemma at_peer_kept: "I ctx \<Longrightarrow> holds (\<lambda>(r, c). I c) (at_peer ctx a f)"
  by (auto simp: at_peer_def plain intro!: holds_any)

text \<open>Asking for blocks.\<close>

lemma peer_assign_block_kept:
  assumes I: "I ctx"
  shows "holds (\<lambda>(r, c). I c) (peer_assign_block ctx a)"
  using assms unfolding peer_assign_block_def Let_def
  by (auto simp: plain intro!: holds_any dest!: picked_piece [where s = "store ctx"]
      intro!: put_dl_kept split: option.split)

text \<open>The rest of \<open>peer_send_request\<close> once a piece is chosen.\<close>

lemma ask_for_piece_kept:
  assumes "I ctx"
  shows "holds (\<lambda>(r, c). I c)
    (bindR (get_peer ctx a) (\<lambda>p.
     bindR (get_dl ctx (p_download p)) (\<lambda>d.
     case find_piece (partial (fileset d)) n of
       None \<Rightarrow> Inl Oob
     | Some pc \<Rightarrow>
         bindR (seg_piecelen (fileset d) n) (\<lambda>blocklen.
         bindR (request_loop arate blocklen p pc 0) (\<lambda>(res, p, pc).
         Inr (res, put_dl (put_peer ctx a p) (p_download p)
           (d\<lparr>fileset := (fileset d)\<lparr>partial := update_piece pc (partial (fileset d))\<rparr>\<rparr>)))))))"
  using assms
  by (auto simp: plain intro!: holds_any put_dl_kept file_ask dest!: request_loop_changes split: option.split)

lemma peer_send_request_kept:
  assumes "I ctx"
  shows "holds (\<lambda>(r, c). I c) (peer_send_request ctx a)"
  unfolding peer_send_request_def Let_def
proof (rule holds_any, rule holds_any, rule holds_bind [where Q = "\<lambda>(r, c). I c"])
  show "holds (\<lambda>(r, c). I c) (case p_currentPiece p of None \<Rightarrow> peer_assign_block ctx a | Some n \<Rightarrow> Inr (Some n, ctx))" for p
    using peer_assign_block_kept [OF assms] assms by (simp split: option.split)
qed (auto intro!: ask_for_piece_kept holds_bind [OF at_peer_kept] split: option.split)

lemmas asking_kept = holds_bind [OF at_peer_kept] holds_bind [OF peer_send_request_kept]

text \<open>The messages.\<close>

lemma on_choke_kept: "I ctx \<Longrightarrow> holds (\<lambda>(r, c). I c) (on_choke ctx a)"
  by (auto simp: on_choke_def Let_def plain intro!: holds_any put_dl_kept
      dest!: release_piece_step [where s = "store ctx"])

lemma start_requests_kept: "I ctx \<Longrightarrow> holds (\<lambda>(r, c). I c) (start_requests ctx a)"
  by (auto simp: start_requests_def intro!: asking_kept)

lemma on_unchoke_kept: "I ctx \<Longrightarrow> holds (\<lambda>(r, c). I c) (on_unchoke ctx a)"
  by (auto simp: on_unchoke_def Let_def plain intro!: holds_any start_requests_kept)

lemma on_interested_kept: "I ctx \<Longrightarrow> holds (\<lambda>(r, c). I c) (on_interested ctx a i)"
  by (auto simp: on_interested_def Let_def plain intro!: holds_any put_dl_same)

lemma note_complete_kept: "I ctx \<Longrightarrow> holds I (note_complete ctx a f)"
  by (auto simp: note_complete_def Let_def plain intro!: holds_any put_dl_same)

lemma on_bitfield_kept: "I ctx \<Longrightarrow> holds (\<lambda>(r, c). I c) (on_bitfield ctx a nmsg len)"
  by (auto simp: on_bitfield_def plain intro!: looked_up holds_bind [OF note_complete_kept] asking_kept)

lemma on_have_kept: "I ctx \<Longrightarrow> holds (\<lambda>(r, c). I c) (on_have ctx a nmsg)"
  by (auto simp: on_have_def plain intro!: looked_up holds_bind [OF note_complete_kept] asking_kept start_requests_kept)

lemma on_request_kept: "I ctx \<Longrightarrow> holds (\<lambda>(r, c). I c) (on_request ctx a nmsg)"
  by (auto simp: on_request_def Let_def plain intro!: holds_any)

lemma on_cancel_kept: "I ctx \<Longrightarrow> holds (\<lambda>(r, c). I c) (on_cancel ctx a nmsg)"
  by (auto simp: on_cancel_def intro!: looked_up asking_kept)

text \<open>A piece that is complete is announced to every peer of the torrent.\<close>

lemma drop_piece_kept: "I ctx \<Longrightarrow> holds I (drop_piece ctx b pp)"
  by (auto simp: drop_piece_def plain intro!: looked_up asking_kept)

lemma tell_have_kept: "I ctx \<Longrightarrow> holds I (tell_have ctx b piece)"
  by (auto simp: tell_have_def plain intro!: holds_any)

lemma notify_all_kept: "I ctx \<Longrightarrow> holds I (notify_all ctx dlid pp piece n)"
  unfolding notify_all_def notify_peer_def
  by (rule holds_for_loop) (auto intro!: looked_up tell_have_kept holds_bind [OF drop_piece_kept])

lemma store_block_kept:
  assumes "I ctx"
  shows "holds (\<lambda>(r, c). I c) (store_block ctx a pp piece off buf len)"
proof -
  have wrote: "I ((put_dl ctx i (d\<lparr>fileset := fs\<rparr>))\<lparr>store := dsk\<rparr>)" (is ?one)
    and noted: "I (put_dl ((put_dl ctx i (d\<lparr>fileset := fs\<rparr>))\<lparr>store := dsk\<rparr>) i (d\<lparr>fileset := fs, wanted := w\<rparr>))" (is ?two)
    if "get_dl ctx i = Inr d" "seg_writebuf (fileset d) (store ctx) piece off buf len = Inr (r, fs, dsk)" for i d r fs dsk w
  proof -
    show ?one
      using file_step [OF assms that(1), of "d\<lparr>fileset := fs\<rparr>" dsk] that(2) by (simp add: file_write)
    then show ?two
      by (rule put_dl_same) (simp add: get_put_dl [OF that(1)] torrent_of_def)
  qed
  show ?thesis
    unfolding store_block_def Let_def
    by (intro looked_up holds_any [where m = "seg_writebuf x y z u v w" for x y z u v w])
      (auto simp: wrote noted intro!: holds_any [where m = "bs_clr x y" for x y] holds_bind [where Q = I]
        notify_all_kept asking_kept)
qed

lemma on_piece_kept: "I ctx \<Longrightarrow> holds (\<lambda>(r, c). I c) (on_piece ctx a nmsg len)"
  unfolding on_piece_def Let_def
  by (intro looked_up) (auto simp: plain intro!: holds_any store_block_kept)

lemma handle_message_kept: "I ctx \<Longrightarrow> holds (\<lambda>(r, c). I c) (handle_message ctx a nmsg len)"
  by (simp add: handle_message_def Let_def on_choke_kept on_unchoke_kept on_interested_kept on_have_kept
      on_bitfield_kept on_request_kept on_piece_kept on_cancel_kept)

lemma recv_peermsg_kept: "I ctx \<Longrightarrow> holds (\<lambda>(r, c). I c) (recv_peermsg ctx a)"
  by (auto simp: recv_peermsg_def intro!: looked_up holds_bind [OF at_peer_kept] holds_bind [OF handle_message_kept]
      at_peer_kept split: frame_read.split)

text \<open>The handshake.\<close>

lemma join_torrent_kept: "I ctx \<Longrightarrow> holds (\<lambda>(r, c). I c) (join_torrent ctx a i)"
  by (auto simp: join_torrent_def Let_def plain intro!: holds_any put_dl_same)

lemma check_handshake_kept: "I ctx \<Longrightarrow> holds (\<lambda>(r, c). I c) (check_handshake ctx a shake len)"
  by (auto simp: check_handshake_def Let_def intro!: looked_up at_peer_kept holds_bind [OF join_torrent_kept]
      holds_any [where m = "find_torrent x y z" for x y z])

lemma recv_handshake_kept: "I ctx \<Longrightarrow> holds (\<lambda>(r, c). I c) (recv_handshake ctx a)"
  by (auto simp: recv_handshake_def Let_def plain intro!: looked_up at_peer_kept holds_bind [OF at_peer_kept]
      holds_bind [OF check_handshake_kept] holds_die_unless put_dl_same)

lemma peer_recv_message_kept: "I ctx \<Longrightarrow> holds (\<lambda>(r, c). I c) (peer_recv_message ctx a)"
  by (auto simp: peer_recv_message_def intro!: looked_up recv_peermsg_kept holds_bind [OF recv_handshake_kept]
      at_peer_kept split: peerstates.split)

text \<open>Reading until nothing whole is left, and serving what was asked for.\<close>

lemma recv_loop_kept: "I ctx \<Longrightarrow> holds (\<lambda>(r, c). I c) (recv_loop ctx a)"
proof (induction ctx a rule: recv_loop.induct)
  case (1 ctx a)
  then show ?case
    by (subst recv_loop.simps) (auto intro!: holds_bind [OF peer_recv_message_kept])
qed

lemma process_queue_kept: "I ctx \<Longrightarrow> holds (\<lambda>(r, c). I c) (process_queue ctx a dlid)"
  by (auto simp: process_queue_def Let_def plain intro!: holds_any put_dl_kept file_sent split: option.split)

lemma client_run_kept: "I ctx \<Longrightarrow> holds (\<lambda>(r, c). I c) (client_run ctx cs cmd)"
  by (auto simp: client_run_def peer_process_queue_def intro!: looked_up holds_bind [OF recv_loop_kept]
      holds_bind [where Q = "\<lambda>(r, c). I c"] recv_loop_kept process_queue_kept)

end

end
