(* ===== verification/Bt_Run.thy ===== *)
theory Bt_Run
  imports Bt_Kept Bt_Main
begin

text \<open>
  The whole run of the client. The contract of the protocol is extended by the connection tables
  and carried through every part of the main loop: connecting, answering, closing, serving,
  choking, the tracker and the report.
\<close>

section \<open>The contract of the main loop\<close>

lemma get_dl_tables [simp]:
  "get_dl (ctx\<lparr>peers := pm\<rparr>) i = get_dl ctx i" "get_dl (ctx\<lparr>polls := ps\<rparr>) i = get_dl ctx i"
  "get_dl (ctx\<lparr>sockpeer := sp\<rparr>) i = get_dl ctx i"
  by (simp_all add: get_dl_def)

lemma put_dl_tables [simp]:
  "put_dl (ctx\<lparr>peers := pm\<rparr>) i d = (put_dl ctx i d)\<lparr>peers := pm\<rparr>"
  "put_dl (ctx\<lparr>polls := ps\<rparr>) i d = (put_dl ctx i d)\<lparr>polls := ps\<rparr>"
  "put_dl (ctx\<lparr>sockpeer := sp\<rparr>) i d = (put_dl ctx i d)\<lparr>sockpeer := sp\<rparr>"
  by (simp_all add: put_dl_def)

lemmas kernel_calls =
  holds_any [where m = "ctx_addstatus x y" for x y] holds_any [where m = "ctx_delstatus x y" for x y]
  holds_any [where m = "ctx_fixtmp x y" for x y] holds_any [where m = "ctx_setevents x y z" for x y z]
  holds_any [where m = "ctx_clrevents x y z" for x y z]

locale kept_running = kept +
  assumes peers_iff: "I (ctx\<lparr>peers := pm\<rparr>) \<longleftrightarrow> I ctx"
    and polls_iff: "I (ctx\<lparr>polls := ps\<rparr>) \<longleftrightarrow> I ctx"
    and sockpeer_iff: "I (ctx\<lparr>sockpeer := sp\<rparr>) \<longleftrightarrow> I ctx"
    and x_set_iff: "I (ctx\<lparr>x_set := xs\<rparr>) \<longleftrightarrow> I ctx"
    and xsock_iff: "I (ctx\<lparr>xsock := n\<rparr>) \<longleftrightarrow> I ctx"
    and clock_iff: "I (ctx\<lparr>clock := t\<rparr>) \<longleftrightarrow> I ctx"
begin

lemmas tables = plain peers_iff polls_iff sockpeer_iff x_set_iff xsock_iff clock_iff

lemma set_events_kept: "I ctx \<Longrightarrow> holds I (set_events ctx fd ev)"
  by (auto simp: set_events_def tables intro!: kernel_calls)

lemma clr_events_kept: "I ctx \<Longrightarrow> holds I (clr_events ctx fd ev)"
  by (auto simp: clr_events_def tables intro!: kernel_calls)

text \<open>Opening connections.\<close>

lemma peer_connect_request_kept:
  "I ctx \<Longrightarrow> holds (\<lambda>(r, c). I c \<and> downloads c = downloads ctx) (peer_connect_request ctx a k)"
  by (auto simp: peer_connect_request_def Let_def tables put_peer_def intro!: looked_up)

lemma peer_add_kept:
  assumes "I ctx"
  shows "holds (\<lambda>(r, c). I c) (peer_add ctx dlid ident ip port a k)"
proof -
  have joined: "I (put_dl c i d')"
    if "I c" "downloads c = downloads ctx" "case get_dl ctx i of Inl e \<Rightarrow> False | Inr d \<Rightarrow> torrent_of d' = torrent_of d" for c i d'
    using that(2) by (intro put_dl_same [OF that(1)]) (use that(3) in \<open>simp add: get_dl_def\<close>)
  have connect: "holds (\<lambda>(r, c). I c \<and> downloads c = downloads ctx)
      (peer_connect_request (put_peer (ctx\<lparr>polls := ps\<rparr>) a p) a k)" for ps p
    using peer_connect_request_kept [of "put_peer (ctx\<lparr>polls := ps\<rparr>) a p" a k] assms
    by (simp add: tables) (simp add: put_peer_def)
  show ?thesis
    using assms unfolding peer_add_def Let_def
    by (auto simp: tables intro!: looked_up kernel_calls holds_bind [OF connect] holds_bind [OF set_events_kept]
        holds_any [where m = "peer_send_handshake x y" for x y] holds_any [where m = "peer_send_bitfield x y" for x y]
        joined)
qed

lemma peer_answer_kept: "I ctx \<Longrightarrow> holds (\<lambda>(r, c). I c) (peer_answer ctx fd a ip getfl setfl n)"
  by (auto simp: peer_answer_def Let_def tables intro!: looked_up kernel_calls holds_bind [OF set_events_kept])

text \<open>
  The types tell the two kinds of steps apart: one that returns a context keeps the predicate,
  with a result beside it or without.
\<close>

lemmas kept_seq = holds_bind [where Q = I] holds_bind [where Q = "\<lambda>(r, c). I c"]

text \<open>Closing them.\<close>

lemma peer_shutdown_kept: "I ctx \<Longrightarrow> holds I (peer_shutdown ctx a reason)"
  by (auto simp: peer_shutdown_def Let_def tables intro!: looked_up kernel_calls kept_seq put_dl_kept
      holds_any [where m = "release_piece x y" for x y] dest!: release_piece_step split: option.split)

lemma client_finit_kept: "I ctx \<Longrightarrow> holds I (client_finit ctx cs)"
  unfolding client_finit_def Let_def
  by (intro looked_up holds_any [where f = "\<lambda>err :: byte list. k err" for k])
    (auto simp: tables intro!: looked_up kept_seq peer_shutdown_kept put_dl_same
      holds_any [where m = "peerset_remove x y" for x y])

lemma client_error_kept: "I ctx \<Longrightarrow> holds I (client_error ctx cs)"
  by (auto simp: client_error_def tables intro!: looked_up kept_seq client_finit_kept)

text \<open>Serving the sockets.\<close>

lemma client_write_kept: "I ctx \<Longrightarrow> holds (\<lambda>(r, c). I c) (client_write ctx cs failed so_error)"
  by (auto simp: client_write_def Let_def tables intro!: looked_up kept_seq set_events_kept
      holds_any [where m = "peer_send_handshake x y" for x y] holds_any [where m = "peer_send_bitfield x y" for x y]
      holds_any [where m = "kStream_flush x y" for x y] split: prod.split)

lemma watch_output_kept: "I ctx \<Longrightarrow> holds I (watch_output ctx cs a)"
  by (auto simp: watch_output_def intro!: looked_up set_events_kept)

lemma execute_socket_kept: "I ctx \<Longrightarrow> holds I (execute_socket ctx cs)"
  by (auto simp: execute_socket_def tables intro!: looked_up kept_seq client_run_kept watch_output_kept client_error_kept)

lemma serve_input_kept: "I ctx \<Longrightarrow> holds (\<lambda>(r, c). I c) (serve_input ctx cs k)"
  by (auto simp: serve_input_def tables intro!: looked_up kept_seq client_run_kept watch_output_kept peer_answer_kept)

lemma serve_output_kept: "I ctx \<Longrightarrow> holds (\<lambda>(r, c). I c) (serve_output ctx cs k)"
  by (auto simp: serve_output_def tables intro!: looked_up kept_seq client_write_kept clr_events_kept)

lemma serve_error_kept: "I ctx \<Longrightarrow> holds I (serve_error ctx cs events)"
  by (auto simp: serve_error_def intro!: looked_up kept_seq at_peer_kept)

lemma check_snubbed_kept: "I ctx \<Longrightarrow> holds I (check_snubbed ctx cs optsnub)"
  by (auto simp: check_snubbed_def tables intro!: looked_up split: option.split)

lemma serve_slot_kept: "I ctx \<Longrightarrow> holds I (serve_slot ctx i k optsnub)"
  by (auto simp: serve_slot_def Let_def intro!: looked_up holds_die_unless kept_seq serve_input_kept serve_output_kept
      serve_error_kept client_error_kept check_snubbed_kept)

lemma serve_slots_kept: "I ctx \<Longrightarrow> holds I (serve_slots ctx i env optsnub)"
proof (induction ctx i env optsnub rule: serve_slots.induct)
  case (1 ctx i env optsnub)
  then show ?case by (subst serve_slots.simps) (auto intro!: holds_bind [OF serve_slot_kept])
qed

lemma socket_pass_kept: "I ctx \<Longrightarrow> holds I (socket_pass ctx env optsnub)"
  by (auto simp: socket_pass_def intro!: kept_seq holds_for_loop execute_socket_kept serve_slots_kept)

lemma rechoke_kept: "I ctx \<Longrightarrow> holds I (rechoke ctx)"
  by (auto simp: rechoke_def peer_favorites_def tables intro!: holds_for_loop looked_up
      holds_any [where m = "choose_favorites x y" for x y] holds_any [where m = "tell_peer x y z" for x y z] split: option.split)

text \<open>The tracker.\<close>

lemma call_peer_kept: "I ctx \<Longrightarrow> holds (\<lambda>(c, n). I c) (call_peer env ctx n dlid ident ip port)"
  by (auto simp: call_peer_def intro!: holds_bind [OF peer_add_kept])

lemma listed_peer_kept: "I (fst s) \<Longrightarrow> holds (\<lambda>(c, n). I c) (listed_peer env dlid ob s)"
  by (auto simp: listed_peer_def Let_def intro!: holds_any call_peer_kept split: prod.split option.split)

lemma listed_peers_kept: "I (fst s) \<Longrightarrow> holds (\<lambda>(c, n). I c) (listed_peers env dlid obs s)"
proof (induction obs arbitrary: s)
  case (Cons ob obs)
  then show ?case by (auto intro!: holds_bind [OF listed_peer_kept])
qed (simp add: case_prod_beta)

lemma compact_peers_kept: "I (fst s) \<Longrightarrow> holds (\<lambda>(c, n). I c) (compact_peers env dlid bs s)"
proof (induction env dlid bs s rule: compact_peers.induct)
  case (1 env dlid bs s)
  show ?case
  proof (cases "length bs < 6")
    case True
    then show ?thesis using 1(2) by (subst compact_peers.simps) (simp add: case_prod_beta)
  next
    case False
    then show ?thesis using 1
      by (subst compact_peers.simps) (auto simp: Let_def intro!: holds_any [where m = "known_peer x y z" for x y z]
          holds_bind [where Q = "\<lambda>(c, n). I c"] call_peer_kept split: prod.split)
  qed
qed

lemma btresponse_kept: "I ctx \<Longrightarrow> holds (\<lambda>(r, c). I c) (btresponse env ctx dlid resp)"
  unfolding btresponse_def Let_def
  by (intro looked_up holds_any [where m = "val_string x y" for x y])
    (auto intro!: holds_any [where m = "val_integer x y" for x y] holds_any [where m = "the_ptr x" for x]
      holds_any [where m = "btObject_val x y" for x y] holds_bind [where Q = "\<lambda>(c, n). I c"] put_dl_same
      listed_peers_kept compact_peers_kept split: btObject.split)

lemma ctx_register_kept: "I ctx \<Longrightarrow> holds (\<lambda>(r, c). I c) (ctx_register env ctx dlid)"
  by (auto simp: ctx_register_def intro!: looked_up holds_any [where m = "send_announce x y z w" for x y z w]
      kept_seq btresponse_kept split: option.split)

lemma ctx_reregister_kept: "I ctx \<Longrightarrow> holds (\<lambda>(r, c). I c) (ctx_reregister env ctx dlid)"
  by (auto simp: ctx_reregister_def intro!: looked_up holds_any [where m = "send_announce x y z w" for x y z w]
      kept_seq btresponse_kept split: option.split)

lemma ctx_complete_kept: "I ctx \<Longrightarrow> holds (\<lambda>(r, c). I c) (ctx_complete env ctx dlid)"
  by (auto simp: ctx_complete_def Let_def intro!: looked_up holds_any [where m = "send_announce x y z w" for x y z w]
      holds_any [where m = "val_string x y" for x y] put_dl_same split: option.split)

text \<open>One turn of the main loop.\<close>

lemma reregister_due_kept: "I (fst s) \<Longrightarrow> holds (\<lambda>(c, tm). I c) (reregister_due env now s)"
  unfolding reregister_due_def
  by (rule holds_for_loop) (auto simp: reregister_one_def case_prod_beta intro!: looked_up
      holds_bind [OF ctx_reregister_kept] split: option.split)

lemma report_due_kept: "I ctx \<Longrightarrow> holds I (report_due env ctx)"
  by (auto simp: report_due_def for_downloads_def report_one_def intro!: holds_for_loop looked_up kept_seq ctx_complete_kept
      holds_any [where m = "check_idle x y" for x y] split: option.split)

lemma register_all_kept: "I ctx \<Longrightarrow> holds I (register_all env ctx)"
  by (auto simp: register_all_def for_downloads_def intro!: holds_for_loop looked_up kept_seq ctx_register_kept split: option.split)

lemma poll_slots_kept: "I ctx \<Longrightarrow> holds I (poll_slots ctx revents)"
  by (simp add: poll_slots_def Let_def tables split: option.split)

lemma main_pass_kept: "I (fst s) \<Longrightarrow> holds (\<lambda>(c, tm). I c) (main_pass env sv revents optsnub now s)"
  by (auto simp: main_pass_def Let_def case_prod_beta tables intro!: kept_seq poll_slots_kept socket_pass_kept
      reregister_due_kept holds_bind [where Q = "\<lambda>(c, tm). I c"] report_due_kept rechoke_kept)

lemma main_turns_kept: "I (fst s) \<Longrightarrow> holds (\<lambda>(c, tm). I c) (main_turns optsnub ts s)"
proof (induction ts arbitrary: s)
  case (Cons t ts)
  then show ?case by (auto intro!: holds_bind [OF main_pass_kept])
qed (simp add: case_prod_beta)

end

section \<open>The torrents and the disk\<close>

text \<open>The paths a torrent writes to.\<close>

definition file_paths :: "btFileSet \<Rightarrow> byte list set" where
  "file_paths fs = bf_path ` set (fs_file fs)"

definition only_writes :: "byte list set \<Rightarrow> disk \<Rightarrow> disk \<Rightarrow> bool" where
  "only_writes ps d d' \<longleftrightarrow> d_writable d' = d_writable d \<and> (\<forall>path. path \<notin> ps \<longrightarrow> d_file d' path = d_file d path)"

lemma only_writes_refl [simp]: "only_writes ps d d"
  by (simp add: only_writes_def)

lemma seg_write_files_only:
  "seg_write_files fs p files d = Inr d' \<Longrightarrow> only_writes (bf_path ` set files) d d'"
proof (induction files arbitrary: d)
  case (Cons f files)
  then obtain d1 where 1: "seg_write_file fs p f d = Inr d1" "seg_write_files fs p files d1 = Inr d'"
    by (auto simp: bindR_Inr_iff)
  have "only_writes {bf_path f} d d1"
    using 1(1) by (auto simp: seg_write_file_def openPath_create_def only_writes_def Let_def bindR_Inr_iff die_unless_Inr_iff
        split: if_splits option.splits prod.splits)
  then show ?case using Cons.IH [OF 1(2)] by (auto simp: only_writes_def)
qed simp

lemma seg_write_only:
  "holds (\<lambda>(fs', d'). layout_of fs' = layout_of fs \<and> only_writes (file_paths fs) d d') (seg_write fs p d)"
  by (auto simp: seg_write_def layout_of_def file_paths_def intro!: holds_any dest!: seg_write_files_only)

lemma seg_writebuf_only:
  "holds (\<lambda>(r, fs', d'). layout_of fs' = layout_of fs \<and> only_writes (file_paths fs) d d')
     (seg_writebuf fs d n off buf len)"
proof -
  have w: "holds (\<lambda>(fs', d'). layout_of fs' = layout_of fs \<and> only_writes (file_paths fs) d d')
      (seg_write (fs\<lparr>partial := x, dl := y, left := z\<rparr>) q d)" for x y z q
    using seg_write_only [of "fs\<lparr>partial := x, dl := y, left := z\<rparr>" d q] by (simp add: layout_of_def file_paths_def)
  have u: "layout_of (fs\<lparr>partial := x\<rparr>) = layout_of fs" for x by (simp add: layout_of_def)
  show ?thesis
    unfolding seg_writebuf_def Let_def
    by (auto simp: u intro!: holds_die_unless holds_bind [OF w] holds_any [where m = "seg_piecelen x y" for x y]
        holds_any [where m = "bs_setRange x y z" for x y z] holds_any [where f = "\<lambda>full :: bool. k full" for k] split: option.split)
qed

lemma file_step_frame:
  assumes "file_step (fs, d) (fs', d')"
  shows "layout_of fs' = layout_of fs \<and> only_writes (file_paths fs) d d'"
  using assms
proof (rule file_stepE, goal_cases)
  case (3 n off buf len r)
  then show ?case using holdsD [OF seg_writebuf_only] by fastforce
qed (auto simp: layout_of_def seg_getPiece_def Let_def bindR_Inr_iff die_unless_Inr_iff split: option.splits)

lemma ul_update [simp]:
  "layout_ok (fs\<lparr>ul := u\<rparr>) = layout_ok fs" "plen (fs\<lparr>ul := u\<rparr>) = plen fs"
  "in_range (fs\<lparr>ul := u\<rparr>) = in_range fs" "gbyte (fs\<lparr>ul := u\<rparr>) = gbyte fs"
  "stored (fs\<lparr>ul := u\<rparr>) = stored fs" "disk_ok (fs\<lparr>ul := u\<rparr>) = disk_ok fs"
  "piece_hash (fs\<lparr>ul := u\<rparr>) = piece_hash fs" "piece_data (fs\<lparr>ul := u\<rparr>) = piece_data fs"
  "pp_ok (fs\<lparr>ul := u\<rparr>) = pp_ok fs" "complete (fs\<lparr>ul := u\<rparr>) = complete fs"
  by (simp_all add: fun_eq_iff layout_ok_def plen_def in_range_def gbyte_def stored_def disk_ok_def
      piece_hash_def piece_data_def pp_ok_def complete_def)

lemma store_inv_sent [simp]: "store_inv (fs\<lparr>ul := u\<rparr>, d) = store_inv (fs, d)"
  by (simp add: store_inv_def fs_ok_def verified_def)

lemma file_step_inv:
  assumes "file_step (fs, d) (fs', d')" and "store_inv (fs, d)"
  shows "store_inv (fs', d')"
  using assms(1)
proof (rule file_stepE, goal_cases)
  case (2 n p)
  then show ?case using seg_step_inv [OF get_piece assms(2)] by simp
next
  case (3 n off buf len r)
  then show ?case using seg_step_inv [OF write_buf assms(2)] by simp
next
  case (4 n pc x)
  then have "pp_ok fs (pc\<lparr>nextbyteReq := x\<rparr>)"
    using find_pieceD [of "partial fs" n pc] assms(2) by (auto simp: store_inv_def fs_ok_def pp_ok_def)
  then show ?case using assms(2) fs_ok_update_piece 4 by (simp add: store_inv_def)
qed (use assms(2) in simp_all)

text \<open>What is written elsewhere does not touch a torrent.\<close>

lemma store_inv_elsewhere:
  assumes "store_inv (fs, d)" and "only_writes ps d d'" and "file_paths fs \<inter> ps = {}"
  shows "store_inv (fs, d')"
proof -
  have c: "d_file d' (bf_path f) = d_file d (bf_path f)" "content d' f = content d f" if "f \<in> set (fs_file fs)" for f
  proof -
    have "bf_path f \<notin> ps" using that assms(3) by (auto simp: file_paths_def)
    then show "d_file d' (bf_path f) = d_file d (bf_path f)" using assms(2) by (simp add: only_writes_def)
    then show "content d' f = content d f" by (rule content_other)
  qed
  have g: "gbyte fs d' a = gbyte fs d a" for a
  proof (cases "List.find (\<lambda>f. covers f a) (fs_file fs)")
    case (Some f)
    then have "f \<in> set (fs_file fs)" by (auto simp: find_Some_iff)
    then show ?thesis using Some c by (simp add: gbyte_def)
  qed (simp add: gbyte_def)
  have "stored fs d' x n = stored fs d x n" for x n
    by (simp add: stored_def file_holds_def c)
  moreover have "piece_data fs d' n = piece_data fs d n" for n by (simp add: piece_data_def g)
  moreover have "disk_ok fs d' = disk_ok fs d" using assms(2) by (simp add: disk_ok_def only_writes_def)
  ultimately show ?thesis using assms(1) by (simp add: store_inv_def verified_def)
qed

text \<open>
  Every torrent's pieces are stored as announced, and no two torrents share a file.
\<close>

definition store_ok :: "btContext \<Rightarrow> bool" where
  "store_ok ctx \<longleftrightarrow>
     (\<forall>j < length (downloads ctx). \<forall>d. downloads ctx ! j = Some d \<longrightarrow> store_inv (fileset d, store ctx)) \<and>
     (\<forall>j < length (downloads ctx). \<forall>k < length (downloads ctx). \<forall>d e. j \<noteq> k \<longrightarrow>
        downloads ctx ! j = Some d \<longrightarrow> downloads ctx ! k = Some e \<longrightarrow> file_paths (fileset d) \<inter> file_paths (fileset e) = {})"

lemma get_dl_Inr: "get_dl ctx i = Inr d \<longleftrightarrow> 0 \<le> i \<and> nat i < length (downloads ctx) \<and> downloads ctx ! nat i = Some d"
  by (auto simp: get_dl_def arr_get_def split: option.splits)

lemma store_ok_env:
  "downloads ctx' = downloads ctx \<Longrightarrow> store ctx' = store ctx \<Longrightarrow> store_ok ctx' = store_ok ctx"
  by (simp add: store_ok_def)

lemma store_ok_step:
  assumes ok: "store_ok ctx" and d: "get_dl ctx i = Inr d" and step: "file_step (fileset d, store ctx) (fileset d', dsk)"
  shows "store_ok ((put_dl ctx i d')\<lparr>store := dsk\<rparr>)"
proof -
  note at = d [unfolded get_dl_Inr]
  have frame: "layout_of (fileset d') = layout_of (fileset d)" "only_writes (file_paths (fileset d)) (store ctx) dsk"
    using file_step_frame [OF step] by simp_all
  have paths: "file_paths (fileset d') = file_paths (fileset d)" using frame(1) by (simp add: layout_of_def file_paths_def)
  have own: "store_inv (fileset d', dsk)" using file_step_inv [OF step] ok at by (auto simp: store_ok_def)
  have disj: "file_paths (fileset e) \<inter> file_paths (fileset f) = {}"
    if "j < length (downloads ctx)" "k < length (downloads ctx)" "j \<noteq> k" "downloads ctx ! j = Some e" "downloads ctx ! k = Some f" for j k e f
    using ok that unfolding store_ok_def by blast
  have other: "store_inv (fileset e, dsk)" if "j < length (downloads ctx)" "downloads ctx ! j = Some e" "j \<noteq> nat i" for j e
  proof (rule store_inv_elsewhere [OF _ frame(2)])
    show "store_inv (fileset e, store ctx)" using ok that by (simp add: store_ok_def)
    show "file_paths (fileset e) \<inter> file_paths (fileset d) = {}" using disj that at by blast
  qed
  have mine: "file_paths (fileset d) \<inter> file_paths (fileset e) = {}" "file_paths (fileset e) \<inter> file_paths (fileset d) = {}"
    if "j < length (downloads ctx)" "j \<noteq> nat i" "downloads ctx ! j = Some e" for j e using disj that at by blast+
  show ?thesis
    unfolding store_ok_def
    by (intro conjI allI impI; simp add: put_dl_def nth_list_update at split: if_splits)
      (use own other mine disj paths in simp_all)
qed

text \<open>The contract of the main loop holds of it.\<close>

interpretation stored_run: kept_running store_ok
proof unfold_locales
  fix ctx i d d'
  assume "store_ok ctx" "get_dl ctx i = Inr d" "torrent_of d' = torrent_of d"
  then show "store_ok (put_dl ctx i d')"
    using store_ok_step [of ctx i d d' "store ctx"] by (simp add: torrent_of_def file_idle)
next
  fix ctx i d d' dsk
  assume "store_ok ctx" "get_dl ctx i = Inr d" "file_step (fileset d, store ctx) (fileset d', dsk)" "metadata d' = metadata d"
  then show "store_ok ((put_dl ctx i d')\<lparr>store := dsk\<rparr>)" using store_ok_step by simp
qed (rule store_ok_env; simp add: put_peer_def)+

section \<open>What stays the same\<close>

text \<open>A download is its metadata, its layout and its hashes; the rest of it changes.\<close>

definition fixed_of :: "btDownload \<Rightarrow> (btObject option \<times> byte list \<times> byte list) \<times> int \<times> int \<times> int \<times> byte list \<times> btFile list" where
  "fixed_of d = (metadata d, layout_of (fileset d))"

definition torrents :: "btContext \<Rightarrow> ((btObject option \<times> byte list \<times> byte list) \<times> int \<times> int \<times> int \<times> byte list \<times> btFile list) option list" where
  "torrents ctx = map (map_option fixed_of) (downloads ctx)"

definition same_identity :: "btContext \<Rightarrow> btContext \<Rightarrow> bool" where
  "same_identity c0 ctx \<longleftrightarrow> torrents ctx = torrents c0 \<and> myid ctx = myid c0 \<and> mykey ctx = mykey c0 \<and>
     listenport ctx = listenport c0 \<and> ss ctx = ss c0"

definition same_tables :: "btContext \<Rightarrow> btContext \<Rightarrow> bool" where
  "same_tables c0 ctx \<longleftrightarrow> same_identity c0 ctx \<and> polls ctx = polls c0 \<and> sockpeer ctx = sockpeer c0 \<and>
     x_set ctx = x_set c0 \<and> xsock ctx = xsock c0 \<and> clock ctx = clock c0"

lemma torrents_put_dl: "get_dl ctx i = Inr d \<Longrightarrow> fixed_of d' = fixed_of d \<Longrightarrow> torrents (put_dl ctx i d') = torrents ctx"
  by (auto simp: torrents_def put_dl_def get_dl_Inr map_update intro!: list_update_same_conv [THEN iffD2])

lemma fixed_step: "file_step (fileset d, s) (fileset d', s') \<Longrightarrow> metadata d' = metadata d \<Longrightarrow> fixed_of d' = fixed_of d"
  using file_step_frame by (simp add: fixed_of_def)

lemma same_identity_step:
  assumes "get_dl ctx i = Inr d" and "fixed_of d' = fixed_of d"
  shows "same_identity c0 ((put_dl ctx i d')\<lparr>store := dsk\<rparr>) = same_identity c0 ctx"
    "same_identity c0 (put_dl ctx i d') = same_identity c0 ctx"
    "same_tables c0 ((put_dl ctx i d')\<lparr>store := dsk\<rparr>) = same_tables c0 ctx"
    "same_tables c0 (put_dl ctx i d') = same_tables c0 ctx"
  using torrents_put_dl [OF assms] by (simp_all add: same_tables_def same_identity_def put_dl_def torrents_def)

text \<open>Messages of peers touch neither the tables of connections nor what is downloaded.\<close>

interpretation message_frame: kept "same_tables c0" for c0
proof unfold_locales
  fix ctx i d d'
  assume "same_tables c0 ctx" "get_dl ctx i = Inr d" "torrent_of d' = torrent_of d"
  then show "same_tables c0 (put_dl ctx i d')"
    using same_identity_step(4) by (simp add: torrent_of_def fixed_of_def)
next
  fix ctx i d d' dsk
  assume "same_tables c0 ctx" "get_dl ctx i = Inr d" "file_step (fileset d, store ctx) (fileset d', dsk)" "metadata d' = metadata d"
  then show "same_tables c0 ((put_dl ctx i d')\<lparr>store := dsk\<rparr>)" using same_identity_step(3) fixed_step by simp
qed (simp_all add: same_tables_def same_identity_def torrents_def put_peer_def)

text \<open>The main loop changes the tables, but never what is downloaded.\<close>

interpretation running_frame: kept_running "same_identity c0" for c0
proof unfold_locales
  fix ctx i d d'
  assume "same_identity c0 ctx" "get_dl ctx i = Inr d" "torrent_of d' = torrent_of d"
  then show "same_identity c0 (put_dl ctx i d')"
    using same_identity_step(2) by (simp add: torrent_of_def fixed_of_def)
next
  fix ctx i d d' dsk
  assume "same_identity c0 ctx" "get_dl ctx i = Inr d" "file_step (fileset d, store ctx) (fileset d', dsk)" "metadata d' = metadata d"
  then show "same_identity c0 ((put_dl ctx i d')\<lparr>store := dsk\<rparr>)" using same_identity_step(1) fixed_step by simp
qed (simp_all add: same_identity_def torrents_def put_peer_def)

section \<open>Properties\<close>

text \<open>A client with nobody connected and half of the demonstration torrent on its disk.\<close>

definition run_ctx :: "btFileSet \<Rightarrow> btContext" where
  "run_ctx fs = empty_ctx\<lparr>downloads := [Some (demo_dl\<lparr>fileset := fs, peerset := btPeerset_create\<rparr>)], store := demo_files\<rparr>"

definition quiet_turn :: turn where
  "quiet_turn = \<lparr>t_env = \<lparr>fetch = (\<lambda>_. None), resolve = (\<lambda>_. None), dial = (\<lambda>_. undefined), behind = []\<rparr>,
     t_served = (\<lambda>_. undefined), t_revents = Some (\<lambda>_. 0), t_now = 1000\<rparr>"

lemma idle_sockets:
  assumes "x_set ctx = replicate SOCKID_MAX False" and "nstatus (polls ctx) = 0"
  shows "socket_pass ctx env optsnub = Inr ctx"
proof -
  have "\<exists>c. for_loop 0 SOCKID_MAX (\<lambda>cs ctx. execute_socket ctx (int cs)) ctx = Inr c \<and> c = ctx"
    by (rule for_loop_inv [where P = "\<lambda>_ c. c = ctx"]) (auto simp: execute_socket_def assms(1))
  then show ?thesis using assms(2) by (simp add: socket_pass_def serve_slots.simps)
qed

lemma quiet_run:
  "main_turns True [quiet_turn] (run_ctx fs, \<lparr>choke_timer = 1000, report_timer = 1000, reregister_timer = [1000]\<rparr>) =
     Inr (run_ctx fs, \<lparr>choke_timer = 1000, report_timer = 1000, reregister_timer = [1000]\<rparr>)"
proof -
  have p: "polls (run_ctx fs) = pollset_create" "x_set (run_ctx fs) = replicate SOCKID_MAX False" "clock (run_ctx fs) = 1000"
    by (simp_all add: run_ctx_def empty_ctx_def)
  have n: "nstatus pollset_create = 0" by (simp add: pollset_create_def)
  have polled: "poll_slots (run_ctx fs) (Some (\<lambda>_. 0)) = Inr (run_ctx fs)"
    using p n by (simp add: poll_slots_def Let_def)
  have "socket_pass (run_ctx fs\<lparr>clock := 1000\<rparr>) (\<lambda>_. undefined) True = Inr (run_ctx fs\<lparr>clock := 1000\<rparr>)"
    by (rule idle_sockets) (use p n in simp_all)
  moreover have "run_ctx fs\<lparr>clock := 1000\<rparr> = run_ctx fs" using p(3) by simp
  moreover have "reregister_due env 1000 (run_ctx fs, [1000]) = Inr (run_ctx fs, [1000])" for env
    by (simp add: reregister_due_def reregister_one_def run_ctx_def empty_ctx_def for_loop_step arr_get_def demo_dl_def)
  ultimately show ?thesis using polled by (simp add: main_pass_def quiet_turn_def Let_def)
qed



text \<open>
  C29. Whatever a peer sends, handling it changes nothing but the peers and the data of the
  torrents: the poll table, the map from sockets to peers, the set of sockets with more work, the
  identity of the client and what the torrents are stay as they were.
\<close>

theorem messages_leave_tables:
  assumes "recv_loop ctx a = Inr (r, ctx')"
  shows "polls ctx' = polls ctx \<and> sockpeer ctx' = sockpeer ctx \<and> x_set ctx' = x_set ctx \<and> xsock ctx' = xsock ctx \<and>
    myid ctx' = myid ctx \<and> mykey ctx' = mykey ctx \<and> listenport ctx' = listenport ctx \<and> torrents ctx' = torrents ctx"
proof -
  have "same_tables ctx ctx" by (simp add: same_tables_def same_identity_def)
  then have "same_tables ctx ctx'" using holdsD [OF message_frame.recv_loop_kept assms] by simp
  then show ?thesis by (simp add: same_tables_def same_identity_def)
qed

theorem messages_leave_tables_witness:
  "\<exists>ctx'. recv_loop (demo_ctx (reading_peer PEER_GOOD (frame [] @ [1, 2]))) 0 = Inr (0, ctx') \<and>
     pending ctx' 0 = [1, 2] \<and> polls ctx' = pollset_create \<and> myid ctx' = replicate 20 1"
proof -
  let ?p = "reading_peer PEER_GOOD (frame [] @ [1, 2])"
  obtain q where "recv_frame (junk (demo_ctx ?p)) ?p = Inr (Fr_return 0, q)" "p_pending q = [1, 2]"
    using recv_frame_keepalive [of ?p "[1, 2]"] by (auto simp: frame_def)
  then have "recv_loop (demo_ctx ?p) 0 = Inr (0, put_peer (demo_ctx ?p) 0 q) \<and> pending (put_peer (demo_ctx ?p) 0 q) 0 = [1, 2]"
    by (subst recv_loop.simps) (simp add: peer_recv_message_def recv_peermsg_def at_peer_Inr)
  then show ?thesis using messages_leave_tables [of "demo_ctx ?p" 0] by (fastforce simp: demo_ctx_def empty_ctx_def)
qed

end
