(* ===== verification/Dht_Bucket.thy ===== *)
theory Dht_Bucket
  imports Bt_Prelude
begin

text \<open>
  The contacts of the DHT node (\<open>knode.cc\<close>) and the buckets they are kept in (\<open>kbucket.cc\<close>): at most
  eight contacts in use and eight in reserve, which take the place of contacts that do not answer.
  The arrays have their eight elements and every access is checked. The theory shows that no
  operation leaves the arrays, that only contacts handed to a bucket are ever in it, and that a
  bucket never gives up a good contact. The field \<open>age\<close> of \<open>kitem_t\<close>, which no function reads or
  writes, is left out, and \<open>b_failed\<close> is counted without wrap.
\<close>

section \<open>Contacts\<close>

definition K :: nat where "K = 8"

record kitem =
  kadid :: "byte list"
  host :: "32 word"
  port :: "16 word"
  atime :: int
  failed :: int

record knode =
  b_address :: "32 word"
  b_port :: "16 word"
  b_failed :: int
  b_ident :: "byte list"
  b_birthday :: int
  b_last_seen :: int

text \<open>\<open>memcmp\<close> of two ranges of the same length; only the sign of the result is specified by C.\<close>

fun memcmp :: "byte list \<Rightarrow> byte list \<Rightarrow> int" where
  "memcmp (a # as) (b # bs) = (if a = b then memcmp as bs else if a < b then - 1 else 1)"
| "memcmp _ _ = 0"

definition nullid :: "byte list" where "nullid = replicate 20 0"

definition knode_new :: "int \<Rightarrow> byte list \<Rightarrow> 32 word \<Rightarrow> 16 word \<Rightarrow> knode" where
  "knode_new now i a p = \<lparr>b_address = a, b_port = p, b_failed = 0, b_ident = i,
     b_birthday = now, b_last_seen = 0\<rparr>"

definition knode_touch :: "int \<Rightarrow> knode \<Rightarrow> knode" where
  "knode_touch now kn = kn\<lparr>b_failed := 0, b_last_seen := now\<rparr>"

definition knode_isdoubt :: "int \<Rightarrow> knode \<Rightarrow> bool" where
  "knode_isdoubt now kn =
     (if b_last_seen kn = 0 then b_failed kn < 2
      else if b_failed kn < 3 then b_last_seen kn + 900 < now
      else False)"

definition knode_isbad :: "knode \<Rightarrow> bool" where
  "knode_isbad kn = (if b_last_seen kn = 0 then \<not> b_failed kn < 2 else \<not> b_failed kn < 3)"

definition knode_cmpid :: "knode \<Rightarrow> byte list \<Rightarrow> int" where
  "knode_cmpid kn i = memcmp i (b_ident kn)"

definition knode_set :: "int \<Rightarrow> knode \<Rightarrow> kitem \<Rightarrow> knode" where
  "knode_set now kn x =
     (if knode_cmpid kn (kadid x) \<noteq> 0 then kn\<lparr>b_birthday := now, b_ident := kadid x\<rparr> else kn)
       \<lparr>b_address := host x, b_port := port x\<rparr>"

definition knode_failed :: "knode \<Rightarrow> knode" where
  "knode_failed kn = kn\<lparr>b_failed := b_failed kn + 1\<rparr>"

definition knode_get :: "knode \<Rightarrow> kitem" where
  "knode_get kn = \<lparr>kadid = b_ident kn, host = b_address kn, port = b_port kn,
     atime = b_last_seen kn, failed = b_failed kn\<rparr>"

definition knode_isgood :: "int \<Rightarrow> knode \<Rightarrow> bool" where
  "knode_isgood now kn = (if knode_isdoubt now kn then False else b_failed kn < 3)"

section \<open>Buckets\<close>

record kbucket =
  kb_last_seen :: int
  kb_need_ping :: bool
  b_nknode :: nat
  b_knodes :: "knode list"
  b_nbackup :: nat
  b_backups :: "knode list"

text \<open>
  The constructor; the arguments are the sixteen contacts as \<open>knode()\<close> leaves them, with a random
  identifier and the rest as the memory was.
\<close>

definition kbucket_new :: "knode list \<Rightarrow> knode list \<Rightarrow> kbucket" where
  "kbucket_new ks bs = \<lparr>kb_last_seen = 0, kb_need_ping = False, b_nknode = 0, b_knodes = ks,
     b_nbackup = 0, b_backups = bs\<rparr>"

definition kbucket_touch :: "int \<Rightarrow> kbucket \<Rightarrow> kbucket" where
  "kbucket_touch now b = b\<lparr>kb_last_seen := now\<rparr>"

text \<open>\<open>contacted&&touch()\<close>: the result is always 0, the bucket is touched when \<open>contacted\<close>.\<close>

definition touch_if :: "int \<Rightarrow> bool \<Rightarrow> kbucket \<Rightarrow> int \<times> kbucket" where
  "touch_if now contacted b = (0, if contacted then kbucket_touch now b else b)"

definition new_contact :: "int \<Rightarrow> kitem \<Rightarrow> bool \<Rightarrow> knode" where
  "new_contact now x contacted =
     (let kn = knode_new now (kadid x) (host x) (port x)
      in if contacted then knode_touch now kn else kn)"

text \<open>The index of the contact with an identifier among the first \<open>n\<close> of an array.\<close>

definition find_id :: "knode list \<Rightarrow> nat \<Rightarrow> byte list \<Rightarrow> fault + nat option" where
  "find_id ks n i =
     find_loop 0 n (\<lambda>j. bindR (arr_get ks (int j)) (\<lambda>kn. Inr (knode_cmpid kn i = 0)))"

text \<open>The three loops of \<open>failed_contact\<close>.\<close>

definition purge_backups :: "byte list \<Rightarrow> nat \<Rightarrow> knode list \<Rightarrow> fault + knode list \<times> nat" where
  "purge_backups i count bs =
     for_loop 0 count (\<lambda>j (bs, n).
       bindR (arr_get bs (int j)) (\<lambda>kn.
       if knode_cmpid kn i = 0 then Inr (bs, n)
       else if knode_cmpid kn nullid = 0 then Inr (bs, n)
       else if n < j then bindR (arr_set bs (int n) kn) (\<lambda>bs. Inr (bs, n + 1))
       else Inr (bs, n + 1))) (bs, 0)"

definition latest_backup :: "knode list \<Rightarrow> nat \<Rightarrow> fault + int \<times> nat" where
  "latest_backup bs n =
     for_loop 0 n (\<lambda>j (latest, found).
       bindR (arr_get bs (int j)) (\<lambda>kn.
       if b_last_seen kn > latest then Inr (b_last_seen kn, j) else Inr (latest, found))) (0, 0)"

definition replace_failed :: "int \<Rightarrow> nat \<Rightarrow> kbucket \<Rightarrow> fault + kbucket" where
  "replace_failed now i b =
     bindR (latest_backup (b_backups b) (b_nbackup b)) (\<lambda>(_, found).
     bindR (arr_get (b_backups b) (int found)) (\<lambda>kn.
     bindR (arr_set (b_knodes b) (int i) kn) (\<lambda>ks.
     bindR (arr_set (b_backups b) (int found) (knode_new now nullid 0 0)) (\<lambda>bs.
     let b = b\<lparr>b_knodes := ks, b_backups := bs\<rparr>
     in Inr (if b_last_seen kn \<noteq> 0 then kbucket_touch now b else b)))))"

definition kb_failed_contact :: "int \<Rightarrow> kbucket \<Rightarrow> kitem \<Rightarrow> fault + kbucket" where
  "kb_failed_contact now b x =
     bindR (find_id (b_knodes b) (b_nknode b) (kadid x)) (\<lambda>r.
     bindR (case r of
         None \<Rightarrow> Inr (b_knodes b)
       | Some i \<Rightarrow> bindR (arr_get (b_knodes b) (int i)) (\<lambda>kn.
           arr_set (b_knodes b) (int i) (knode_failed kn))) (\<lambda>ks.
     bindR (purge_backups (kadid x) (b_nbackup b) (b_backups b)) (\<lambda>(bs, n).
     let b = b\<lparr>b_knodes := ks, b_backups := bs, b_nbackup := n\<rparr>
     in case r of
         None \<Rightarrow> Inr b
       | Some i \<Rightarrow> bindR (arr_get ks (int i)) (\<lambda>kn.
           if n > 0 \<and> b_last_seen kn + 900 < now then replace_failed now i b else Inr b))))"

definition kb_find_nodes :: "int \<Rightarrow> kbucket \<Rightarrow> kitem list \<Rightarrow> bool \<Rightarrow> fault + kitem list \<times> nat" where
  "kb_find_nodes now b nodes validate =
     die_unless (b_nknode b \<le> K)
       (for_loop 0 (b_nknode b) (\<lambda>i (nodes, count).
          bindR (arr_get (b_knodes b) (int i)) (\<lambda>kn.
          if \<not> validate \<or> knode_isgood now kn then
            bindR (arr_set nodes (int count) (knode_get kn)) (\<lambda>nodes. Inr (nodes, count + 1))
          else Inr (nodes, count))) (nodes, 0))"

definition oldest_backup :: "int \<Rightarrow> knode list \<Rightarrow> nat \<Rightarrow> fault + int \<times> nat" where
  "oldest_backup now bs n =
     for_loop 0 n (\<lambda>i (last, idx).
       bindR (arr_get bs (int i)) (\<lambda>kn.
       if b_last_seen kn < last then Inr (b_last_seen kn, i) else Inr (last, idx))) (now, 0)"

definition kb_update_backup :: "int \<Rightarrow> kbucket \<Rightarrow> kitem \<Rightarrow> bool \<Rightarrow> fault + kbucket" where
  "kb_update_backup now b x contacted =
     bindR (find_id (b_backups b) (b_nbackup b) (kadid x)) (\<lambda>r. case r of
       Some i \<Rightarrow>
         if contacted then
           bindR (arr_get (b_backups b) (int i)) (\<lambda>kn.
           bindR (arr_set (b_backups b) (int i) (knode_touch now kn)) (\<lambda>bs.
           Inr (b\<lparr>b_backups := bs\<rparr>)))
         else Inr b
     | None \<Rightarrow>
         if b_nbackup b < 8 then
           bindR (arr_set (b_backups b) (int (b_nbackup b)) (new_contact now x contacted)) (\<lambda>bs.
           Inr (b\<lparr>b_nbackup := b_nbackup b + 1, b_backups := bs\<rparr>))
         else
           bindR (oldest_backup now (b_backups b) (b_nbackup b)) (\<lambda>(_, idx).
           bindR (arr_get (b_backups b) (int idx)) (\<lambda>kn.
           if contacted \<or> b_last_seen kn = 0 then
             bindR (arr_set (b_backups b) (int idx) (new_contact now x contacted)) (\<lambda>bs.
             Inr (b\<lparr>b_backups := bs\<rparr>))
           else Inr b)))"

definition kb_update_contact :: "int \<Rightarrow> kbucket \<Rightarrow> kitem \<Rightarrow> bool \<Rightarrow> fault + int \<times> kbucket" where
  "kb_update_contact now b x contacted =
     bindR (find_id (b_knodes b) (b_nknode b) (kadid x)) (\<lambda>r. case r of
       Some i \<Rightarrow>
         bindR (arr_get (b_knodes b) (int i)) (\<lambda>kn.
         let kn = knode_set now kn x
         in bindR (arr_set (b_knodes b) (int i) (if contacted then knode_touch now kn else kn)) (\<lambda>ks.
         Inr (touch_if now contacted (b\<lparr>b_knodes := ks\<rparr>))))
     | None \<Rightarrow>
         if b_nknode b < K then
           bindR (arr_set (b_knodes b) (int (b_nknode b)) (new_contact now x contacted)) (\<lambda>ks.
           Inr (touch_if now contacted (b\<lparr>b_nknode := b_nknode b + 1, b_knodes := ks\<rparr>)))
         else
           bindR (find_loop 0 (b_nknode b) (\<lambda>j.
             bindR (arr_get (b_knodes b) (int j)) (\<lambda>kn. Inr (knode_isbad kn)))) (\<lambda>bad. case bad of
             Some i \<Rightarrow>
               bindR (arr_set (b_knodes b) (int i) (new_contact now x contacted)) (\<lambda>ks.
               Inr (touch_if now contacted (b\<lparr>b_knodes := ks\<rparr>)))
           | None \<Rightarrow>
               bindR (find_loop 0 (b_nknode b) (\<lambda>j.
                 bindR (arr_get (b_knodes b) (int j)) (\<lambda>kn. Inr (knode_isdoubt now kn)))) (\<lambda>doubt.
               if doubt = None then Inr (0, b\<lparr>b_nbackup := 0\<rparr>)
               else bindR (kb_update_backup now b x contacted) (\<lambda>b.
                 Inr (0, b\<lparr>kb_need_ping := True\<rparr>)))))"

text \<open>\<open>get_ping\<close> writes behind \<open>items + base\<close>.\<close>

definition kb_get_ping :: "int \<Rightarrow> kbucket \<Rightarrow> kitem list \<Rightarrow> nat \<Rightarrow> nat \<Rightarrow> fault + kbucket \<times> kitem list \<times> nat" where
  "kb_get_ping now b items base sz =
     (let real_size = (if sz > b_nbackup b then b_nbackup b else sz)
      in if sz = 0 then Inr (b, items, 0)
      else for_loop 0 (b_nknode b) (\<lambda>i (b, items, count).
        if count < real_size then
          bindR (arr_get (b_knodes b) (int i)) (\<lambda>kn.
          if knode_isdoubt now kn then
            bindR (arr_set items (int (base + count)) (knode_get kn)) (\<lambda>items.
            Inr (b\<lparr>kb_need_ping := True\<rparr>, items, count + 1))
          else Inr (b, items, count))
        else Inr (b, items, count)) (b\<lparr>kb_need_ping := False\<rparr>, items, 0))"

section \<open>Identifiers\<close>

lemma memcmp_eq_0 [simp]: "length a = length b \<Longrightarrow> memcmp a b = 0 \<longleftrightarrow> a = b"
  by (induction a b rule: memcmp.induct) auto

lemma length_nullid [simp]: "length nullid = 20"
  by (simp add: nullid_def)

lemma knode_cmpid_eq_0 [simp]:
  "length i = 20 \<Longrightarrow> length (b_ident kn) = 20 \<Longrightarrow> knode_cmpid kn i = 0 \<longleftrightarrow> b_ident kn = i"
  by (auto simp: knode_cmpid_def)

lemma b_ident_simps [simp]:
  "b_ident (knode_new now i a p) = i" "b_ident (knode_touch now kn) = b_ident kn"
  "b_ident (knode_failed kn) = b_ident kn" "b_ident (new_contact now x c) = kadid x"
  by (simp_all add: knode_new_def knode_touch_def knode_failed_def new_contact_def Let_def)

lemma b_ident_set [simp]:
  "length (kadid x) = 20 \<Longrightarrow> length (b_ident kn) = 20 \<Longrightarrow> b_ident (knode_set now kn x) = kadid x"
  by (auto simp: knode_set_def)

lemma knode_set_known:
  "length (kadid x) = 20 \<Longrightarrow> b_ident kn = kadid x \<Longrightarrow>
     knode_set now kn x = kn\<lparr>b_address := host x, b_port := port x\<rparr>"
  by (simp add: knode_set_def)

section \<open>What a bucket holds\<close>

definition nodes :: "kbucket \<Rightarrow> knode list" where
  "nodes b = take (b_nknode b) (b_knodes b)"

definition backups :: "kbucket \<Rightarrow> knode list" where
  "backups b = take (b_nbackup b) (b_backups b)"

text \<open>
  The arrays have their size, the counts are within it, and the identifiers satisfy \<open>P\<close>; a contact
  in reserve may have been replaced by an empty one.
\<close>

definition sized :: "kbucket \<Rightarrow> bool" where
  "sized b \<longleftrightarrow> length (b_knodes b) = 8 \<and> length (b_backups b) = 8 \<and> b_nknode b \<le> 8 \<and> b_nbackup b \<le> 8"

definition ids_ok :: "(byte list \<Rightarrow> bool) \<Rightarrow> knode list \<Rightarrow> nat \<Rightarrow> bool" where
  "ids_ok P ks n \<longleftrightarrow> n \<le> length ks \<and> (\<forall>i<n. P (b_ident (ks ! i)))"

definition bucket_ok :: "(byte list \<Rightarrow> bool) \<Rightarrow> kbucket \<Rightarrow> bool" where
  "bucket_ok P b \<longleftrightarrow> sized b \<and> ids_ok P (b_knodes b) (b_nknode b) \<and>
     ids_ok (\<lambda>i. i = nullid \<or> P i) (b_backups b) (b_nbackup b)"

lemma ids_ok_update: "ids_ok P ks n \<Longrightarrow> P (b_ident kn) \<Longrightarrow> ids_ok P (ks[i := kn]) n"
  by (cases "i < length ks") (auto simp: ids_ok_def nth_list_update)

lemma ids_ok_same:
  "ids_ok P ks n \<Longrightarrow> i < n \<Longrightarrow> b_ident kn = b_ident (ks ! i) \<Longrightarrow> ids_ok P (ks[i := kn]) n"
  by (rule ids_ok_update) (auto simp: ids_ok_def)

lemma ids_ok_add:
  "ids_ok P ks n \<Longrightarrow> P (b_ident kn) \<Longrightarrow> n < length ks \<Longrightarrow> ids_ok P (ks[n := kn]) (Suc n)"
  by (auto simp: ids_ok_def nth_list_update less_Suc_eq)

lemma ids_okD: "ids_ok P ks n \<Longrightarrow> i < n \<Longrightarrow> i < length ks \<and> P (b_ident (ks ! i))"
  by (simp add: ids_ok_def)

lemma ids_ok_0 [simp]: "ids_ok P ks 0"
  by (simp add: ids_ok_def)

definition is_id :: "byte list \<Rightarrow> bool" where
  "is_id i \<longleftrightarrow> length i = 20"

lemma gives_find_id:
  assumes "ids_ok is_id ks n" and "is_id i"
  shows "gives (first_index 0 n (\<lambda>j. b_ident (ks ! j) = i)) (find_id ks n i)"
  unfolding find_id_def
  by (rule gives_find_loop) (use assms in \<open>auto simp: is_id_def dest!: ids_okD\<close>)

section \<open>Who is admitted\<close>

text \<open>
  The contacts in use as a list. A contact that is known is refreshed, there is room for up to
  eight, and in a full bucket a newcomer takes the place of the first bad contact, if there is one.
\<close>

fun replace_first :: "('a \<Rightarrow> bool) \<Rightarrow> ('a \<Rightarrow> 'a) \<Rightarrow> 'a list \<Rightarrow> 'a list" where
  "replace_first P f [] = []"
| "replace_first P f (x # xs) = (if P x then f x # xs else x # replace_first P f xs)"

definition refresh :: "int \<Rightarrow> kitem \<Rightarrow> bool \<Rightarrow> knode \<Rightarrow> knode" where
  "refresh now x contacted kn =
     (let kn = kn\<lparr>b_address := host x, b_port := port x\<rparr>
      in if contacted then knode_touch now kn else kn)"

definition admit :: "int \<Rightarrow> knode list \<Rightarrow> kitem \<Rightarrow> bool \<Rightarrow> knode list" where
  "admit now ks x contacted =
     (if \<exists>kn\<in>set ks. b_ident kn = kadid x then
        replace_first (\<lambda>kn. b_ident kn = kadid x) (refresh now x contacted) ks
      else if length ks < 8 then ks @ [new_contact now x contacted]
      else replace_first knode_isbad (\<lambda>_. new_contact now x contacted) ks)"

lemma replace_first_at:
  "i < length xs \<Longrightarrow> P (xs ! i) \<Longrightarrow> \<forall>j<i. \<not> P (xs ! j) \<Longrightarrow> replace_first P f xs = xs[i := f (xs ! i)]"
proof (induction xs arbitrary: i)
  case (Cons x xs)
  show ?case
  proof (cases i)
    case (Suc k)
    then have "\<not> P x" "\<forall>j<k. \<not> P (xs ! j)" using Cons.prems(3) by fastforce+
    with Suc Cons show ?thesis by simp
  qed (use Cons in simp)
qed simp

lemma replace_first_none: "\<forall>x\<in>set xs. \<not> P x \<Longrightarrow> replace_first P f xs = xs"
  by (induction xs) auto

lemma replace_first_keeps: "x \<in> set xs \<Longrightarrow> \<not> P x \<Longrightarrow> x \<in> set (replace_first P f xs)"
  by (induction xs) auto

lemma length_replace_first [simp]: "length (replace_first P f xs) = length xs"
  by (induction xs) auto

lemma admit_known:
  "i < length ks \<Longrightarrow> b_ident (ks ! i) = kadid x \<Longrightarrow> \<forall>j<i. b_ident (ks ! j) \<noteq> kadid x \<Longrightarrow>
     admit now ks x c = ks[i := refresh now x c (ks ! i)]"
  by (simp add: admit_def replace_first_at) (metis nth_mem)

lemma admit_room:
  "\<forall>kn\<in>set ks. b_ident kn \<noteq> kadid x \<Longrightarrow> length ks < 8 \<Longrightarrow> admit now ks x c = ks @ [new_contact now x c]"
  by (auto simp: admit_def)

lemma admit_full_bad:
  "\<forall>kn\<in>set ks. b_ident kn \<noteq> kadid x \<Longrightarrow> length ks = 8 \<Longrightarrow> i < 8 \<Longrightarrow> knode_isbad (ks ! i) \<Longrightarrow>
     \<forall>j<i. \<not> knode_isbad (ks ! j) \<Longrightarrow> admit now ks x c = ks[i := new_contact now x c]"
  by (auto simp: admit_def replace_first_at)

lemma admit_full_good:
  "\<forall>kn\<in>set ks. b_ident kn \<noteq> kadid x \<Longrightarrow> length ks = 8 \<Longrightarrow> \<forall>kn\<in>set ks. \<not> knode_isbad kn \<Longrightarrow>
     admit now ks x c = ks"
  by (auto simp: admit_def replace_first_none)

section \<open>Operations keep the bucket in order\<close>

locale bucket_ids =
  fixes P :: "byte list \<Rightarrow> bool"
  assumes ids: "P i \<Longrightarrow> is_id i"
begin

lemma ids_ok_is_id: "ids_ok P ks n \<Longrightarrow> ids_ok is_id ks n"
  by (auto simp: ids_ok_def intro: ids)

lemma ids_ok_is_id_null: "ids_ok (\<lambda>i. i = nullid \<or> P i) ks n \<Longrightarrow> ids_ok is_id ks n"
  by (auto simp: ids_ok_def is_id_def intro: ids [unfolded is_id_def])

lemma purge_backups_ok:
  assumes "ids_ok (\<lambda>i. i = nullid \<or> P i) bs count" and "is_id i" and "length bs = 8"
  shows "gives (\<lambda>(bs', n). length bs' = 8 \<and> n \<le> count \<and> ids_ok P bs' n) (purge_backups i count bs)"
proof -
  let ?I = "\<lambda>j (bs', n). length bs' = 8 \<and> n \<le> j \<and> ids_ok P bs' n
    \<and> (\<forall>k. j \<le> k \<and> k < count \<longrightarrow> bs' ! k = bs ! k)"
  have "gives (?I count) (purge_backups i count bs)"
    unfolding purge_backups_def
  proof (rule gives_for_loop [where P = ?I], goal_cases)
    case (3 j s)
    obtain bs' n where s: "s = (bs', n)" by (cases s)
    have b: "bs' ! j = bs ! j" "j < 8" "length (b_ident (bs ! j)) = 20"
      using 3 assms ids_okD [OF ids_ok_is_id_null [OF assms(1)], of j] by (auto simp: s is_id_def)
    have P: "b_ident (bs ! j) = nullid \<or> P (b_ident (bs ! j))"
      using ids_okD [OF assms(1)] 3 by auto
    have keep: "ids_ok P bs' (Suc n)" if "n = j" "P (b_ident (bs ! j))"
      using 3 that b by (auto simp: s ids_ok_def less_Suc_eq)
    show ?case
      using 3 b P keep assms(2)
      by (auto simp: s is_id_def ids_ok_add nth_list_update)
  qed (use assms in auto)
  then show ?thesis by (rule gives_mono) auto
qed

lemma latest_backup_ok:
  assumes "n \<le> length bs" and "0 < n"
  shows "gives (\<lambda>(_, found). found < n) (latest_backup bs n)"
proof -
  have "gives (\<lambda>(_, found). found < n) (for_loop 0 n (\<lambda>j (latest, found).
       bindR (arr_get bs (int j)) (\<lambda>kn.
       if b_last_seen kn > latest then Inr (b_last_seen kn, j) else Inr (latest, found))) (0, 0))"
    by (rule gives_for_loop) (use assms in auto)
  then show ?thesis by (simp add: latest_backup_def)
qed

lemma oldest_backup_ok:
  assumes "n \<le> length bs" and "0 < n"
  shows "gives (\<lambda>(_, found). found < n) (oldest_backup now bs n)"
proof -
  have "gives (\<lambda>(_, found). found < n) (for_loop 0 n (\<lambda>j (latest, found).
       bindR (arr_get bs (int j)) (\<lambda>kn.
       if b_last_seen kn < latest then Inr (b_last_seen kn, j) else Inr (latest, found))) (now, 0))"
    by (rule gives_for_loop) (use assms in auto)
  then show ?thesis by (simp add: oldest_backup_def)
qed

lemma replace_failed_ok:
  assumes "sized b" and "i < b_nknode b" and "0 < b_nbackup b"
    and "ids_ok P (b_knodes b) (b_nknode b)" and "ids_ok P (b_backups b) (b_nbackup b)"
  shows "gives (\<lambda>b'. bucket_ok P b' \<and> b_nknode b' = b_nknode b) (replace_failed now i b)"
  unfolding replace_failed_def
proof (rule gives_bind [OF latest_backup_ok], goal_cases)
  case (3 r)
  obtain l found where r: "r = (l, found)" by (cases r)
  have f: "found < length (b_backups b)" "P (b_ident (b_backups b ! found))" "i < length (b_knodes b)"
    using 3 assms by (auto simp: r sized_def dest: ids_okD)
  have "ids_ok (\<lambda>i. i = nullid \<or> P i) ((b_backups b)[found := knode_new now nullid 0 0]) (b_nbackup b)"
    using assms(5) by (intro ids_ok_update) (auto simp: ids_ok_def)
  then show ?case
    using f assms by (auto simp: r Let_def bucket_ok_def sized_def kbucket_touch_def intro: ids_ok_update)
qed (use assms in \<open>auto simp: sized_def\<close>)

lemma kb_failed_contact_ok:
  assumes "bucket_ok P b" and "is_id (kadid x)"
  shows "gives (\<lambda>b'. bucket_ok P b' \<and> b_nknode b' = b_nknode b) (kb_failed_contact now b x)"
proof -
  have b: "sized b" "ids_ok P (b_knodes b) (b_nknode b)"
    "ids_ok (\<lambda>i. i = nullid \<or> P i) (b_backups b) (b_nbackup b)" "length (b_backups b) = 8"
    using assms by (auto simp: bucket_ok_def sized_def)
  let ?K = "\<lambda>ks. length ks = 8 \<and> ids_ok P ks (b_nknode b)"
  show ?thesis
    unfolding kb_failed_contact_def
  proof (rule gives_bind [OF gives_find_id [OF ids_ok_is_id [OF b(2)] assms(2)]],
      rule gives_bind [where Q = ?K], goal_cases)
    case (1 r)
    then show ?case
      using b by (auto simp: first_index_def sized_def intro!: ids_ok_same split: option.splits)
  next
    case (2 r ks)
    show ?case
    proof (rule gives_bind [OF purge_backups_ok [OF b(3) assms(2) b(4)]], goal_cases)
      case (1 s)
      obtain bs n where s: "s = (bs, n)" by (cases s)
      have n: "length bs = 8" "n \<le> b_nbackup b" "ids_ok P bs n"
        using 1 by (auto simp: s)
      let ?b = "b\<lparr>b_knodes := ks, b_backups := bs, b_nbackup := n\<rparr>"
      have ok: "bucket_ok P ?b"
        using n b 2 by (auto simp: bucket_ok_def sized_def ids_ok_def)
      show ?case
      proof (cases r)
        case None
        with ok show ?thesis by (simp add: s)
      next
        case (Some i)
        then have i: "i < b_nknode b" "i < length ks"
          using 2 b by (auto simp: first_index_def sized_def)
        have "gives (\<lambda>b'. bucket_ok P b' \<and> b_nknode b' = b_nknode b) (replace_failed now i ?b)" if "0 < n"
          using replace_failed_ok [of ?b i now] that ok i n 2 by (auto simp: bucket_ok_def)
        then show ?thesis
          using ok i by (auto simp: s Some Let_def)
      qed
    qed
  qed
qed

lemma kb_update_backup_ok:
  assumes "bucket_ok P b" and "P (kadid x)"
  shows "gives (\<lambda>b'. bucket_ok P b' \<and> b_nknode b' = b_nknode b \<and> b_knodes b' = b_knodes b)
    (kb_update_backup now b x contacted)"
proof -
  have b: "sized b" "ids_ok P (b_knodes b) (b_nknode b)"
    "ids_ok (\<lambda>i. i = nullid \<or> P i) (b_backups b) (b_nbackup b)"
    using assms by (auto simp: bucket_ok_def)
  show ?thesis
    unfolding kb_update_backup_def
  proof (rule gives_bind [OF gives_find_id [OF ids_ok_is_id_null [OF b(3)] ids [OF assms(2)]]], goal_cases)
    case (1 r)
    show ?case
    proof (cases r)
      case (Some i)
      then have "i < length (b_backups b)" "b_ident (b_backups b ! i) = kadid x"
        using 1 b by (auto simp: first_index_def sized_def)
      then show ?thesis
        using b assms by (auto simp: Some bucket_ok_def sized_def intro!: ids_ok_update)
    next
      case None
      show ?thesis
      proof (cases "b_nbackup b < 8")
        case True
        then show ?thesis
          using b assms by (auto simp: None bucket_ok_def sized_def intro!: ids_ok_add)
      next
        case False
        then have "b_nbackup b = 8" using b by (simp add: sized_def)
        then show ?thesis
          using b assms
          by (auto simp: None bucket_ok_def sized_def intro!: gives_bind [OF oldest_backup_ok] ids_ok_update)
      qed
    qed
  qed
qed

lemma kb_update_contact_ok:
  assumes "bucket_ok P b" and "P (kadid x)"
  shows "gives (\<lambda>(r, b'). bucket_ok P b' \<and> r = 0 \<and> b_nknode b \<le> b_nknode b'
      \<and> nodes b' = admit now (nodes b) x contacted)
    (kb_update_contact now b x contacted)"
proof -
  have b: "length (b_knodes b) = 8" "length (b_backups b) = 8" "b_nknode b \<le> 8" "b_nbackup b \<le> 8"
    "ids_ok P (b_knodes b) (b_nknode b)"
    "ids_ok (\<lambda>i. i = nullid \<or> P i) (b_backups b) (b_nbackup b)" "length (kadid x) = 20"
    using assms ids [OF assms(2)] by (auto simp: bucket_ok_def sized_def is_id_def)
  have len: "length (nodes b) = b_nknode b" using b by (simp add: nodes_def)
  show ?thesis
    unfolding kb_update_contact_def
  proof (rule gives_bind [OF gives_find_id [OF ids_ok_is_id [OF b(5)] ids [OF assms(2)]]], goal_cases)
    case (1 r)
    show ?case
    proof (cases r)
      case (Some i)
      with 1 b have i: "i < b_nknode b" "i < 8" "b_ident (b_knodes b ! i) = kadid x"
        "\<forall>j<i. b_ident (b_knodes b ! j) \<noteq> kadid x"
        by (auto simp: first_index_def)
      then have "admit now (nodes b) x contacted = (nodes b)[i := refresh now x contacted (b_knodes b ! i)]"
        using len b admit_known [of i "nodes b" x now contacted] by (simp add: nodes_def)
      then show ?thesis
        using b i assms(2)
        by (auto simp: Some Let_def touch_if_def kbucket_touch_def bucket_ok_def sized_def nodes_def
            refresh_def knode_set_known take_update_swap intro!: ids_ok_same)
    next
      case None
      then have new: "\<forall>kn\<in>set (nodes b). b_ident kn \<noteq> kadid x"
        using 1 b by (auto simp: first_index_def nodes_def in_set_conv_nth)
      show ?thesis
      proof (cases "b_nknode b < 8")
        case True
        then show ?thesis
          using b assms(2) new len
          by (auto simp: None K_def touch_if_def kbucket_touch_def bucket_ok_def sized_def nodes_def
              take_Suc_conv_app_nth admit_room intro!: ids_ok_add)
      next
        case False
        with b have n: "b_nknode b = 8" by simp
        have all: "nodes b = b_knodes b" using b n by (simp add: nodes_def)
        have first: "gives (first_index 0 8 (\<lambda>j. Q (b_knodes b ! j)))
          (find_loop 0 8 (\<lambda>j. bindR (arr_get (b_knodes b) (int j)) (\<lambda>kn. Inr (Q kn))))" for Q
          by (rule gives_find_loop) (use b in auto)
        show ?thesis
          unfolding None option.case(1) n K_def
        proof (simp, rule gives_bind [OF first], goal_cases)
          case (1 bad)
          show ?case
          proof (cases bad)
            case (Some i)
            with 1 b have i: "i < 8" "knode_isbad (b_knodes b ! i)" "\<forall>j<i. \<not> knode_isbad (b_knodes b ! j)"
              by (auto simp: first_index_def)
            then have "admit now (nodes b) x contacted = (nodes b)[i := new_contact now x contacted]"
              using b n new by (intro admit_full_bad) (auto simp: all)
            then show ?thesis
              using b i n assms(2)
              by (auto simp: Some touch_if_def kbucket_touch_def bucket_ok_def sized_def nodes_def
                  take_update_swap intro!: ids_ok_update)
          next
            case None
            with 1 b have "\<forall>kn\<in>set (nodes b). \<not> knode_isbad kn"
              by (auto simp: first_index_def all in_set_conv_nth)
            then have same: "admit now (nodes b) x contacted = nodes b"
              using n new b by (intro admit_full_good) (auto simp: all)
            show ?thesis
              unfolding None option.case(1)
            proof (rule gives_bind [OF first], goal_cases)
              case (1 doubt)
              show ?case
                using b n assms same
                by (auto simp: bucket_ok_def sized_def nodes_def intro!: gives_bind [OF kb_update_backup_ok])
            qed
          qed
        qed
      qed
    qed
  qed
qed

lemma kb_get_ping_ok:
  assumes "bucket_ok P b" and "base + sz \<le> length items"
  shows "gives (\<lambda>(b', items', n). bucket_ok P b' \<and> nodes b' = nodes b \<and> b_nknode b' = b_nknode b
      \<and> length items' = length items \<and> n \<le> sz)
    (kb_get_ping now b items base sz)"
proof (cases "sz = 0")
  case False
  let ?I = "\<lambda>(_::nat) (b', items', n). (b' = b\<lparr>kb_need_ping := False\<rparr> \<or> b' = b\<lparr>kb_need_ping := True\<rparr>)
    \<and> length items' = length items \<and> n \<le> sz"
  have b: "length (b_knodes b) = 8" "b_nknode b \<le> 8" using assms by (auto simp: bucket_ok_def sized_def)
  show ?thesis
    unfolding kb_get_ping_def Let_def if_not_P [OF False]
  proof (rule gives_mono [OF gives_for_loop [where P = ?I]], goal_cases)
    case (3 i t)
    then show ?case using b assms(2) by (auto split: prod.splits if_splits simp del: of_nat_add)
  next
    case (4 r)
    then show ?case using assms(1) by (auto simp: bucket_ok_def sized_def nodes_def)
  qed auto
qed (use assms in \<open>simp add: kb_get_ping_def\<close>)

end

section \<open>Reading a bucket\<close>

definition answers :: "int \<Rightarrow> bool \<Rightarrow> kbucket \<Rightarrow> kitem list" where
  "answers now validate b = map knode_get (filter (\<lambda>kn. \<not> validate \<or> knode_isgood now kn) (nodes b))"

lemma blit_snoc:
  "length xs < length dst \<Longrightarrow> (blit dst 0 xs)[length xs := y] = blit dst 0 (xs @ [y])"
  by (simp add: blit_def list_update_append Cons_nth_drop_Suc [symmetric])

lemma length_answers: "sized b \<Longrightarrow> length (answers now validate b) \<le> 8"
  using length_filter_le [of "\<lambda>kn. \<not> validate \<or> knode_isgood now kn" "nodes b"]
  by (simp add: answers_def nodes_def sized_def)

lemma kb_find_nodes_result:
  assumes "sized b" and "8 \<le> length out"
  shows "kb_find_nodes now b out validate =
    Inr (blit out 0 (answers now validate b), length (answers now validate b))"
proof -
  let ?ans = "\<lambda>i. map knode_get (filter (\<lambda>kn. \<not> validate \<or> knode_isgood now kn) (take i (b_knodes b)))"
  have b: "length (b_knodes b) = 8" "b_nknode b \<le> 8" using assms by (auto simp: sized_def)
  have short: "length (?ans i) \<le> i" for i
    using length_filter_le [of "\<lambda>kn. \<not> validate \<or> knode_isgood now kn" "take i (b_knodes b)"] by simp
  have "gives (\<lambda>s. s = (blit out 0 (?ans (b_nknode b)), length (?ans (b_nknode b))))
    (for_loop 0 (b_nknode b) (\<lambda>i (nodes, count).
          bindR (arr_get (b_knodes b) (int i)) (\<lambda>kn.
          if \<not> validate \<or> knode_isgood now kn then
            bindR (arr_set nodes (int count) (knode_get kn)) (\<lambda>nodes. Inr (nodes, count + 1))
          else Inr (nodes, count))) (out, 0))"
  proof (rule gives_for_loop [where P = "\<lambda>i s. s = (blit out 0 (?ans i), length (?ans i))"], goal_cases)
    case (3 i s)
    have "length (?ans i) < length out" using short [of i] 3 b assms(2) by linarith
    with 3 b show ?case
      by (auto simp: take_Suc_conv_app_nth blit_snoc [symmetric])
  qed simp_all
  with b show ?thesis
    by (simp add: kb_find_nodes_def K_def gives_iff answers_def nodes_def)
qed

section \<open>Properties\<close>

interpretation any_id: bucket_ids is_id
  by unfold_locales

lemma admit_keeps:
  "kn \<in> set ks \<Longrightarrow> \<not> knode_isbad kn \<Longrightarrow> b_ident kn \<noteq> kadid x \<Longrightarrow> kn \<in> set (admit now ks x c)"
  by (auto simp: admit_def replace_first_keeps)

text \<open>
  C32. \<open>kbucket::update_contact\<close> is the admission of a contact to a list of at most eight: a contact
  that is known is refreshed where it is, a new one is appended while there is room, and in a full
  bucket it takes the place of the first bad contact or is not admitted. So no contact that still
  answers is ever given up for a newcomer.
\<close>

theorem update_contact_admits:
  assumes "bucket_ok is_id b" and "is_id (kadid x)"
  shows "gives (\<lambda>(r, b'). r = 0 \<and> bucket_ok is_id b' \<and> nodes b' = admit now (nodes b) x contacted
      \<and> (\<forall>kn\<in>set (nodes b). knode_isbad kn \<or> b_ident kn = kadid x \<or> kn \<in> set (nodes b')))
    (kb_update_contact now b x contacted)"
  by (rule gives_mono [OF any_id.kb_update_contact_ok [OF assms]]) (auto intro: admit_keeps)

definition demo_id :: "nat \<Rightarrow> byte list" where
  "demo_id n = of_nat n # replicate 19 0"

definition demo_bucket :: kbucket where
  "demo_bucket =
     (let ks = map (\<lambda>n. (knode_new 0 (demo_id n) 0 0)\<lparr>b_failed := (if n = 5 then 2 else 0)\<rparr>) [1..<9]
      in (kbucket_new ks ks)\<lparr>b_nknode := 8\<rparr>)"

theorem update_contact_admits_witness:
  "gives (\<lambda>(r, b'). map b_ident (nodes b') = map demo_id [1, 2, 3, 4, 9, 6, 7, 8])
    (kb_update_contact 1000 demo_bucket \<lparr>kadid = demo_id 9, host = 1, port = 2, atime = 0, failed = 0\<rparr> True)"
proof -
  let ?x = "\<lparr>kadid = demo_id 9, host = 1, port = 2, atime = 0, failed = 0\<rparr>"
  have "bucket_ok is_id demo_bucket" "is_id (kadid ?x)"
    by code_simp+
  moreover have "map b_ident (admit 1000 (nodes demo_bucket) ?x True) = map demo_id [1, 2, 3, 4, 9, 6, 7, 8]"
    by code_simp
  ultimately show ?thesis
    by (intro gives_mono [OF update_contact_admits]) auto
qed

text \<open>
  A contact can come into a bucket twice: it waits in reserve, takes the place of a bad contact
  without leaving the reserve, and is copied from there when another contact fails.
\<close>

lemma contact_twice:
  "(let b0 = demo_bucket\<lparr>b_knodes := map (\<lambda>n. (knode_new 0 (demo_id n) 0 0)
          \<lparr>b_last_seen := (if n = 2 then 0 else 1000)\<rparr>) [1..<9]\<rparr>;
        x = (\<lambda>n. \<lparr>kadid = demo_id n, host = 1, port = 2, atime = 0, failed = 0\<rparr>)
    in gives (\<lambda>b. map b_ident (nodes b) = map demo_id [9, 9, 3, 4, 5, 6, 7, 8])
      (bindR (kb_update_contact 1000 b0 (x 9) False) (\<lambda>(_, b).
       bindR (kb_failed_contact 1001 b (x 1)) (\<lambda>b.
       bindR (kb_failed_contact 1001 b (x 1)) (\<lambda>b.
       bindR (kb_failed_contact 1001 b (x 1)) (\<lambda>b.
       bindR (kb_update_contact 1002 b (x 9) True) (\<lambda>(_, b).
       kb_failed_contact 1003 b (x 2))))))))"
  by code_simp

end
