(* ===== verification/Dht_Codec.thy ===== *)
theory Dht_Codec
  imports Bt_Benc
begin

text \<open>
  The second reader of bencoded text (\<open>btcodec.cc\<close>), which the DHT node uses for its packets. It
  keeps the text and an offset; an entity remembers only where it stands, and looking something up
  in it reads the text again from there. The theory shows that reading ends and stays in the text,
  that what libbt writes is read as it should be, and two inputs that are not.
\<close>

section \<open>Entities\<close>

text \<open>
  \<open>INFINITE\<close> and \<open>FINISH\<close> are the two static objects that stand for no object and for a closing
  \<open>e\<close>. Dictionaries and lists are their offset and length in the text, strings a place in it.
\<close>

datatype bentity =
  INFINITE
| FINISH
| Btdict nat nat
| Btlist nat nat
| Btint int
| Btstr nat nat

section \<open>Reading\<close>

definition getbyte :: "byte list \<Rightarrow> nat \<Rightarrow> byte \<times> nat" where
  "getbyte buf off = (if off < length buf then (buf ! off, off + 1) else (35, off))"

text \<open>The loops over digits; the overflow of the signed 64-bit value is undefined.\<close>

function read_digits :: "byte list \<Rightarrow> byte \<Rightarrow> nat \<Rightarrow> int \<Rightarrow> fault + int \<times> byte \<times> nat" where
  "read_digits buf c off v =
     (if is_digit c then
        let v = v * 10 + (uint c - 48)
        in if v \<ge> 9223372036854775808 then Inl Oob
           else read_digits buf (fst (getbyte buf off)) (snd (getbyte buf off)) v
      else Inr (v, c, off))"
  by pat_completeness auto
termination
  by (relation "measure (\<lambda>(buf, c, off, _). 2 * (length buf - off) + (if is_digit c then 1 else 0))")
     (auto simp: getbyte_def is_digit_def)

declare read_digits.simps [simp del]

definition read_int :: "byte list \<Rightarrow> nat \<Rightarrow> fault + bentity \<times> nat" where
  "read_int buf off =
     (let (c, off) = getbyte buf off
      in if \<not> is_digit c then Inr (INFINITE, off)
      else bindR (read_digits buf c off 0) (\<lambda>(v, c, off).
        Inr (if c = 101 then Btint v else INFINITE, off)))"

definition read_str :: "byte list \<Rightarrow> byte \<Rightarrow> nat \<Rightarrow> fault + bentity \<times> nat" where
  "read_str buf c off =
     (if \<not> is_digit c then Inr (INFINITE, off)
      else bindR (read_digits buf c off 0) (\<lambda>(v, c, off).
        if c = 58 then
          if int off + v \<ge> 9223372036854775808 then Inl Oob
          else if int off + v < int (length buf) then Inr (Btstr off (nat v), off + nat v)
          else Inr (INFINITE, off)
        else Inr (INFINITE, off)))"

text \<open>\<open>children\<close> is the loop of the cases \<open>d\<close> and \<open>l\<close>: whether the closing \<open>e\<close> was reached, and where.\<close>

function bobject :: "byte list \<Rightarrow> nat \<Rightarrow> fault + bentity \<times> nat"
  and children :: "byte list \<Rightarrow> nat \<Rightarrow> fault + bool \<times> nat" where
  "bobject buf soff =
     (let (c, off) = getbyte buf soff
      in if c = 100 then
           bindR (children buf off) (\<lambda>(closed, off).
             Inr (if closed then Btdict soff (off - soff) else INFINITE, off))
         else if c = 108 then
           bindR (children buf off) (\<lambda>(closed, off).
             Inr (if closed then Btlist soff (off - soff) else INFINITE, off))
         else if c = 105 then read_int buf off
         else if c = 101 then Inr (FINISH, off)
         else read_str buf c off)"
| "children buf off =
     bindR (bobject buf off) (\<lambda>(obj, off).
       if obj = INFINITE then Inr (False, off)
       else if obj = FINISH then Inr (True, off)
       else children buf off)"
  by pat_completeness auto

text \<open>Reading goes forward, and every object but \<open>INFINITE\<close> takes a byte. So the recursion ends.\<close>

definition advances :: "byte list \<Rightarrow> nat \<Rightarrow> fault + bentity \<times> nat \<Rightarrow> bool" where
  "advances buf off m \<longleftrightarrow> holds (\<lambda>(e, off'). off \<le> off' \<and> (off \<le> length buf \<longrightarrow> off' \<le> length buf)
     \<and> (e \<noteq> INFINITE \<longrightarrow> off < off' \<and> off < length buf)) m"

lemma getbyte_forward: "getbyte buf off = (c, off') \<Longrightarrow> off \<le> off' \<and> (off \<le> length buf \<longrightarrow> off' \<le> length buf)
    \<and> (c \<noteq> 35 \<longrightarrow> off' = off + 1 \<and> off < length buf)"
  by (auto simp: getbyte_def split: if_splits)

lemma not_digit_35: "\<not> is_digit 35"
  by (simp add: is_digit_def)

lemma read_digits_forward:
  "read_digits buf c off v = Inr (v', c', off') \<Longrightarrow> 0 \<le> v \<Longrightarrow>
     off \<le> off' \<and> (off \<le> length buf \<longrightarrow> off' \<le> length buf) \<and> 0 \<le> v' \<and> \<not> is_digit c'"
proof (induction buf c off v rule: read_digits.induct)
  case (1 buf c off v)
  show ?case
  proof (cases "is_digit c")
    case True
    then have "0 \<le> v * 10 + (uint c - 48)" using 1(3) by (simp add: is_digit_def word_le_def)
    with True 1 show ?thesis
      using getbyte_forward [of buf off "fst (getbyte buf off)" "snd (getbyte buf off)"]
      by (subst (asm) (2) read_digits.simps) (auto simp: Let_def split: if_splits)
  next
    case False
    with 1(2,3) show ?thesis by (subst (asm) read_digits.simps) simp
  qed
qed


lemma read_int_forward:
  assumes "read_int buf off = Inr (e, off')"
  shows "off \<le> off' \<and> (off \<le> length buf \<longrightarrow> off' \<le> length buf)"
proof -
  obtain c o1 where g: "getbyte buf off = (c, o1)" by (cases "getbyte buf off")
  have "o1 \<le> off' \<and> (o1 \<le> length buf \<longrightarrow> off' \<le> length buf)"
  proof (cases "is_digit c")
    case True
    with assms g obtain v c' where "read_digits buf c o1 0 = Inr (v, c', off')"
      by (auto simp: read_int_def bindR_Inr_iff)
    from read_digits_forward [OF this] show ?thesis by simp
  qed (use assms g in \<open>auto simp: read_int_def\<close>)
  with getbyte_forward [OF g] show ?thesis by auto
qed

lemma read_str_forward:
  assumes "read_str buf c off = Inr (e, off')" and "off \<le> length buf \<or> \<not> is_digit c"
  shows "off \<le> off' \<and> (off \<le> length buf \<longrightarrow> off' \<le> length buf)
    \<and> (\<forall>p n. e = Btstr p n \<longrightarrow> off \<le> p \<and> p + n < length buf)"
proof (cases "is_digit c")
  case True
  with assms(1) obtain v c' o1 where r: "read_digits buf c off 0 = Inr (v, c', o1)"
    and e: "(if c' = 58 then if int o1 + v \<ge> 9223372036854775808 then Inl Oob
      else if int o1 + v < int (length buf) then Inr (Btstr o1 (nat v), o1 + nat v) else Inr (INFINITE, o1)
      else Inr (INFINITE, o1)) = Inr (e, off')"
    by (auto simp: read_str_def bindR_Inr_iff)
  from read_digits_forward [OF r] e show ?thesis by (auto split: if_splits)
qed (use assms in \<open>simp add: read_str_def\<close>)

lemma bobject_forward:
  "bobject_children_dom (Inl (buf, off)) \<Longrightarrow> advances buf off (bobject buf off)"
  "bobject_children_dom (Inr (buf, off)) \<Longrightarrow>
     holds (\<lambda>(_, off'). off \<le> off' \<and> (off \<le> length buf \<longrightarrow> off' \<le> length buf)) (children buf off)"
proof (induction buf off and buf off rule: bobject_children.pinduct)
  case (1 buf soff)
  obtain c off where g: "getbyte buf soff = (c, off)" by (cases "getbyte buf soff")
  note f = getbyte_forward [OF g]
  show ?case
  proof (cases "c = 100 \<or> c = 108")
    case True
    then have "off = soff + 1" "soff < length buf" using f by auto
    moreover have "holds (\<lambda>(_, off'). off \<le> off' \<and> (off \<le> length buf \<longrightarrow> off' \<le> length buf)) (children buf off)"
      using 1(2) [OF g [symmetric] refl] 1(3) [OF g [symmetric] refl] True by blast
    ultimately show ?thesis
      using True g by (auto simp: bobject.psimps [OF 1(1)] advances_def holds_def bindR_Inr_iff split: if_splits)
  next
    case False
    then have eq: "bobject buf soff = (if c = 105 then read_int buf off
        else if c = 101 then Inr (FINISH, off) else read_str buf c off)"
      using g by (simp add: bobject.psimps [OF 1(1)])
    have d: "\<not> is_digit 35" "soff < length buf \<Longrightarrow> off \<le> length buf" using f by (auto simp: is_digit_def)
    show ?thesis
    proof (cases "c = 105 \<or> c = 101")
      case True
      then show ?thesis
        unfolding eq advances_def using f by (auto simp: holds_def dest!: read_int_forward)
    next
      case False
      then have "bobject buf soff = read_str buf c off" using eq by simp
      moreover have "advances buf soff (read_str buf c off)"
      proof (cases "c = 35")
        case True
        then show ?thesis using f not_digit_35 by (simp add: advances_def read_str_def)
      next
        case False
        then show ?thesis
          unfolding advances_def using f d by (auto simp: holds_def dest!: read_str_forward)
      qed
      ultimately show ?thesis by simp
    qed
  qed
next
  case (2 buf off)
  have a: "advances buf off (bobject buf off)" by (rule 2(2))
  show ?case
    unfolding children.psimps [OF 2(1)]
  proof (rule holds_bind [OF a [unfolded advances_def]], goal_cases)
    case (1 s)
    obtain obj o1 where s: "s = (obj, o1)" by (cases s)
    show ?case
      using 1 2(3) [OF 1(1) s [symmetric]]
      by (auto simp: s holds_def)
  qed
qed

lemma reading_ends: "All bobject_children_dom"
proof (rule "bobject_children.termination" [where R = "measure (\<lambda>s. case s of
      Inl (buf, off) \<Rightarrow> 2 * (length buf - off) | Inr (buf, off) \<Rightarrow> 2 * (length buf - off) + 1)"], goal_cases)
  case 1
  then show ?case by simp
next
  case (2 buf soff x c off)
  then show ?case using getbyte_forward [of buf soff c off] by auto
next
  case (3 buf soff x c off)
  then show ?case using getbyte_forward [of buf soff c off] by auto
next
  case (4 buf off)
  then show ?case by simp
next
  case (5 buf off s obj o1)
  then show ?case using bobject_forward(1) [of buf off] by (auto simp: advances_def)
qed

termination bobject
  by (rule reading_ends)

declare bobject.simps [simp del] children.simps [simp del]

lemma bobject_advances: "advances buf off (bobject buf off)"
  by (rule bobject_forward(1)) (simp add: reading_ends)

lemma bobject_advancesD:
  "bobject buf off = Inr (e, off') \<Longrightarrow> off \<le> off' \<and> (off \<le> length buf \<longrightarrow> off' \<le> length buf)
     \<and> (e \<noteq> INFINITE \<longrightarrow> off < off' \<and> off < length buf)"
  using bobject_advances [of buf off] by (simp add: advances_def holds_def)

section \<open>Looking up\<close>

text \<open>\<open>c_str\<close> gives the place and length of a string and \<open>NULL\<close> for every other entity.\<close>

fun c_str :: "bentity \<Rightarrow> (nat \<times> nat) option" where
  "c_str (Btstr p n) = Some (p, n)"
| "c_str _ = None"

fun bget_int :: "bentity \<Rightarrow> int option" where
  "bget_int (Btint v) = Some v"
| "bget_int _ = None"

text \<open>
  The comparison of a key in \<open>btdict::bget\<close>. For a key that is no string, \<open>len\<close> keeps the length of
  the key before it, and \<open>memcmp\<close> gets a null pointer.
\<close>

definition key_found :: "byte list \<Rightarrow> byte list \<Rightarrow> bentity \<Rightarrow> nat \<Rightarrow> fault + bool \<times> nat" where
  "key_found buf name obj len =
     (case c_str obj of
        Some (p, n) \<Rightarrow> Inr (length name = n \<and> take n (drop p buf) = name, n)
      | None \<Rightarrow> if length name = len then (if len = 0 then Inr (True, len) else Inl Oob)
          else Inr (False, len))"

function dict_scan :: "byte list \<Rightarrow> byte list \<Rightarrow> nat \<Rightarrow> nat \<Rightarrow> fault + bentity" where
  "dict_scan buf name off len =
     bindR (bobject buf off) (\<lambda>(obj, off).
       if obj = INFINITE \<or> obj = FINISH then Inr INFINITE
       else bindR (key_found buf name obj len) (\<lambda>(found, len).
         bindR (bobject buf off) (\<lambda>(obj, off).
           if obj = FINISH then Inr INFINITE
           else if found then Inr obj
           else dict_scan buf name off len)))"
  by pat_completeness auto
termination
  by (relation "measure (\<lambda>(buf, name, off, len). length buf - off)")
     (auto dest!: bobject_advancesD)

declare dict_scan.simps [simp del]

definition bget_name :: "byte list \<Rightarrow> byte list \<Rightarrow> bentity \<Rightarrow> fault + bentity" where
  "bget_name buf name e = (case e of Btdict off len \<Rightarrow> dict_scan buf name (off + 1) 0 | _ \<Rightarrow> Inr INFINITE)"

function list_scan :: "byte list \<Rightarrow> int \<Rightarrow> nat \<Rightarrow> fault + bentity" where
  "list_scan buf index off =
     bindR (bobject buf off) (\<lambda>(obj, off).
       if obj = INFINITE \<or> obj = FINISH then Inr INFINITE
       else if index = 0 then Inr obj
       else list_scan buf (index - 1) off)"
  by pat_completeness auto
termination
  by (relation "measure (\<lambda>(buf, index, off). length buf - off)")
     (auto dest!: bobject_advancesD)

declare list_scan.simps [simp del]

definition bget_index :: "byte list \<Rightarrow> int \<Rightarrow> bentity \<Rightarrow> fault + bentity" where
  "bget_index buf index e = (case e of Btlist off len \<Rightarrow> list_scan buf index (off + 1) | _ \<Rightarrow> Inr INFINITE)"

definition codec_bget :: "byte list \<Rightarrow> fault + bentity" where
  "codec_bget buf = bindR (bobject buf 0) (\<lambda>(e, _). Inr e)"

text \<open>\<open>b_str\<close> of a dictionary: the text it was read from; \<open>NULL\<close> when that does not fit.\<close>

definition codec_b_str :: "byte list \<Rightarrow> nat \<Rightarrow> (nat \<times> nat) option" where
  "codec_b_str buf off = (if off \<ge> length buf then None else Some (off, length buf - off))"

definition b_str :: "byte list \<Rightarrow> bentity \<Rightarrow> (nat \<times> nat) option" where
  "b_str buf e = (case e of
     Btdict off len \<Rightarrow>
       let (start, local) = (case codec_b_str buf off of None \<Rightarrow> (None, 0) | Some (p, n) \<Rightarrow> (Some p, n))
       in if len > local then None else map_option (\<lambda>p. (p, len)) start
   | _ \<Rightarrow> None)"

section \<open>Every entity lies in the text\<close>

fun in_text :: "byte list \<Rightarrow> bentity \<Rightarrow> bool" where
  "in_text buf (Btdict p n) \<longleftrightarrow> 2 \<le> n \<and> p + n \<le> length buf \<and> buf ! p = 100 \<and> buf ! (p + n - 1) = 101"
| "in_text buf (Btlist p n) \<longleftrightarrow> 2 \<le> n \<and> p + n \<le> length buf \<and> buf ! p = 108 \<and> buf ! (p + n - 1) = 101"
| "in_text buf (Btint v) \<longleftrightarrow> 0 \<le> v \<and> v < 9223372036854775808"
| "in_text buf (Btstr p n) \<longleftrightarrow> p + n < length buf"
| "in_text buf INFINITE \<longleftrightarrow> True"
| "in_text buf FINISH \<longleftrightarrow> True"

lemma read_digits_bound:
  "read_digits buf c off v = Inr (v', c', off') \<Longrightarrow> v < 9223372036854775808 \<Longrightarrow> v' < 9223372036854775808"
proof (induction buf c off v rule: read_digits.induct)
  case (1 buf c off v)
  show ?case
  proof (cases "is_digit c")
    case True
    with 1 show ?thesis
      by (subst (asm) (2) read_digits.simps) (auto simp: Let_def split: if_splits)
  next
    case False
    with 1(2,3) show ?thesis by (subst (asm) read_digits.simps) simp
  qed
qed

lemma read_int_in_text: "read_int buf off = Inr (e, off') \<Longrightarrow> in_text buf e"
  by (auto simp: read_int_def bindR_Inr_iff dest: read_digits_bound [where v = 0, simplified]
      read_digits_forward [where v = 0, simplified] split: if_splits prod.splits)

lemma children_closed:
  "children buf off = Inr (True, off') \<Longrightarrow> off < off' \<and> off' \<le> length buf \<and> buf ! (off' - 1) = 101"
proof (induction "length buf - off" arbitrary: off rule: less_induct)
  case less
  from less.prems obtain obj o1 where o: "bobject buf off = Inr (obj, o1)" "obj \<noteq> INFINITE"
    "if obj = FINISH then o1 = off' else children buf o1 = Inr (True, off')"
    by (subst (asm) children.simps) (auto simp: bindR_Inr_iff split: if_splits)
  note f = bobject_advancesD [OF o(1)]
  show ?case
  proof (cases "obj = FINISH")
    case True
    have "buf ! off = 101 \<and> o1 = off + 1"
      using o(1) f
      by (subst (asm) bobject.simps)
         (auto simp: True Let_def getbyte_def read_int_def read_str_def bindR_Inr_iff
           split: prod.splits if_splits)
    with True o f show ?thesis by auto
  next
    case False
    moreover from o f have "length buf - o1 < length buf - off" by linarith
    ultimately show ?thesis using o f less.hyps [of o1] by auto
  qed
qed

lemma bobject_in_text: "bobject buf off = Inr (e, off') \<Longrightarrow> in_text buf e"
proof -
  assume b: "bobject buf off = Inr (e, off')"
  obtain c o1 where g: "getbyte buf off = (c, o1)" by (cases "getbyte buf off")
  note f = getbyte_forward [OF g]
  have c: "c = 35 \<or> buf ! off = c" using g by (auto simp: getbyte_def split: if_splits)
  consider "c = 100" | "c = 108" | "c = 105" | "c = 101" | "c \<notin> {100, 108, 105, 101}" by blast
  then show ?thesis
  proof cases
    case 5
    then have "read_str buf c o1 = Inr (e, off')"
      using b g by (subst (asm) bobject.simps) simp
    then show ?thesis
    proof (cases "c = 35")
      case False
      then show ?thesis using \<open>read_str buf c o1 = Inr (e, off')\<close> f
        by (auto simp: read_str_def bindR_Inr_iff dest!: read_digits_forward split: if_splits)
    qed (auto simp: read_str_def not_digit_35)
  qed (use b g f c in \<open>subst (asm) bobject.simps, auto simp: bindR_Inr_iff dest: children_closed
      read_int_in_text split: if_splits\<close>)+
qed

section \<open>Reading the bencoding\<close>

text \<open>The integers this reader can take: not negative and below \<open>2 ^ 63\<close>.\<close>

fun codec_fits :: "btObject \<Rightarrow> bool" where
  "codec_fits (BT_STRING s) = True"
| "codec_fits (BT_INTEGER i) = (0 \<le> i \<and> i < 9223372036854775808)"
| "codec_fits (BT_LIST l) = (\<forall>x \<in> set l. codec_fits x)"
| "codec_fits (BT_DICT d) = (\<forall>e \<in> set d. codec_fits (snd e))"

text \<open>The entity stands for the object: the value of a number, the bytes of anything else.\<close>

definition stands_for :: "byte list \<Rightarrow> btObject \<Rightarrow> bentity \<Rightarrow> bool" where
  "stands_for buf x e = (case (x, e) of
     (BT_STRING s, Btstr p n) \<Rightarrow> n = length s \<and> take n (drop p buf) = s
   | (BT_INTEGER i, Btint v) \<Rightarrow> v = i
   | (BT_LIST l, Btlist p n) \<Rightarrow> n = length (bencode x) \<and> take n (drop p buf) = bencode x
   | (BT_DICT d, Btdict p n) \<Rightarrow> n = length (bencode x) \<and> take n (drop p buf) = bencode x
   | _ \<Rightarrow> False)"

lemma stands_for_object: "stands_for buf x e \<Longrightarrow> e \<noteq> INFINITE \<and> e \<noteq> FINISH"
  by (auto simp: stands_for_def split: btObject.splits)

lemma getbyte_drop: "drop off buf = c # r \<Longrightarrow> getbyte buf off = (c, off + 1) \<and> drop (off + 1) buf = r"
proof -
  assume d: "drop off buf = c # r"
  then have "off < length buf" by (metis drop_all list.discI not_less)
  with d show ?thesis
    by (simp add: getbyte_def flip: Cons_nth_drop_Suc)
qed

lemma drop_append: "drop off buf = xs @ r \<Longrightarrow> drop (off + length xs) buf = r"
  by (metis add.commute append_eq_conv_conj drop_drop)

lemma foldl_digits_ge:
  "\<forall>d\<in>set ds. is_digit d \<Longrightarrow> 0 \<le> v \<Longrightarrow> v \<le> foldl (\<lambda>n d. n * 10 + (uint (d :: byte) - 48)) v ds"
proof (induction ds arbitrary: v)
  case (Cons d ds)
  then have "0 \<le> uint d - 48" by (simp add: is_digit_def word_le_def)
  then have "v \<le> v * 10 + (uint d - 48)" using Cons.prems(2) by linarith
  also have "\<dots> \<le> foldl (\<lambda>n d. n * 10 + (uint d - 48)) (v * 10 + (uint d - 48)) ds"
    using Cons.prems \<open>0 \<le> uint d - 48\<close> by (intro Cons.IH) auto
  finally show ?case by simp
qed simp

lemma read_digits_result:
  assumes "drop off buf = ds @ c # r" and "\<forall>d\<in>set (d0 # ds). is_digit d" and "\<not> is_digit c" and "0 \<le> v"
    and "foldl (\<lambda>n d. n * 10 + (uint (d :: byte) - 48)) v (d0 # ds) < 9223372036854775808"
  shows "read_digits buf d0 off v
    = Inr (foldl (\<lambda>n d. n * 10 + (uint d - 48)) v (d0 # ds), c, off + length ds + 1)"
  using assms
proof (induction ds arbitrary: d0 off v)
  case Nil
  then show ?case
    using getbyte_drop [of off buf c r]
    by (subst read_digits.simps) (simp add: read_digits.simps [of buf c])
next
  case (Cons d ds)
  let ?v = "v * 10 + (uint d0 - 48)"
  have nn: "0 \<le> ?v" using Cons.prems by (simp add: is_digit_def word_le_def)
  have "?v \<le> foldl (\<lambda>n d. n * 10 + (uint d - 48)) ?v (d # ds)"
    using Cons.prems nn by (intro foldl_digits_ge) auto
  then have small: "?v < 9223372036854775808" using Cons.prems(5) by simp
  have g: "getbyte buf off = (d, off + 1)" "drop (off + 1) buf = ds @ c # r"
    using getbyte_drop [of off buf d "ds @ c # r"] Cons.prems(1) by auto
  have "read_digits buf d (off + 1) ?v
    = Inr (foldl (\<lambda>n d. n * 10 + (uint d - 48)) ?v (d # ds), c, off + 1 + length ds + 1)"
    using Cons.prems nn g(2) by (intro Cons.IH) auto
  then show ?case
    using Cons.prems(2) small g(1) by (subst read_digits.simps) simp
qed

lemma read_digits_dec_nat:
  assumes "drop off buf = dec_nat n @ c # r" and "\<not> is_digit c" and "int n < 9223372036854775808"
  shows "\<exists>d0. getbyte buf off = (d0, off + 1) \<and> is_digit d0
    \<and> read_digits buf d0 (off + 1) 0 = Inr (int n, c, off + length (dec_nat n) + 1)"
proof -
  obtain d0 ds where d: "dec_nat n = d0 # ds" using dec_nat_Cons by blast
  have dig: "\<forall>d\<in>set (d0 # ds). is_digit d" using dec_nat_digits [of _ n] by (simp add: d)
  have g: "getbyte buf off = (d0, off + 1)" "drop (off + 1) buf = ds @ c # r"
    using getbyte_drop [of off buf d0 "ds @ c # r"] assms(1) by (simp_all add: d)
  have "foldl (\<lambda>n d. n * 10 + (uint d - 48)) 0 (d0 # ds) = int n"
    using digits_val_dec_nat [of n] by (simp add: digits_val_def d)
  then show ?thesis
    using read_digits_result [OF g(2) dig assms(2), of 0] assms(3) g(1) dig by (simp add: d)
qed

lemma bobject_string:
  assumes "drop off buf = benc_string s @ r" and "r \<noteq> []" and "length buf < 2147483648"
  shows "gives (\<lambda>(e, off'). (\<exists>p. e = Btstr p (length s)) \<and> stands_for buf (BT_STRING s) e
      \<and> off' = off + length (benc_string s)) (bobject buf off)"
proof -
  let ?n = "length s" and ?p = "off + length (dec_nat (length s)) + 1"
  have len: "?p + ?n < length buf"
    using arg_cong [OF assms(1), of length] assms(2) by (cases r) (simp_all add: benc_string_def)
  have d: "drop off buf = dec_nat ?n @ 58 # s @ r"
    using assms(1) by (simp add: benc_string_def ascii_def)
  have "\<not> is_digit 58" by (simp add: is_digit_def)
  moreover have "int ?n < 9223372036854775808" using len assms(3) by simp
  ultimately obtain d0 where g: "getbyte buf off = (d0, off + 1)" "is_digit d0"
    "read_digits buf d0 (off + 1) 0 = Inr (int ?n, 58, ?p)"
    using read_digits_dec_nat [OF d] by auto
  have "drop ?p buf = s @ r"
    using drop_append [of off buf "dec_nat ?n @ [58]" "s @ r"] d by (simp add: ac_simps)
  then have "take ?n (drop ?p buf) = s" by simp
  then show ?thesis
    using g len assms(3) digit_facts [OF g(2)]
    by (subst bobject.simps) (auto simp: read_str_def stands_for_def benc_string_def is_digit_def)
qed

lemma bobject_integer:
  assumes "drop off buf = bencode (BT_INTEGER i) @ r" and "0 \<le> i" and "i < 9223372036854775808"
  shows "bobject buf off = Inr (Btint i, off + length (bencode (BT_INTEGER i)))"
proof -
  have d: "drop off buf = 105 # dec_nat (nat i) @ 101 # r"
    using assms(1,2) by (simp add: ascii_def dec_int_def)
  note g = getbyte_drop [OF d]
  have "\<not> is_digit 101" by (simp add: is_digit_def)
  with read_digits_dec_nat [OF conjunct2 [OF g]] assms(2,3) obtain d0
    where "getbyte buf (off + 1) = (d0, off + 1 + 1)" "is_digit d0"
      "read_digits buf d0 (off + 1 + 1) 0 = Inr (i, 101, off + 1 + length (dec_nat (nat i)) + 1)"
    by auto
  then show ?thesis
    using g assms(2) by (subst bobject.simps) (simp add: read_int_def dec_int_def)
qed

lemma children_result:
  assumes "\<And>x off r. x \<in> set xs \<Longrightarrow> drop off buf = bencode x @ r \<Longrightarrow> r \<noteq> [] \<Longrightarrow>
      gives (\<lambda>(e, off'). stands_for buf x e \<and> off' = off + length (bencode x)) (bobject buf off)"
    and "drop off buf = concat (map bencode xs) @ 101 # r"
  shows "children buf off = Inr (True, off + length (concat (map bencode xs)) + 1)"
  using assms
proof (induction xs arbitrary: off)
  case Nil
  then show ?case
    using getbyte_drop [of off buf 101 r] by (subst children.simps, subst bobject.simps) simp
next
  case (Cons x xs)
  have d: "drop off buf = bencode x @ concat (map bencode xs) @ 101 # r"
    using Cons.prems(2) by simp
  from Cons.prems(1) [OF _ d] obtain e where e: "bobject buf off = Inr (e, off + length (bencode x))"
    "stands_for buf x e" by (auto simp: gives_iff)
  have "children buf (off + length (bencode x))
    = Inr (True, off + length (bencode x) + length (concat (map bencode xs)) + 1)"
    using Cons.prems(1) drop_append [OF d] by (intro Cons.IH) auto
  then show ?case
    using e stands_for_object [OF e(2)] by (subst children.simps) simp
qed

definition entries :: "btDict \<Rightarrow> btObject list" where
  "entries d = concat (map (\<lambda>e. [BT_STRING (fst e), snd e]) d)"

lemma bencode_entries:
  "concat (map (\<lambda>e. benc_string (fst e) @ bencode (snd e)) d) = concat (map bencode (entries d))"
  by (induction d) (simp_all add: entries_def)

lemma bobject_reads:
  assumes "length buf < 2147483648"
  shows "codec_fits x \<Longrightarrow> drop off buf = bencode x @ r \<Longrightarrow> r \<noteq> [] \<or> \<not> (\<exists>s. x = BT_STRING s) \<Longrightarrow>
    gives (\<lambda>(e, off'). stands_for buf x e \<and> off' = off + length (bencode x)) (bobject buf off)"
proof (induction x arbitrary: off r rule: bencode.induct)
  case (1 s)
  then show ?case by (auto intro: gives_mono [OF bobject_string] assms)
next
  case (2 i)
  then show ?case using bobject_integer [OF 2(2)] by (simp add: stands_for_def)
next
  case (3 l)
  have d: "drop off buf = 108 # concat (map bencode l) @ 101 # r"
    using 3(3) by (simp add: ascii_def)
  note g = getbyte_drop [OF d]
  have "children buf (off + 1) = Inr (True, off + 1 + length (concat (map bencode l)) + 1)"
    using 3(1,2) g by (intro children_result [of l]) auto
  moreover have "take (length (bencode (BT_LIST l))) (drop off buf) = bencode (BT_LIST l)"
    using 3(3) by simp
  ultimately show ?case
    using g by (subst bobject.simps) (simp add: stands_for_def)
next
  case (4 d)
  have dr: "drop off buf = 100 # concat (map bencode (entries d)) @ 101 # r"
    using 4(3) by (simp add: ascii_def bencode_entries)
  note g = getbyte_drop [OF dr]
  have "gives (\<lambda>(e, off'). stands_for buf x e \<and> off' = off + length (bencode x)) (bobject buf off)"
    if x: "x \<in> set (entries d)" and "drop off buf = bencode x @ r" "r \<noteq> []" for x off r
  proof -
    from x obtain en where en: "en \<in> set d" "x = BT_STRING (fst en) \<or> x = snd en"
      by (auto simp: entries_def)
    then show ?thesis
      using that 4(1) [of en] 4(2) assms by (auto intro: gives_mono [OF bobject_string])
  qed
  then have "children buf (off + 1) = Inr (True, off + 1 + length (concat (map bencode (entries d))) + 1)"
    using g by (intro children_result [of "entries d"]) auto
  moreover have "take (length (bencode (BT_DICT d))) (drop off buf) = bencode (BT_DICT d)"
    using 4(3) by simp
  ultimately show ?case
    using g by (subst bobject.simps) (simp add: stands_for_def bencode_entries)
qed

section \<open>Looking up in what was read\<close>

lemma dict_scan_result:
  assumes "length buf < 2147483648"
  shows "\<forall>en\<in>set d. codec_fits (snd en) \<Longrightarrow>
    drop off buf = concat (map (\<lambda>e. benc_string (fst e) @ bencode (snd e)) d) @ 101 # r \<Longrightarrow>
    gives (\<lambda>e. case map_of d name of None \<Rightarrow> e = INFINITE | Some x \<Rightarrow> stands_for buf x e)
      (dict_scan buf name off len)"
proof (induction d arbitrary: off len)
  case Nil
  then show ?case
    using getbyte_drop [of off buf 101 r] by (subst dict_scan.simps, subst bobject.simps) simp
next
  case (Cons en d)
  let ?rest = "concat (map (\<lambda>e. benc_string (fst e) @ bencode (snd e)) d) @ 101 # r"
  have k: "drop off buf = benc_string (fst en) @ bencode (snd en) @ ?rest"
    using Cons.prems(2) by simp
  obtain p where b: "bobject buf off = Inr (Btstr p (length (fst en)), off + length (benc_string (fst en)))"
    "take (length (fst en)) (drop p buf) = fst en"
    using bobject_string [OF k _ assms] by (auto simp: gives_iff stands_for_def)
  note v = drop_append [OF k]
  obtain e where e: "bobject buf (off + length (benc_string (fst en)))
      = Inr (e, off + length (benc_string (fst en)) + length (bencode (snd en)))" "stands_for buf (snd en) e"
    using bobject_reads [OF assms _ v] Cons.prems(1) by (auto simp: gives_iff)
  have key: "key_found buf name (Btstr p (length (fst en))) len = Inr (name = fst en, length (fst en))"
    using b(2) by (auto simp: key_found_def)
  have "gives (\<lambda>e. case map_of d name of None \<Rightarrow> e = INFINITE | Some x \<Rightarrow> stands_for buf x e)
    (dict_scan buf name (off + length (benc_string (fst en)) + length (bencode (snd en))) (length (fst en)))"
    using Cons.prems(1) drop_append [OF v] by (intro Cons.IH) auto
  then show ?case
    using b(1) e stands_for_object [OF e(2)]
    by (subst dict_scan.simps) (auto simp: key)
qed

lemma bget_name_result:
  assumes "length buf < 2147483648" and "codec_fits x" and "stands_for buf x e"
  shows "gives (\<lambda>e'. case x of
      BT_DICT d \<Rightarrow> (case map_of d name of None \<Rightarrow> e' = INFINITE | Some y \<Rightarrow> stands_for buf y e')
    | _ \<Rightarrow> e' = INFINITE) (bget_name buf name e)"
proof (cases x)
  case (BT_DICT d)
  with assms(3) obtain p n where e: "e = Btdict p n" "n = length (bencode x)" "take n (drop p buf) = bencode x"
    by (auto simp: stands_for_def split: bentity.splits)
  then obtain r where "drop p buf = bencode x @ r"
    by (metis append_take_drop_id)
  then have "drop (p + 1) buf = concat (map (\<lambda>e. benc_string (fst e) @ bencode (snd e)) d) @ 101 # r"
    using getbyte_drop [of p buf] by (simp add: BT_DICT ascii_def)
  then show ?thesis
    using dict_scan_result [OF assms(1)] assms(2) by (simp add: BT_DICT e(1) bget_name_def)
qed (use assms(3) in \<open>auto simp: stands_for_def bget_name_def split: bentity.splits\<close>)

text \<open>The chains \<open>bget().bget("r").bget("id")\<close> of the callers, and the value they lead to.\<close>

fun bget_path :: "byte list \<Rightarrow> byte list list \<Rightarrow> bentity \<Rightarrow> fault + bentity" where
  "bget_path buf [] e = Inr e"
| "bget_path buf (k # ks) e = bindR (bget_name buf k e) (bget_path buf ks)"

fun value_at :: "btObject \<Rightarrow> byte list list \<Rightarrow> btObject option" where
  "value_at x [] = Some x"
| "value_at (BT_DICT d) (k # ks) = (case map_of d k of None \<Rightarrow> None | Some y \<Rightarrow> value_at y ks)"
| "value_at _ (k # ks) = None"

lemma bget_path_INFINITE: "bget_path buf ks INFINITE = Inr INFINITE"
  by (induction ks) (simp_all add: bget_name_def)

lemma bget_path_result:
  assumes "length buf < 2147483648"
  shows "codec_fits x \<Longrightarrow> stands_for buf x e \<Longrightarrow>
    gives (\<lambda>e'. case value_at x ks of None \<Rightarrow> e' = INFINITE | Some y \<Rightarrow> stands_for buf y e') (bget_path buf ks e)"
proof (induction ks arbitrary: x e)
  case (Cons k ks)
  show ?case
    unfolding bget_path.simps
  proof (rule gives_bind [OF bget_name_result [OF assms Cons.prems]], goal_cases)
    case (1 e')
    show ?case
    proof (cases "\<exists>d y. x = BT_DICT d \<and> map_of d k = Some y")
      case True
      then obtain d y where d: "x = BT_DICT d" "map_of d k = Some y" by blast
      then have "codec_fits y" using Cons.prems(1) by (force dest: map_of_SomeD)
      with d 1 show ?thesis using Cons.IH by simp
    next
      case False
      then have "e' = INFINITE" "value_at x (k # ks) = None"
        using 1 by (cases x; auto split: option.splits)+
      then show ?thesis by (simp add: bget_path_INFINITE)
    qed
  qed
qed simp

lemma bget_name_in_text: "holds (in_text buf) (bget_name buf name e)"
proof -
  have "in_text buf e'" if "dict_scan buf name off len = Inr e'" for off len e'
    using that
  proof (induction "length buf - off" arbitrary: off len rule: less_induct)
    case less
    from less.prems obtain obj o1 where o: "bobject buf off = Inr (obj, o1)"
      "obj = INFINITE \<or> obj = FINISH \<Longrightarrow> e' = INFINITE"
      "\<not> (obj = INFINITE \<or> obj = FINISH) \<Longrightarrow> bindR (key_found buf name obj len) (\<lambda>(found, len).
         bindR (bobject buf o1) (\<lambda>(obj, off). if obj = FINISH then Inr INFINITE
           else if found then Inr obj else dict_scan buf name off len)) = Inr e'"
      by (subst (asm) dict_scan.simps) (auto simp: bindR_Inr_iff split: if_splits)
    show ?case
    proof (cases "obj = INFINITE \<or> obj = FINISH")
      case False
      with o(3) obtain found len' obj' o2 where k: "bobject buf o1 = Inr (obj', o2)"
        "e' = INFINITE \<or> e' = obj' \<or> dict_scan buf name o2 len' = Inr e'"
        by (auto simp: bindR_Inr_iff split: if_splits)
      have "length buf - o2 < length buf - off"
        using bobject_advancesD [OF o(1)] bobject_advancesD [OF k(1)] False by auto
      with k less.hyps [of o2 len'] show ?thesis by (auto dest: bobject_in_text)
    qed (use o(2) in simp)
  qed
  then show ?thesis by (auto simp: bget_name_def holds_def split: bentity.splits)
qed

lemma bget_index_in_text: "holds (in_text buf) (bget_index buf i e)"
proof -
  have "in_text buf e'" if "list_scan buf i off = Inr e'" for i off e'
    using that
  proof (induction "length buf - off" arbitrary: off i rule: less_induct)
    case less
    from less.prems obtain obj o1 where o: "bobject buf off = Inr (obj, o1)"
      "if obj = INFINITE \<or> obj = FINISH then e' = INFINITE
       else if i = 0 then e' = obj else list_scan buf (i - 1) o1 = Inr e'"
      by (subst (asm) list_scan.simps) (auto simp: bindR_Inr_iff split: if_splits)
    show ?case
    proof (cases "obj = INFINITE \<or> obj = FINISH \<or> i = 0")
      case True
      with o show ?thesis by (auto dest: bobject_in_text split: if_splits)
    next
      case False
      then have "length buf - o1 < length buf - off"
        using bobject_advancesD [OF o(1)] by auto
      with o False less.hyps [of o1 "i - 1"] show ?thesis by simp
    qed
  qed
  then show ?thesis by (auto simp: bget_index_def holds_def split: bentity.splits)
qed

section \<open>Properties\<close>

text \<open>
  C35. The two programs agree on the format: of a packet that libbt's writer would produce for a
  dictionary without negative integers, a chain of lookups by name gives the value at that path,
  with its number or its bytes, and no object when there is none.
\<close>

theorem codec_reads_what_benc_writes:
  assumes "codec_fits (BT_DICT d)" and "length (bencode (BT_DICT d)) < 2147483648"
  shows "gives (\<lambda>e. case value_at (BT_DICT d) ks of None \<Rightarrow> e = INFINITE
        | Some x \<Rightarrow> stands_for (bencode (BT_DICT d)) x e)
    (bindR (codec_bget (bencode (BT_DICT d))) (bget_path (bencode (BT_DICT d)) ks))"
proof -
  have "gives (stands_for (bencode (BT_DICT d)) (BT_DICT d)) (codec_bget (bencode (BT_DICT d)))"
    unfolding codec_bget_def
    by (rule gives_bind [OF bobject_reads [OF assms(2,1), of _ "[]"]]) auto
  then show ?thesis
    by (rule gives_bind) (rule bget_path_result [OF assms(2,1)])
qed

definition demo_reply :: btDict where
  "demo_reply = [(ascii ''r'', BT_DICT [(ascii ''id'', BT_STRING (ascii ''abc'')), (ascii ''n'', BT_INTEGER 7)]),
     (ascii ''y'', BT_STRING (ascii ''r''))]"

theorem codec_reads_what_benc_writes_witness:
  "bindR (codec_bget (bencode (BT_DICT demo_reply)))
     (bget_path (bencode (BT_DICT demo_reply)) [ascii ''r'', ascii ''n'']) = Inr (Btint 7)"
proof -
  have "value_at (BT_DICT demo_reply) [ascii ''r'', ascii ''n''] = Some (BT_INTEGER 7)"
    "codec_fits (BT_DICT demo_reply)" and "length (bencode (BT_DICT demo_reply)) < 100"
    by code_simp+
  moreover from this have "length (bencode (BT_DICT demo_reply)) < 2147483648" by simp
  moreover have "stands_for buf (BT_INTEGER 7) e \<longleftrightarrow> e = Btint 7" for buf e
    by (cases e) (auto simp: stands_for_def)
  ultimately show ?thesis
    using codec_reads_what_benc_writes [of demo_reply "[ascii ''r'', ascii ''n'']"]
    by (simp add: gives_iff del: bencode.simps value_at.simps codec_fits.simps)
qed



text \<open>
  Two packets that are not read as they should be: a key that is no string and comes after one
  as long as the name looked for makes \<open>memcmp\<close> read a null pointer, and a string that ends with
  the text is refused.
\<close>

theorem codec_null_key:
  "bindR (codec_bget (ascii ''d1:a0:i1e1:ce'')) (bget_name (ascii ''d1:a0:i1e1:ce'') (ascii ''y'')) = Inl Oob
   \<and> codec_bget (ascii ''3:abc'') = Inr INFINITE"
  by code_simp

end
