(* ===== verification/Dht_Table.thy ===== *)
theory Dht_Table
  imports Dht_Bucket
begin

text \<open>
  The routing table of the DHT node (\<open>ktable.cc\<close>): one bucket for each length of the prefix that
  an identifier shares with our own, and the functions of \<open>btkad.cc\<close> around the table. The
  theory shows which bucket an identifier belongs to, that the table keeps its contacts there in
  every reachable state, and what a search for contacts returns.
\<close>

section \<open>State\<close>

record ktable =
  b_tableid :: "byte list"
  kt_last_seen :: int
  b_nbucket0 :: nat
  b_nbucket1 :: nat
  b_buckets :: "kbucket list"
  kt_need_ping :: bool

definition ktable_new :: "byte list \<Rightarrow> kbucket list \<Rightarrow> ktable" where
  "ktable_new i bs = \<lparr>b_tableid = i, kt_last_seen = 0, b_nbucket0 = 0, b_nbucket1 = 1,
     b_buckets = bs, kt_need_ping = False\<rparr>"

definition setkadid :: "ktable \<Rightarrow> byte list \<Rightarrow> ktable" where
  "setkadid t i = t\<lparr>b_tableid := take 20 i\<rparr>"

definition getkadid :: "ktable \<Rightarrow> byte list" where
  "getkadid t = b_tableid t"

section \<open>The index of the first bit that is set\<close>

text \<open>The table of \<open>bit1_start_at\<close>: the number of leading zero bits of a byte.\<close>

definition mtable :: "nat list" where
  "mtable = [8, 7] @ replicate 2 6 @ replicate 4 5 @ replicate 8 4 @ replicate 16 3 @
     replicate 32 2 @ replicate 64 1 @ replicate 128 0"

text \<open>The loop ends behind the first byte that is not 0.\<close>

fun bit1_loop :: "nat \<Rightarrow> byte list \<Rightarrow> nat" where
  "bit1_loop index [] = index"
| "bit1_loop index (midx # bs) =
     (let index = index + mtable ! unat midx
      in if midx = 0 then bit1_loop index bs else index)"

definition bit1_start_at :: "byte list \<Rightarrow> nat" where
  "bit1_start_at target = bit1_loop 0 (take 20 target)"

definition kt_bit1_index_of :: "ktable \<Rightarrow> byte list \<Rightarrow> nat" where
  "kt_bit1_index_of t target = bit1_start_at (map2 (XOR) target (b_tableid t))"

section \<open>Operations\<close>

definition kt_failed_contact :: "int \<Rightarrow> ktable \<Rightarrow> kitem \<Rightarrow> fault + ktable" where
  "kt_failed_contact now t x =
     (let index = kt_bit1_index_of t (kadid x)
      in if index < b_nbucket1 t then
        bindR (arr_get (b_buckets t) (int index)) (\<lambda>b.
        bindR (kb_failed_contact now b x) (\<lambda>b.
        bindR (arr_set (b_buckets t) (int index) b) (\<lambda>bs.
        Inr (t\<lparr>b_buckets := bs\<rparr>))))
      else Inr t)"

text \<open>\<open>memcpy(&items[cnt], vitems, n * sizeof(kitem_t))\<close>.\<close>

definition copy_items :: "kitem list \<Rightarrow> nat \<Rightarrow> kitem list \<Rightarrow> nat \<Rightarrow> fault + kitem list" where
  "copy_items items cnt vitems n =
     (if cnt + n \<le> length items \<and> n \<le> length vitems then Inr (blit items cnt (take n vitems))
      else Inl Oob)"

text \<open>
  One of the two loops of \<open>find_nodes\<close>, over the indices of the buckets in the order it visits
  them; \<open>vitems\<close> is the local array.
\<close>

fun visit_buckets :: "int \<Rightarrow> ktable \<Rightarrow> bool \<Rightarrow> nat list \<Rightarrow> kitem list \<Rightarrow> kitem list \<Rightarrow> nat \<Rightarrow>
    fault + kitem list \<times> kitem list \<times> nat" where
  "visit_buckets now t validate [] vitems items cnt = Inr (vitems, items, cnt)"
| "visit_buckets now t validate (i # is) vitems items cnt =
     bindR (arr_get (b_buckets t) (int i)) (\<lambda>b.
     bindR (kb_find_nodes now b vitems validate) (\<lambda>(vitems, n).
     if n + cnt \<ge> 8 then
       bindR (copy_items items cnt vitems (8 - cnt)) (\<lambda>items. Inr (vitems, items, 8))
     else
       bindR (copy_items items cnt vitems n) (\<lambda>items.
       visit_buckets now t validate is vitems items (cnt + n))))"

definition kt_find_nodes :: "int \<Rightarrow> ktable \<Rightarrow> kitem list \<Rightarrow> byte list \<Rightarrow> kitem list \<Rightarrow> bool \<Rightarrow>
    fault + kitem list \<times> nat" where
  "kt_find_nodes now t vitems target items validate =
     (let offset = kt_bit1_index_of t target;
          backoff = (if offset > b_nbucket1 t then b_nbucket1 t else offset)
      in bindR (visit_buckets now t validate [offset..<b_nbucket1 t] vitems items 0)
           (\<lambda>(vitems, items, cnt).
         bindR (visit_buckets now t validate (rev [0..<backoff]) vitems items cnt)
           (\<lambda>(_, items, cnt). Inr (items, cnt))))"

text \<open>The loop that moves \<open>b_nbucket0\<close> up while the buckets from there on hold more than 8.\<close>

function shrink :: "kbucket list \<Rightarrow> nat \<Rightarrow> int \<Rightarrow> fault + nat" where
  "shrink bs n0 cnt =
     (if cnt > 8 then
        if n0 < length bs then shrink bs (Suc n0) (cnt - int (b_nknode (bs ! n0)))
        else Inl Oob
      else Inr n0)"
  by pat_completeness auto
termination
  by (relation "measure (\<lambda>(bs, n0, _). length bs - n0)") auto

declare shrink.simps [simp del]

definition kt_insert_node :: "int \<Rightarrow> ktable \<Rightarrow> kitem \<Rightarrow> bool \<Rightarrow> fault + int \<times> ktable" where
  "kt_insert_node now t x contacted =
     (let index = kt_bit1_index_of t (kadid x); nbucket1 = index + 1
      in if nbucket1 > 160 then Inr (0, t)
      else
        let t = (if nbucket1 > b_nbucket1 t then t\<lparr>b_nbucket1 := nbucket1\<rparr> else t);
            t = t\<lparr>kt_last_seen := now\<rparr>
        in bindR (arr_get (b_buckets t) (int index)) (\<lambda>b.
           bindR (kb_update_contact now b x contacted) (\<lambda>(val, b).
           bindR (arr_set (b_buckets t) (int index) b) (\<lambda>bs.
           let t = t\<lparr>b_buckets := bs, kt_need_ping := kt_need_ping t \<or> kb_need_ping b\<rparr>
           in bindR (for_loop (b_nbucket0 t) (b_nbucket1 t)
                (\<lambda>i cnt. bindR (arr_get bs (int i)) (\<lambda>b. Inr (cnt + int (b_nknode b)))) 0) (\<lambda>cnt.
           bindR (shrink bs (b_nbucket0 t) cnt) (\<lambda>n0.
           Inr (val, t\<lparr>b_nbucket0 := n0\<rparr>)))))))"

definition kt_get_ping :: "int \<Rightarrow> ktable \<Rightarrow> kitem list \<Rightarrow> nat \<Rightarrow> fault + ktable \<times> kitem list \<times> nat" where
  "kt_get_ping now t items sz =
     (if sz = 0 then Inr (t, items, 0)
      else bindR (for_loop 0 (b_nbucket1 t) (\<lambda>i (bs, items, cnt).
          if cnt < sz then
            bindR (arr_get bs (int i)) (\<lambda>b.
            if kb_need_ping b then
              bindR (kb_get_ping now b items cnt (sz - cnt)) (\<lambda>(b, items, n).
              bindR (arr_set bs (int i) b) (\<lambda>bs. Inr (bs, items, cnt + n)))
            else Inr (bs, items, cnt))
          else Inr (bs, items, cnt)) (b_buckets t, items, 0)) (\<lambda>(bs, items, cnt).
        Inr (t\<lparr>b_buckets := bs, kt_need_ping := cnt > 0\<rparr>, items, cnt)))"

definition size_of_table :: "ktable \<Rightarrow> nat" where
  "size_of_table t = b_nbucket0 t"

definition size_of_bucket :: "ktable \<Rightarrow> nat \<Rightarrow> fault + nat" where
  "size_of_bucket t index = bindR (arr_get (b_buckets t) (int index)) (\<lambda>b. Inr (b_nknode b))"

section \<open>Identifiers to refresh a bucket with\<close>

definition mask_table :: "byte list" where
  "mask_table = [0x80, 0xC0, 0xE0, 0xF0, 0xF8, 0xFC, 0xFE, 0xFF]"

text \<open>The loop over whole bytes of \<open>genrefreshid\<close>.\<close>

function copy_bytes :: "byte list \<Rightarrow> byte list \<Rightarrow> nat \<Rightarrow> nat \<Rightarrow> fault + byte list \<times> nat \<times> nat" where
  "copy_bytes bootid tmpid u j =
     (if u \<ge> 8 then
        bindR (arr_get tmpid (int j)) (\<lambda>c.
        bindR (arr_set bootid (int j) c) (\<lambda>bootid. copy_bytes bootid tmpid (u - 8) (j + 1)))
      else Inr (bootid, u, j))"
  by pat_completeness auto
termination
  by (relation "measure (\<lambda>(_, _, u, _). u)") auto

declare copy_bytes.simps [simp del]

text \<open>\<open>rnd\<close> are the 20 bytes that \<open>genkadid\<close> draws.\<close>

definition genrefreshid :: "byte list \<Rightarrow> ktable \<Rightarrow> nat \<Rightarrow> fault + byte list" where
  "genrefreshid rnd t index =
     bindR (copy_bytes rnd (getkadid t) index 0) (\<lambda>(bootid, u, j).
     bindR (arr_get mask_table (int u)) (\<lambda>mask.
     bindR (arr_get (getkadid t) (int j)) (\<lambda>c.
     bindR (arr_get bootid (int j)) (\<lambda>r.
     bindR (arr_set bootid (int j) ((c AND mask) OR (r AND NOT mask))) (\<lambda>bootid.
     if size_of_table t > index then
       bindR (arr_get bootid (int j)) (\<lambda>r.
       bindR (arr_set bootid (int j) (r XOR drop_bit u 0x80)) (\<lambda>bootid.
       die_unless (kt_bit1_index_of t bootid = index) (Inr bootid)))
     else Inr bootid)))))"

section \<open>Contacts for the start\<close>

record boot =
  boot_count :: nat
  boot_contacts :: "kitem list"

text \<open>
  \<open>add_boot_contact\<close>; when the eight places are taken, the address is left to \<open>pingd\<close>: the result
  says whether it was.
\<close>

definition boot_slot :: "boot \<Rightarrow> 32 word \<Rightarrow> 16 word \<Rightarrow> fault + bool \<times> boot" where
  "boot_slot bt a p =
     (if boot_count bt < 8 then
        let idx = boot_count bt
        in bindR (arr_get (boot_contacts bt) (int idx)) (\<lambda>x.
           bindR (arr_set (boot_contacts bt) (int idx) (x\<lparr>host := a, port := p\<rparr>)) (\<lambda>cs.
           Inr (False, bt\<lparr>boot_count := idx + 1, boot_contacts := cs\<rparr>)))
      else Inr (True, bt))"

definition get_bootup_nodes :: "boot \<Rightarrow> kitem list \<Rightarrow> nat \<Rightarrow> fault + kitem list \<times> nat" where
  "get_bootup_nodes bt items sz =
     (let cnt = (if boot_count bt > sz then sz else boot_count bt)
      in bindR (copy_items items 0 (boot_contacts bt) cnt) (\<lambda>items. Inr (items, cnt)))"

section \<open>Bits\<close>

definition byte_bits :: "byte \<Rightarrow> bool list" where
  "byte_bits w = map (\<lambda>k. bit w (7 - k)) [0..<8]"

definition id_bits :: "byte list \<Rightarrow> bool list" where
  "id_bits bs = concat (map byte_bits bs)"

text \<open>How many leading bits two identifiers share.\<close>

definition common_prefix :: "byte list \<Rightarrow> byte list \<Rightarrow> nat" where
  "common_prefix a b = length (takeWhile (\<lambda>(x, y). x = y) (zip (id_bits a) (id_bits b)))"

lemma upt_8: "[0..<8] = [0, 1, 2, 3, 4, 5, 6, 7 :: nat]"
  by (simp add: upt_rec)

lemma length_byte_bits [simp]: "length (byte_bits w) = 8"
  by (simp add: byte_bits_def)

lemma length_id_bits [simp]: "length (id_bits bs) = 8 * length bs"
  by (induction bs) (simp_all add: id_bits_def)

lemma id_bits_Cons: "id_bits (b # bs) = byte_bits b @ id_bits bs"
  by (simp add: id_bits_def)

lemma nth_id_bits: "j < length bs \<Longrightarrow> k < 8 \<Longrightarrow> id_bits bs ! (8 * j + k) = bit (bs ! j) (7 - k)"
proof (induction bs arbitrary: j)
  case (Cons b bs)
  then show ?case
    by (cases j) (simp_all add: id_bits_Cons nth_append byte_bits_def)
qed simp

lemma takeWhile_at_least: "n \<le> length xs \<Longrightarrow> \<forall>i<n. P (xs ! i) \<Longrightarrow> n \<le> length (takeWhile P xs)"
proof (induction xs arbitrary: n)
  case (Cons x xs)
  then show ?case by (cases n) (auto simp: All_less_Suc2)
qed simp

lemma takeWhile_at_most: "i < length xs \<Longrightarrow> \<not> P (xs ! i) \<Longrightarrow> length (takeWhile P xs) \<le> i"
proof (induction xs arbitrary: i)
  case (Cons x xs)
  then show ?case by (cases i) auto
qed simp

lemma mtable_counts: "mtable ! unat w = length (takeWhile Not (byte_bits w))"
proof -
  let ?zeros = "\<lambda>n::nat. length (takeWhile Not (map (\<lambda>k. odd (n div 2 ^ (7 - k))) [0..<8]))"
  have table: "mtable = map ?zeros [0..<256]"
    by code_simp
  have "mtable ! n = ?zeros n" if "n < 256" for n
    using that unfolding table by (simp only: nth_map length_upt nth_upt add_0 diff_zero)
  moreover have "unat w < 256"
    using uint_lt2p [of w] by (simp add: nat_less_iff flip: nat_uint_eq)
  ultimately have "mtable ! unat w = ?zeros (unat w)" .
  then show ?thesis by (simp add: byte_bits_def bit_unsigned_iff flip: bit_iff_odd)
qed

lemma byte_bits_xor: "byte_bits (v XOR w) = map2 (\<noteq>) (byte_bits v) (byte_bits w)"
  by (simp add: byte_bits_def bit_xor_iff zip_map_map flip: map_map) (simp add: zip_same_conv_map)

lemma byte_bits_zero: "takeWhile Not (byte_bits w) = byte_bits w \<longleftrightarrow> w = 0"
proof -
  have "w = 0 \<longleftrightarrow> (\<forall>k<8. \<not> bit w k)"
    using bit_imp_le_length [of w] by (auto simp: bit_eq_iff)
  also have "\<dots> \<longleftrightarrow> (\<forall>k<8. \<not> bit w (7 - k))"
  proof (intro iffI allI impI)
    fix k :: nat
    assume "\<forall>k<8. \<not> bit w (7 - k)" "k < 8"
    then show "\<not> bit w k" using spec [of "\<lambda>k. k < 8 \<longrightarrow> \<not> bit w (7 - k)" "7 - k"] by auto
  qed simp
  finally show ?thesis by (auto simp: takeWhile_eq_all_conv byte_bits_def)
qed

lemma bit1_loop_prefix:
  "length a = length b \<Longrightarrow> bit1_loop n (map2 (XOR) a b) = n + common_prefix a b"
proof (induction a b arbitrary: n rule: list_induct2)
  case (Cons x a y b)
  let ?z = "zip (byte_bits x) (byte_bits y)"
  have diff: "takeWhile Not (byte_bits (x XOR y)) = map (\<lambda>(p, q). p \<noteq> q) (takeWhile (\<lambda>(p, q). p = q) ?z)"
    by (simp add: byte_bits_xor takeWhile_map comp_def case_prod_beta')
  show ?case
  proof (cases "x XOR y = 0")
    case True
    then have "x = y" by (auto simp: bit_eq_iff bit_xor_iff)
    moreover have "takeWhile (\<lambda>(p, q). p = q) (zip (byte_bits y) (byte_bits y) @ r)
        = zip (byte_bits y) (byte_bits y) @ takeWhile (\<lambda>(p, q). p = q) r" for r
      by (rule takeWhile_append2) (auto simp: zip_same_conv_map)
    ultimately show ?thesis
      using True Cons.IH by (simp add: common_prefix_def id_bits_Cons mtable_def)
  next
    case False
    then have "takeWhile (\<lambda>(p, q). p = q) ?z \<noteq> ?z"
      using byte_bits_zero [of "x XOR y"] arg_cong [OF diff, of length]
      by (metis length_map length_byte_bits length_zip min.idem takeWhile_eq_take take_all_iff order_refl)
    then have "takeWhile (\<lambda>(p, q). p = q) (?z @ zip (id_bits a) (id_bits b)) = takeWhile (\<lambda>(p, q). p = q) ?z"
      by (auto simp: takeWhile_append takeWhile_eq_all_conv)
    with False show ?thesis
      using arg_cong [OF diff, of length] by (simp add: common_prefix_def id_bits_Cons mtable_counts)
  qed
qed (simp add: common_prefix_def id_bits_def)

lemma index_common_prefix:
  "length target = 20 \<Longrightarrow> length (b_tableid t) = 20 \<Longrightarrow>
     kt_bit1_index_of t target = common_prefix target (b_tableid t)"
  by (simp add: kt_bit1_index_of_def bit1_start_at_def bit1_loop_prefix)

lemma common_prefix_le: "common_prefix a b \<le> 8 * min (length a) (length b)"
  using length_takeWhile_le [of "\<lambda>(x, y). x = y" "zip (id_bits a) (id_bits b)"]
  by (simp add: common_prefix_def min_def split: if_splits)

lemma index_le: "is_id i \<Longrightarrow> length (b_tableid t) = 20 \<Longrightarrow> kt_bit1_index_of t i \<le> 160"
  using common_prefix_le [of i "b_tableid t"] by (simp add: index_common_prefix is_id_def)

text \<open>The prefix is at least \<open>n\<close> long when the bits below \<open>n\<close> agree.\<close>

lemma common_prefix_ge:
  assumes "length a = length b"
    and "\<And>j k. j < length a \<Longrightarrow> k < 8 \<Longrightarrow> 8 * j + k < n \<Longrightarrow> bit (a ! j) (7 - k) = bit (b ! j) (7 - k)"
    and "n \<le> 8 * length a"
  shows "n \<le> common_prefix a b"
proof -
  have "id_bits a ! m = id_bits b ! m" if "m < n" for m
    using that assms(2) [of "m div 8" "m mod 8"] nth_id_bits [of "m div 8" _ "m mod 8"] assms(1,3) by simp
  then show ?thesis
    using assms(1,3) by (auto simp: common_prefix_def intro!: takeWhile_at_least)
qed

lemma common_prefix_differs:
  assumes "length a = length b" and "j < length a" and "k < 8"
    and "bit (a ! j) (7 - k) \<noteq> bit (b ! j) (7 - k)"
  shows "common_prefix a b \<le> 8 * j + k"
  using assms nth_id_bits [of j a k] nth_id_bits [of j b k]
  by (auto simp: common_prefix_def intro!: takeWhile_at_most)

section \<open>The table in order\<close>

text \<open>
  Each bucket holds only contacts that share as many bits with us as its index says; the buckets
  behind \<open>b_nbucket1\<close> are empty, and those from \<open>b_nbucket0\<close> on hold at most eight contacts.
\<close>

definition in_slot :: "byte list \<Rightarrow> nat \<Rightarrow> byte list \<Rightarrow> bool" where
  "in_slot tid i x \<longleftrightarrow> is_id x \<and> common_prefix x tid = i"

definition held :: "kbucket list \<Rightarrow> nat \<Rightarrow> nat \<Rightarrow> nat" where
  "held bs lo hi = (\<Sum>i = lo..<hi. b_nknode (bs ! i))"

definition buckets_ok :: "byte list \<Rightarrow> nat \<Rightarrow> kbucket list \<Rightarrow> bool" where
  "buckets_ok tid n bs \<longleftrightarrow> length bs = 160 \<and> (\<forall>i<160. bucket_ok (in_slot tid i) (bs ! i))
     \<and> (\<forall>i<160. n \<le> i \<longrightarrow> b_nknode (bs ! i) = 0)"

definition table_ok :: "ktable \<Rightarrow> bool" where
  "table_ok t \<longleftrightarrow> length (b_tableid t) = 20 \<and> buckets_ok (b_tableid t) (b_nbucket1 t) (b_buckets t)
     \<and> b_nbucket0 t \<le> b_nbucket1 t \<and> b_nbucket1 t \<le> 160
     \<and> held (b_buckets t) (b_nbucket0 t) (b_nbucket1 t) \<le> 8"

interpretation slot: bucket_ids "in_slot tid i" for tid i
  by unfold_locales (simp add: in_slot_def)

lemma in_slot_index:
  "length (b_tableid t) = 20 \<Longrightarrow> is_id x \<Longrightarrow> in_slot (b_tableid t) (kt_bit1_index_of t x) x"
  by (simp add: in_slot_def is_id_def index_common_prefix)

lemma buckets_ok_update:
  "buckets_ok tid n bs \<Longrightarrow> i < 160 \<Longrightarrow> bucket_ok (in_slot tid i) b \<Longrightarrow> i < n \<or> b_nknode b = 0 \<Longrightarrow>
     buckets_ok tid n (bs[i := b])"
  by (auto simp: buckets_ok_def nth_list_update)

lemma buckets_ok_mono: "buckets_ok tid n bs \<Longrightarrow> n \<le> m \<Longrightarrow> buckets_ok tid m bs"
  by (auto simp: buckets_ok_def)

lemma held_same: "map b_nknode bs = map b_nknode bs' \<Longrightarrow> hi \<le> length bs \<Longrightarrow> held bs lo hi = held bs' lo hi"
  unfolding held_def
  by (rule sum.cong) (auto dest: arg_cong [where f = "\<lambda>xs. xs ! _"] map_eq_imp_length_eq
      simp: list_eq_iff_nth_eq)

lemma count_loop:
  assumes "lo \<le> hi" and "hi \<le> length bs"
  shows "for_loop lo hi (\<lambda>i cnt. bindR (arr_get bs (int i)) (\<lambda>b. Inr (cnt + int (b_nknode b)))) 0
    = Inr (int (held bs lo hi))"
proof -
  have "gives (\<lambda>c. c = int (held bs lo hi))
    (for_loop lo hi (\<lambda>i cnt. bindR (arr_get bs (int i)) (\<lambda>b. Inr (cnt + int (b_nknode b)))) 0)"
    by (rule gives_for_loop [where P = "\<lambda>i c. c = int (held bs lo i)"])
       (use assms in \<open>auto simp: held_def\<close>)
  then show ?thesis by (simp add: gives_iff)
qed

lemma shrink_result:
  "n0 \<le> hi \<Longrightarrow> hi \<le> length bs \<Longrightarrow>
     gives (\<lambda>n. n0 \<le> n \<and> n \<le> hi \<and> held bs n hi \<le> 8) (shrink bs n0 (int (held bs n0 hi)))"
proof (induction "hi - n0" arbitrary: n0)
  case 0
  then show ?case by (subst shrink.simps) (simp add: held_def)
next
  case (Suc k)
  then have split: "held bs n0 hi = b_nknode (bs ! n0) + held bs (Suc n0) hi"
    by (simp add: held_def sum.atLeast_Suc_lessThan)
  have "gives (\<lambda>n. Suc n0 \<le> n \<and> n \<le> hi \<and> held bs n hi \<le> 8) (shrink bs (Suc n0) (int (held bs (Suc n0) hi)))"
    using Suc by (intro Suc.hyps(1)) auto
  then show ?case
    using Suc.prems Suc.hyps(2) by (subst shrink.simps) (auto simp: split intro: gives_mono)
qed

lemma kt_insert_node_ok:
  assumes "table_ok t" and "is_id (kadid x)"
  shows "gives (\<lambda>(r, t'). r = 0 \<and> table_ok t' \<and> b_tableid t' = b_tableid t) (kt_insert_node now t x c)"
proof (cases "kt_bit1_index_of t (kadid x) < 160")
  case True
  let ?i = "kt_bit1_index_of t (kadid x)"
  let ?n = "if ?i + 1 > b_nbucket1 t then ?i + 1 else b_nbucket1 t"
  have t: "buckets_ok (b_tableid t) ?n (b_buckets t)" "length (b_buckets t) = 160"
    "length (b_tableid t) = 20" "bucket_ok (in_slot (b_tableid t) ?i) (b_buckets t ! ?i)"
    "b_nbucket0 t \<le> ?n" "?n \<le> 160" "?i < ?n"
    using assms True buckets_ok_mono by (auto simp: table_ok_def buckets_ok_def)
  have upd: "gives (\<lambda>(r, b'). bucket_ok (in_slot (b_tableid t) ?i) b' \<and> r = 0)
      (kb_update_contact now (b_buckets t ! ?i) x c)"
    by (rule gives_mono [OF slot.kb_update_contact_ok [OF t(4) in_slot_index [OF t(3) assms(2)]]]) auto
  have "gives (\<lambda>(r, t'). r = 0 \<and> table_ok t' \<and> b_tableid t' = b_tableid t)
    (bindR (kb_update_contact now (b_buckets t ! ?i) x c) (\<lambda>(val, b).
      let bs = (b_buckets t)[?i := b] in
      bindR (shrink bs (b_nbucket0 t) (int (held bs (b_nbucket0 t) ?n))) (\<lambda>n0.
      Inr (val, t\<lparr>b_nbucket1 := ?n, kt_last_seen := now, b_buckets := bs,
        kt_need_ping := kt_need_ping t \<or> kb_need_ping b, b_nbucket0 := n0\<rparr>))))"
  proof (rule gives_bind [OF upd], goal_cases)
    case (1 s)
    obtain r b where s: "s = (r, b)" by (cases s)
    let ?bs = "(b_buckets t)[?i := b]"
    have ok: "buckets_ok (b_tableid t) ?n ?bs" "length ?bs = 160"
      using 1 t True by (auto simp: s intro: buckets_ok_update)
    show ?case
      unfolding s prod.case Let_def
      by (rule gives_bind [OF shrink_result]) (use t ok 1 s in \<open>auto simp: table_ok_def\<close>)
  qed
  moreover have "kt_insert_node now t x c = bindR (kb_update_contact now (b_buckets t ! ?i) x c) (\<lambda>(val, b).
      let bs = (b_buckets t)[?i := b] in
      bindR (shrink bs (b_nbucket0 t) (int (held bs (b_nbucket0 t) ?n))) (\<lambda>n0.
      Inr (val, t\<lparr>b_nbucket1 := ?n, kt_last_seen := now, b_buckets := bs,
        kt_need_ping := kt_need_ping t \<or> kb_need_ping b, b_nbucket0 := n0\<rparr>)))"
    using True t by (auto simp: kt_insert_node_def Let_def count_loop intro!: arg_cong [where f = "bindR _"] ext)
  ultimately show ?thesis by simp
qed (use assms in \<open>simp add: kt_insert_node_def\<close>)

lemma kt_failed_contact_ok:
  assumes "table_ok t" and "is_id (kadid x)"
  shows "gives (\<lambda>t'. table_ok t' \<and> b_tableid t' = b_tableid t) (kt_failed_contact now t x)"
proof (cases "kt_bit1_index_of t (kadid x) < b_nbucket1 t")
  case True
  let ?i = "kt_bit1_index_of t (kadid x)"
  have t: "?i < 160" "length (b_buckets t) = 160" "buckets_ok (b_tableid t) (b_nbucket1 t) (b_buckets t)"
    "bucket_ok (in_slot (b_tableid t) ?i) (b_buckets t ! ?i)" "b_nbucket1 t \<le> 160"
    using assms True by (auto simp: table_ok_def buckets_ok_def)
  have "held ((b_buckets t)[?i := b]) lo hi = held (b_buckets t) lo hi"
    if "b_nknode b = b_nknode (b_buckets t ! ?i)" "hi \<le> 160" for b lo hi
    using that t(1,2) by (intro held_same) (auto simp: map_update list_update_same_conv)
  then show ?thesis
    using True assms t unfolding kt_failed_contact_def Let_def
    by (auto simp: table_ok_def buckets_ok_update
        intro!: gives_bind [OF slot.kb_failed_contact_ok [OF t(4) assms(2)]])
qed (use assms in \<open>simp add: kt_failed_contact_def\<close>)

lemma kt_get_ping_ok:
  assumes "table_ok t" and "sz \<le> length items"
  shows "gives (\<lambda>(t', items', n). table_ok t' \<and> b_tableid t' = b_tableid t
      \<and> length items' = length items \<and> n \<le> sz) (kt_get_ping now t items sz)"
proof (cases "sz = 0")
  case False
  let ?I = "\<lambda>(_::nat) (bs, items', n). buckets_ok (b_tableid t) (b_nbucket1 t) bs
    \<and> map b_nknode bs = map b_nknode (b_buckets t) \<and> length items' = length items \<and> n \<le> sz"
  have t: "b_nbucket1 t \<le> 160" using assms by (simp add: table_ok_def)
  show ?thesis
    unfolding kt_get_ping_def if_not_P [OF False]
  proof (rule gives_bind [OF gives_for_loop [where P = ?I]], goal_cases)
    case (3 i s)
    obtain bs its n where s: "s = (bs, its, n)" by (cases s)
    have I: "buckets_ok (b_tableid t) (b_nbucket1 t) bs" "map b_nknode bs = map b_nknode (b_buckets t)"
      "length its = length items" "n \<le> sz"
      using 3 by (auto simp: s)
    have i: "i < 160" "length bs = 160" "bucket_ok (in_slot (b_tableid t) i) (bs ! i)"
      using 3 t I by (auto simp: buckets_ok_def)
    have "n + (sz - n) \<le> length its" using I assms(2) by simp
    note ping = slot.kb_get_ping_ok [OF i(3) this]
    have "map b_nknode (bs[i := b]) = map b_nknode bs" if "b_nknode b = b_nknode (bs ! i)" for b
      using that i by (auto simp: map_update list_update_same_conv)
    then show ?case
      using I i 3 by (auto simp: s intro!: gives_bind [OF ping] buckets_ok_update)
  next
    case (4 s)
    then have "held (fst s) lo hi = held (b_buckets t) lo hi" if "hi \<le> 160" for lo hi
      using that by (intro held_same) (auto simp: buckets_ok_def)
    with 4 assms(1) show ?case by (auto simp: table_ok_def)
  qed (use assms in \<open>auto simp: table_ok_def\<close>)
qed (use assms in \<open>simp add: kt_get_ping_def\<close>)

section \<open>Refreshing\<close>

lemma copy_bytes_result:
  assumes "length bootid = 20" and "length tmpid = 20" and "8 * j + u < 160"
    and "take j bootid = take j tmpid"
  shows "gives (\<lambda>(r, u', j'). length r = 20 \<and> u' = u mod 8 \<and> j' = j + u div 8
      \<and> take j' r = take j' tmpid) (copy_bytes bootid tmpid u j)"
  using assms
proof (induction bootid tmpid u j rule: copy_bytes.induct)
  case (1 bootid tmpid u j)
  show ?case
  proof (cases "8 \<le> u")
    case True
    then have j: "j < 20" using 1(4) by simp
    have "take (j + 1) (bootid[j := tmpid ! j]) = take (j + 1) tmpid"
      using j 1(2,3,5) by (simp add: take_Suc_conv_app_nth)
    then have "gives (\<lambda>(r, u', j'). length r = 20 \<and> u' = (u - 8) mod 8 \<and> j' = j + 1 + (u - 8) div 8
        \<and> take j' r = take j' tmpid) (copy_bytes (bootid[j := tmpid ! j]) tmpid (u - 8) (j + 1))"
      using True j 1(2-5) by (intro 1(1)) (auto simp: arr_get_Inr_iff arr_set_Inr_iff)
    moreover have "(u - 8) mod 8 = u mod 8" "1 + (u - 8) div 8 = u div 8"
      using True by (simp_all add: le_mod_geq [of 8 u] le_div_geq [of 8 u])
    ultimately show ?thesis
      using True j 1(2,3) by (subst copy_bytes.simps) (auto elim!: gives_mono)
  next
    case False
    then show ?thesis
      using 1(2-5) by (subst copy_bytes.simps) simp
  qed
qed

lemma grid_eq:
  assumes "map (\<lambda>u. map (P u) [0..<8]) [0..<8] = map (\<lambda>u. map (Q u) [0..<8]) [0..<8]"
    and "u < 8" and "k < (8 :: nat)"
  shows "P u k = Q u k"
  using assms by auto

lemma bit_mask_table: "u < 8 \<Longrightarrow> k < 8 \<Longrightarrow> bit (mask_table ! u) (7 - k) \<longleftrightarrow> k \<le> u"
  by (rule grid_eq [of "\<lambda>u k. bit (mask_table ! u) (7 - k)" "\<lambda>u k. k \<le> u"])
     (simp_all add: mask_table_def upt_rec)

lemma bit_flip: "u < 8 \<Longrightarrow> k < 8 \<Longrightarrow> bit (drop_bit u (0x80 :: byte)) (7 - k) \<longleftrightarrow> k = u"
  by (rule grid_eq [of "\<lambda>u k. bit (drop_bit u (0x80 :: byte)) (7 - k)" "\<lambda>u k. k = u"])
     (simp_all add: upt_rec)

text \<open>The identifier agrees with ours up to and including bit \<open>index\<close>, or differs there for the first time.\<close>

lemma agrees_below:
  assumes "length r = 20" and "length tid = 20" and "j < 20" and "take j r = take j tid" and "n \<le> 8 * j + 8"
    and "\<And>k. k < 8 \<Longrightarrow> 8 * j + k < n \<Longrightarrow> bit (r ! j) (7 - k) = bit (tid ! j) (7 - k)"
  shows "n \<le> common_prefix r tid"
proof (rule common_prefix_ge)
  fix i k :: nat
  assume ik: "i < length r" "k < 8" "8 * i + k < n"
  then consider "i < j" | "i = j" using assms(5) by linarith
  then show "bit (r ! i) (7 - k) = bit (tid ! i) (7 - k)"
  proof cases
    case 1
    then have "r ! i = tid ! i" using arg_cong [OF assms(4), of "\<lambda>xs. xs ! i"] by simp
    then show ?thesis by simp
  qed (use assms(6) ik in blast)
qed (use assms in auto)

lemma genrefreshid_ok:
  assumes "length rnd = 20" and "length (b_tableid t) = 20" and "index < 160"
  shows "gives (\<lambda>i. is_id i \<and> (if index < size_of_table t then kt_bit1_index_of t i = index
      else kt_bit1_index_of t i > index)) (genrefreshid rnd t index)"
  unfolding genrefreshid_def getkadid_def
proof (rule gives_bind [OF copy_bytes_result], goal_cases)
  case (5 s)
  define u where "u = index mod 8"
  define j where "j = index div 8"
  obtain r where s: "s = (r, u, j)" and r: "length r = 20" "take j r = take j (b_tableid t)"
    using 5 by (cases s) (auto simp: u_def j_def)
  have uj: "u < 8" "j < 20" "index = 8 * j + u" using assms(3) by (auto simp: u_def j_def)
  let ?c = "(b_tableid t ! j AND mask_table ! u) OR (r ! j AND NOT (mask_table ! u))"
  let ?r = "r[j := ?c]" and ?q = "r[j := ?c XOR drop_bit u 0x80]"
  have bits: "bit ?c (7 - k) = (if k \<le> u then bit (b_tableid t ! j) (7 - k) else bit (r ! j) (7 - k))"
    if "k < 8" for k
    using bit_mask_table [OF uj(1) that] by (auto simp: bit_or_iff bit_and_iff bit_not_iff)
  have "index + 1 \<le> common_prefix ?r (b_tableid t)"
    using assms uj r by (intro agrees_below [of _ _ j]) (auto simp: bits)
  moreover have "index \<le> common_prefix ?q (b_tableid t)"
    using assms uj r by (intro agrees_below [of _ _ j]) (auto simp: bits bit_xor_iff bit_flip)
  moreover have "common_prefix ?q (b_tableid t) \<le> index"
    unfolding uj(3)
    using assms uj r by (intro common_prefix_differs) (auto simp: bits bit_xor_iff bit_flip)
  moreover have "u < length mask_table"
    using uj(1) by (simp add: mask_table_def)
  moreover have "j < length (b_tableid t)" "j < length r"
    using uj assms r by simp_all
  moreover have "kt_bit1_index_of t ?r = common_prefix ?r (b_tableid t)"
    "kt_bit1_index_of t ?q = common_prefix ?q (b_tableid t)"
    using assms r by (simp_all add: index_common_prefix)
  ultimately show ?case
    using r(1) by (simp add: s is_id_def)
qed (use assms in auto)

section \<open>The table over time\<close>

definition fresh_bucket :: "kbucket \<Rightarrow> bool" where
  "fresh_bucket b \<longleftrightarrow> b = kbucket_new (b_knodes b) (b_backups b) \<and> length (b_knodes b) = 8
     \<and> length (b_backups b) = 8"

inductive table_step :: "ktable \<Rightarrow> ktable \<Rightarrow> bool" where
  contact: "is_id (kadid x) \<Longrightarrow> kt_insert_node now t x contacted = Inr (r, t') \<Longrightarrow> table_step t t'"
| failing: "is_id (kadid x) \<Longrightarrow> kt_failed_contact now t x = Inr t' \<Longrightarrow> table_step t t'"
| pinging: "sz \<le> length items \<Longrightarrow> kt_get_ping now t items sz = Inr (t', items', n) \<Longrightarrow> table_step t t'"

lemma table_step_ok: "table_step t t' \<Longrightarrow> table_ok t \<Longrightarrow> table_ok t' \<and> b_tableid t' = b_tableid t"
proof (induction rule: table_step.induct)
  case (contact x now t c r t')
  then show ?case using kt_insert_node_ok [of t x now c] by (simp add: gives_iff)
next
  case (failing x now t t')
  then show ?case using kt_failed_contact_ok [of t x now] by (simp add: gives_iff)
next
  case (pinging sz items now t t' items' n)
  then show ?case using kt_get_ping_ok [of t sz items now] by (simp add: gives_iff)
qed

lemma table_ok_new:
  assumes "length tid = 20" and "length bs = 160" and "\<forall>b\<in>set bs. fresh_bucket b"
  shows "table_ok (ktable_new tid bs)"
proof -
  have b: "b_nknode (bs ! i) = 0" "bucket_ok (in_slot tid i) (bs ! i)" if "i < 160" for i
  proof -
    have "fresh_bucket (bs ! i)" using that assms by simp
    then have "b_nknode (bs ! i) = 0" "b_nbackup (bs ! i) = 0" "length (b_knodes (bs ! i)) = 8"
      "length (b_backups (bs ! i)) = 8"
      by (auto simp: fresh_bucket_def) (metis kbucket.simps kbucket_new_def)+
    then show "b_nknode (bs ! i) = 0" "bucket_ok (in_slot tid i) (bs ! i)"
      by (simp_all add: bucket_ok_def sized_def)
  qed
  then show ?thesis
    using assms by (simp add: table_ok_def buckets_ok_def ktable_new_def held_def)
qed

lemma table_steps_ok:
  assumes "table_step\<^sup>*\<^sup>* t t'" and "table_ok t"
  shows "table_ok t' \<and> b_tableid t' = b_tableid t"
  using assms by (induction rule: rtranclp_induct) (auto dest: table_step_ok)

section \<open>Properties\<close>

text \<open>
  C33. The index of a contact, which the code finds with a table of leading zeros, is the number of
  leading bits it shares with our identifier; it is 160 only for our own identifier.
\<close>

theorem index_is_shared_prefix:
  assumes "length target = 20" and "length (b_tableid t) = 20"
  shows "kt_bit1_index_of t target = common_prefix target (b_tableid t)
    \<and> (kt_bit1_index_of t target = 160 \<longleftrightarrow> target = b_tableid t)"
proof -
  have "common_prefix target (b_tableid t) < 160" if ne: "target \<noteq> b_tableid t"
  proof -
    obtain j where j: "j < 20" "target ! j \<noteq> b_tableid t ! j"
      using ne assms nth_equalityI [of target "b_tableid t"] by auto
    then obtain m where m: "m < 8" "bit (target ! j) m \<noteq> bit (b_tableid t ! j) m"
      using bit_word_eqI [of "target ! j" "b_tableid t ! j"] by auto
    then have "common_prefix target (b_tableid t) \<le> 8 * j + (7 - m)"
      using assms j by (intro common_prefix_differs) auto
    with j show ?thesis by linarith
  qed
  moreover have "160 \<le> common_prefix (b_tableid t) (b_tableid t)"
    using assms(2) by (intro common_prefix_ge) auto
  moreover have "common_prefix target (b_tableid t) \<le> 160"
    using assms common_prefix_le [of target "b_tableid t"] by simp
  ultimately show ?thesis
    using assms by (fastforce simp: index_common_prefix)
qed

lemma demo_prefix: "common_prefix (demo_id 3) (demo_id 1) = 6"
proof -
  have "byte_bits 3 = [False, False, False, False, False, False, True, True]"
    "byte_bits 1 = [False, False, False, False, False, False, False, True]"
    by (simp_all add: byte_bits_def upt_8)
  then show ?thesis
    by (simp add: common_prefix_def demo_id_def id_bits_Cons)
qed

theorem index_is_shared_prefix_witness:
  "kt_bit1_index_of (ktable_new (demo_id 1) []) (demo_id 3) = 6"
  using index_is_shared_prefix [of "demo_id 3" "ktable_new (demo_id 1) []"] demo_prefix
  by (simp add: demo_id_def ktable_new_def)

text \<open>
  C31. However contacts are added, fail and are pinged, the table stays in order: each bucket holds
  only contacts with the prefix that its index says, at most eight of them, no bucket behind
  \<open>b_nbucket1\<close> holds any, from \<open>b_nbucket0\<close> on there are at most eight, and no operation faults.
\<close>

theorem table_stays_in_order:
  assumes "length tid = 20" and "length bs = 160" and "\<forall>b\<in>set bs. fresh_bucket b"
    and "table_step\<^sup>*\<^sup>* (ktable_new tid bs) t"
  shows "table_ok t \<and> b_tableid t = tid
    \<and> (\<forall>now x c. is_id (kadid x) \<longrightarrow> gives (\<lambda>(r, t'). r = 0 \<and> table_step t t') (kt_insert_node now t x c)
        \<and> gives (table_step t) (kt_failed_contact now t x))
    \<and> (\<forall>now items sz. sz \<le> length items \<longrightarrow>
        gives (\<lambda>(t', _, n). n \<le> sz \<and> table_step t t') (kt_get_ping now t items sz))"
proof -
  have ok: "table_ok t \<and> b_tableid t = tid"
    using table_steps_ok [OF assms(4) table_ok_new [OF assms(1-3)]] by (simp add: ktable_new_def)
  have "gives (\<lambda>(r, t'). r = 0 \<and> table_step t t') (kt_insert_node now t x c)" if "is_id (kadid x)" for now x c
    using kt_insert_node_ok [of t x now c] ok that by (auto simp: gives_iff intro: contact)
  moreover have "gives (table_step t) (kt_failed_contact now t x)" if "is_id (kadid x)" for now x
    using kt_failed_contact_ok [of t x now] ok that by (auto simp: gives_iff intro: failing)
  moreover have "gives (\<lambda>(t', _, n). n \<le> sz \<and> table_step t t') (kt_get_ping now t items sz)"
    if "sz \<le> length items" for now items sz
    using kt_get_ping_ok [of t sz items now] ok that by (auto simp: gives_iff intro: pinging)
  ultimately show ?thesis using ok by blast
qed

definition demo_fresh :: kbucket where
  "demo_fresh = kbucket_new (replicate 8 (knode_new 0 nullid 0 0)) (replicate 8 (knode_new 0 nullid 0 0))"

definition demo_table :: ktable where
  "demo_table = ktable_new (demo_id 1) (replicate 160 demo_fresh)"

definition demo_contact :: "nat \<Rightarrow> kitem" where
  "demo_contact n = \<lparr>kadid = demo_id n, host = of_nat n, port = 6881, atime = 0, failed = 0\<rparr>"

lemma demo_table_fresh: "\<forall>b\<in>set (replicate 160 demo_fresh). fresh_bucket b"
  by (simp add: demo_fresh_def fresh_bucket_def kbucket_new_def)

lemma demo_table_run:
  "gives (table_step demo_table) (bindR (kt_insert_node 1000 demo_table (demo_contact 3) True) (\<lambda>(_, t). Inr t))"
proof -
  have "table_ok demo_table"
    using table_ok_new [of "demo_id 1" "replicate 160 demo_fresh"] demo_table_fresh
    by (simp add: demo_table_def demo_id_def)
  moreover have id: "is_id (kadid (demo_contact 3))"
    by (simp add: is_id_def demo_contact_def demo_id_def)
  ultimately show ?thesis
    using kt_insert_node_ok [of demo_table "demo_contact 3" 1000 True] contact [OF id]
    by (auto simp: gives_iff)
qed

theorem table_stays_in_order_witness:
  "gives (\<lambda>t. table_ok t \<and> table_ok t \<and> gives (\<lambda>(r, t'). r = 0) (kt_insert_node 1001 t (demo_contact 5) False))
    (bindR (kt_insert_node 1000 demo_table (demo_contact 3) True) (\<lambda>(_, t). Inr t))"
proof (rule gives_mono [OF demo_table_run])
  fix t
  assume "table_step demo_table t"
  then have "table_step\<^sup>*\<^sup>* (ktable_new (demo_id 1) (replicate 160 demo_fresh)) t"
    by (simp add: demo_table_def)
  note reach = table_stays_in_order [OF _ _ demo_table_fresh this]
  have "length (demo_id 1) = 20" "is_id (kadid (demo_contact 5))"
    by (simp_all add: demo_id_def demo_contact_def is_id_def)
  with reach show "table_ok t \<and> table_ok t
      \<and> gives (\<lambda>(r, t'). r = 0) (kt_insert_node 1001 t (demo_contact 5) False)"
    by (auto simp: gives_iff) blast
qed


text \<open>
  C34. The identifier drawn to refresh bucket \<open>index\<close> belongs to that bucket when the table has grown
  beyond it, so the assertion at the end of \<open>genrefreshid\<close> cannot fail; otherwise it shares more
  than \<open>index\<close> bits with ours. The random bytes do not matter.
\<close>

theorem genrefreshid_belongs:
  assumes "length rnd = 20" and "length (b_tableid t) = 20" and "index < 160"
  shows "gives (\<lambda>i. length i = 20 \<and> (if index < size_of_table t then kt_bit1_index_of t i = index
      else kt_bit1_index_of t i > index)) (genrefreshid rnd t index)"
  by (rule gives_mono [OF genrefreshid_ok [OF assms]]) (simp add: is_id_def)

theorem genrefreshid_belongs_witness:
  "gives (\<lambda>i. kt_bit1_index_of (demo_table\<lparr>b_nbucket0 := 12\<rparr>) i = 11)
    (genrefreshid (replicate 20 255) (demo_table\<lparr>b_nbucket0 := 12\<rparr>) 11)"
  using genrefreshid_belongs [of "replicate 20 255" "demo_table\<lparr>b_nbucket0 := 12\<rparr>" 11]
  by (auto simp: gives_iff size_of_table_def demo_table_def ktable_new_def demo_id_def)

end
