(* ===== verification/Dht_Search.thy ===== *)
theory Dht_Search
  imports Dht_Table "HOL-Library.Multiset"
begin

text \<open>
  What a search of the routing table returns (\<open>ktable::find_nodes\<close>): the buckets are visited in an
  order in which their contacts get farther and farther from the target, so the first eight are
  the closest, as far as shared prefixes tell.
\<close>

section \<open>Searching\<close>

text \<open>The buckets in the order a search visits them: from the one of the target up, then down.\<close>

definition visit_order :: "ktable \<Rightarrow> byte list \<Rightarrow> nat list" where
  "visit_order t target =
     (let i = kt_bit1_index_of t target in [i..<b_nbucket1 t] @ rev [0..<min i (b_nbucket1 t)])"

definition contacts_for :: "int \<Rightarrow> ktable \<Rightarrow> byte list \<Rightarrow> bool \<Rightarrow> kitem list" where
  "contacts_for now t target validate =
     take 8 (concat (map (\<lambda>i. answers now validate (b_buckets t ! i)) (visit_order t target)))"

lemma copy_items_blit:
  assumes "length xs + n \<le> length items" and "n \<le> length ys" and "length ys \<le> length vitems"
  shows "copy_items (blit items 0 xs) (length xs) (blit vitems 0 ys) n = Inr (blit items 0 (xs @ take n ys))"
  using assms by (simp add: copy_items_def) (simp add: blit_def add.commute)

lemma visit_buckets_result:
  assumes "\<forall>i\<in>set is. i < length (b_buckets t) \<and> sized (b_buckets t ! i)"
    and "8 \<le> length items" and "8 \<le> length vitems" and "length xs \<le> 8"
  shows "gives (\<lambda>(vitems', items', n). 8 \<le> length vitems'
      \<and> items' = blit items 0 (take 8 (xs @ concat (map (\<lambda>i. answers now validate (b_buckets t ! i)) is)))
      \<and> n = min 8 (length (xs @ concat (map (\<lambda>i. answers now validate (b_buckets t ! i)) is))))
    (visit_buckets now t validate is vitems (blit items 0 xs) (length xs))"
  using assms
proof (induction "is" arbitrary: vitems xs)
  case (Cons i "is")
  let ?ans = "answers now validate (b_buckets t ! i)"
  have b: "sized (b_buckets t ! i)" "i < length (b_buckets t)" using Cons.prems by auto
  have v: "length (blit vitems 0 ?ans) = length vitems" "length ?ans \<le> length vitems"
    using Cons.prems length_answers [OF b(1), of now validate] by auto
  show ?case
  proof (cases "8 \<le> length ?ans + length xs")
    case True
    then show ?thesis
      using b v Cons.prems by (simp add: kb_find_nodes_result copy_items_blit)
  next
    case False
    then have "gives (\<lambda>(vitems', items', n). 8 \<le> length vitems'
        \<and> items' = blit items 0 (take 8 ((xs @ ?ans) @ concat (map (\<lambda>i. answers now validate (b_buckets t ! i)) is)))
        \<and> n = min 8 (length ((xs @ ?ans) @ concat (map (\<lambda>i. answers now validate (b_buckets t ! i)) is))))
      (visit_buckets now t validate is (blit vitems 0 ?ans) (blit items 0 (xs @ ?ans)) (length (xs @ ?ans)))"
      using Cons.prems v by (intro Cons.IH) auto
    then show ?thesis
      using False b v Cons.prems by (simp add: kb_find_nodes_result copy_items_blit)
  qed
qed simp

lemma kt_find_nodes_result:
  assumes "table_ok t" and "is_id target" and "8 \<le> length vitems" and "8 \<le> length items"
  shows "kt_find_nodes now t vitems target items validate =
    Inr (blit items 0 (contacts_for now t target validate), length (contacts_for now t target validate))"
proof -
  let ?i = "kt_bit1_index_of t target" and ?n = "b_nbucket1 t"
  let ?f = "\<lambda>is. concat (map (\<lambda>i. answers now validate (b_buckets t ! i)) is)"
  have t: "\<forall>i<160. sized (b_buckets t ! i)" "length (b_buckets t) = 160" "?n \<le> 160"
    using assms(1) by (auto simp: table_ok_def buckets_ok_def bucket_ok_def)
  have "gives (\<lambda>r. r = (blit items 0 (take 8 (take 8 (?f [?i..<?n]) @ ?f (rev [0..<min ?i ?n]))),
      min 8 (length (take 8 (?f [?i..<?n]) @ ?f (rev [0..<min ?i ?n])))))
    (kt_find_nodes now t vitems target items validate)"
    unfolding kt_find_nodes_def Let_def
  proof (rule gives_bind [OF visit_buckets_result [where xs = "[]" and items = items, simplified]], goal_cases)
    case (4 s)
    obtain v its n where s: "s = (v, its, n)" by (cases s)
    have "gives (\<lambda>(vitems', items', n). 8 \<le> length vitems'
        \<and> items' = blit items 0 (take 8 (take 8 (?f [?i..<?n]) @ ?f (rev [0..<min ?i ?n])))
        \<and> n = min 8 (length (take 8 (?f [?i..<?n]) @ ?f (rev [0..<min ?i ?n]))))
      (visit_buckets now t validate (rev [0..<min ?i ?n]) v (blit items 0 (take 8 (?f [?i..<?n])))
        (length (take 8 (?f [?i..<?n]))))"
      using 4 t assms by (intro visit_buckets_result) (auto simp: s)
    with 4 show ?case
      by (auto simp: s min_def length_concat comp_def elim!: gives_bind)
  qed (use t assms in auto)
  moreover have "take 8 (take 8 u @ w) = take 8 (u @ w)"
    "min 8 (length (take 8 u @ w)) = length (take 8 (u @ w))" for u w :: "kitem list"
    by (cases "length u \<le> 8"; simp)+
  ultimately show ?thesis
    by (simp only: gives_iff contacts_for_def visit_order_def Let_def map_append concat_append) simp
qed

section \<open>Closeness\<close>

fun agree :: "bool list \<Rightarrow> bool list \<Rightarrow> nat" where
  "agree (x # xs) (y # ys) = (if x = y then Suc (agree xs ys) else 0)"
| "agree _ _ = 0"

lemma common_prefix_agree: "common_prefix a b = agree (id_bits a) (id_bits b)"
proof -
  have "length (takeWhile (\<lambda>(x, y). x = y) (zip xs ys)) = agree xs ys" for xs ys
    by (induction xs ys rule: agree.induct) auto
  then show ?thesis by (simp add: common_prefix_def)
qed

text \<open>What two identifiers share with each other, from what either shares with a third.\<close>

lemma agree_third:
  assumes "length xs = length ts" and "length gs = length ts"
  shows "agree xs ts < agree gs ts \<Longrightarrow> agree xs gs = agree xs ts"
    and "agree gs ts < agree xs ts \<Longrightarrow> agree xs gs = agree gs ts"
    and "agree xs ts = agree gs ts \<Longrightarrow> agree gs ts < length ts \<Longrightarrow> agree gs ts < agree xs gs"
proof -
  have "(agree xs ts < agree gs ts \<longrightarrow> agree xs gs = agree xs ts)
    \<and> (agree gs ts < agree xs ts \<longrightarrow> agree xs gs = agree gs ts)
    \<and> (agree xs ts = agree gs ts \<longrightarrow> agree gs ts < length ts \<longrightarrow> agree gs ts < agree xs gs)"
    using assms(1) assms(2) [symmetric]
    by (induction xs ts gs rule: list_induct3) auto
  then show "agree xs ts < agree gs ts \<Longrightarrow> agree xs gs = agree xs ts"
    and "agree gs ts < agree xs ts \<Longrightarrow> agree xs gs = agree gs ts"
    and "agree xs ts = agree gs ts \<Longrightarrow> agree gs ts < length ts \<Longrightarrow> agree gs ts < agree xs gs"
    by blast+
qed

text \<open>
  How close a contact is to a target, as far as the buckets tell: the bits they share, where all
  contacts in the bucket of the target cnt the same.
\<close>

definition closeness :: "ktable \<Rightarrow> byte list \<Rightarrow> kitem \<Rightarrow> nat" where
  "closeness t target x = min (Suc (common_prefix target (b_tableid t))) (common_prefix (kadid x) target)"

lemma closeness_in_slot:
  assumes "in_slot (b_tableid t) i (kadid x)" and "is_id target" and "length (b_tableid t) = 20" and "i < 160"
  shows "closeness t target x =
    (let p = common_prefix target (b_tableid t) in if i < p then i else if i = p then Suc p else p)"
proof -
  have x: "length (id_bits (kadid x)) = length (id_bits (b_tableid t))"
    "length (id_bits target) = length (id_bits (b_tableid t))" "length (id_bits (b_tableid t)) = 160"
    "agree (id_bits (kadid x)) (id_bits (b_tableid t)) = i"
    using assms by (simp_all add: is_id_def in_slot_def common_prefix_agree)
  show ?thesis
    using agree_third [OF x(1,2)] x(3,4) assms(4)
    by (auto simp: closeness_def common_prefix_agree Let_def min_def)
qed

lemma answers_in_slot:
  "bucket_ok (in_slot tid i) b \<Longrightarrow> x \<in> set (answers now validate b) \<Longrightarrow> in_slot tid i (kadid x)"
  by (auto simp: answers_def nodes_def bucket_ok_def sized_def ids_ok_def knode_get_def in_set_conv_nth)

definition eligible :: "int \<Rightarrow> ktable \<Rightarrow> bool \<Rightarrow> kitem list" where
  "eligible now t validate = concat (map (answers now validate) (b_buckets t))"

lemma mset_concat_map: "mset (concat (map f xs)) = (\<Sum>x\<in>#mset xs. mset (f x))"
  by (induction xs) simp_all

lemma visit_all:
  assumes "table_ok t"
  shows "mset (concat (map (\<lambda>i. answers now validate (b_buckets t ! i)) (visit_order t target)))
    = mset (eligible now t validate)"
proof -
  let ?n = "b_nbucket1 t" and ?f = "\<lambda>i. mset (answers now validate (b_buckets t ! i))"
  have t: "length (b_buckets t) = 160" "?n \<le> 160" "\<forall>i<160. ?n \<le> i \<longrightarrow> b_nknode (b_buckets t ! i) = 0"
    using assms by (auto simp: table_ok_def buckets_ok_def)
  have "[0..<?n] = [0..<min i ?n] @ [i..<?n]" for i
    using upt_add_eq_append [of 0 i "?n - i"] by (cases "i \<le> ?n") (auto simp: min_def)
  then have "mset (visit_order t target) = mset [0..<?n]"
    by (metis (no_types, lifting) visit_order_def Let_def mset_append mset_rev union_commute)
  then have "mset (concat (map (\<lambda>i. answers now validate (b_buckets t ! i)) (visit_order t target)))
      = (\<Sum>i\<in>#mset [0..<?n]. ?f i)"
    by (simp only: mset_concat_map)
  also have "\<dots> = (\<Sum>i\<in>#mset [0..<160]. ?f i)"
  proof -
    have split: "[0..<160] = [0..<?n] @ [?n..<160]"
      using t(2) upt_add_eq_append [of 0 ?n "160 - ?n"] by simp
    have "(\<Sum>i\<in>#mset [?n..<160]. ?f i) = (\<Sum>i\<in>#mset [?n..<160]. {#})"
      using t(3) by (intro arg_cong [where f = sum_mset] image_mset_cong) (auto simp: answers_def nodes_def)
    then show ?thesis
      unfolding split mset_append image_mset_union sum_mset.union by (simp add: sum_mset.neutral)
  qed
  also have "\<dots> = mset (concat (map (answers now validate) (map ((!) (b_buckets t)) [0..<160])))"
    by (simp only: mset_concat_map map_map comp_def flip: mset_map)
  also have "map ((!) (b_buckets t)) [0..<160] = b_buckets t"
    using t(1) map_nth [of "b_buckets t"] by simp
  finally show ?thesis by (simp add: eligible_def)
qed

lemma sorted_wrt_concat_map:
  assumes "\<And>i x. i \<in> set is \<Longrightarrow> x \<in> set (f i) \<Longrightarrow> h x = (g i :: nat)"
    and "sorted_wrt (\<lambda>i j. g j \<le> g i) is"
  shows "sorted_wrt (\<lambda>x y. h y \<le> h x) (concat (map f is))"
  using assms
proof (induction "is")
  case (Cons i "is")
  have "sorted_wrt (\<lambda>x y. h y \<le> h x) (f i)"
    using Cons.prems(1) [of i] by (auto simp: sorted_wrt_iff_nth_less)
  moreover have "sorted_wrt (\<lambda>x y. h y \<le> h x) (concat (map f is))"
    using Cons by (intro Cons.IH) auto
  moreover have "h y \<le> h x" if "x \<in> set (f i)" "j \<in> set is" "y \<in> set (f j)" for x y j
    using Cons.prems(1) [of i x] Cons.prems(1) [of j y] Cons.prems(2) that by auto
  ultimately show ?case by (auto simp: sorted_wrt_append)
qed simp

lemma visits_by_closeness:
  assumes "table_ok t" and "is_id target"
  shows "sorted_wrt (\<lambda>x y. closeness t target y \<le> closeness t target x)
    (concat (map (\<lambda>i. answers now validate (b_buckets t ! i)) (visit_order t target)))"
proof (rule sorted_wrt_concat_map)
  let ?p = "common_prefix target (b_tableid t)"
  have t: "length (b_tableid t) = 20" "b_nbucket1 t \<le> 160"
    "\<forall>i<160. bucket_ok (in_slot (b_tableid t) i) (b_buckets t ! i)"
    using assms by (auto simp: table_ok_def buckets_ok_def)
  have index: "kt_bit1_index_of t target = ?p"
    using t assms(2) by (simp add: index_common_prefix is_id_def)
  show "sorted_wrt (\<lambda>i j. (if j < ?p then j else if j = ?p then Suc ?p else ?p)
      \<le> (if i < ?p then i else if i = ?p then Suc ?p else ?p)) (visit_order t target)"
    unfolding visit_order_def Let_def index sorted_wrt_append
  proof (intro conjI)
    show "sorted_wrt (\<lambda>i j. (if j < ?p then j else if j = ?p then Suc ?p else ?p)
      \<le> (if i < ?p then i else if i = ?p then Suc ?p else ?p)) [?p..<b_nbucket1 t]"
      by (rule sorted_wrt_mono_rel [OF _ sorted_wrt_upt]) auto
    show "sorted_wrt (\<lambda>i j. (if j < ?p then j else if j = ?p then Suc ?p else ?p)
      \<le> (if i < ?p then i else if i = ?p then Suc ?p else ?p)) (rev [0..<min ?p (b_nbucket1 t)])"
      unfolding sorted_wrt_rev
      by (rule sorted_wrt_mono_rel [OF _ sorted_wrt_upt]) auto
  qed auto
  fix i x
  assume i: "i \<in> set (visit_order t target)" and x: "x \<in> set (answers now validate (b_buckets t ! i))"
  have "i < 160" using i t(2) by (auto simp: visit_order_def Let_def)
  then show "closeness t target x = (if i < ?p then i else if i = ?p then Suc ?p else ?p)"
    using closeness_in_slot [OF answers_in_slot [OF _ x] assms(2) t(1)] t(3) by (simp add: Let_def)
qed

section \<open>Properties\<close>

text \<open>
  C30. A search returns the closest contacts the table knows: as many as are eligible, but at most
  eight, all from the table, and no contact is left out for one that shares fewer bits with the
  target (contacts in the bucket of the target itself all count as sharing one bit more than we do).
\<close>

theorem search_finds_closest:
  assumes "table_ok t" and "is_id target" and "8 \<le> length vitems" and "8 \<le> length items"
  shows "gives (\<lambda>(items', n). n = min 8 (length (eligible now t validate))
      \<and> mset (take n items') \<subseteq># mset (eligible now t validate)
      \<and> (\<forall>x\<in>set (take n items'). \<forall>y\<in>#mset (eligible now t validate) - mset (take n items').
            closeness t target y \<le> closeness t target x)
      \<and> drop n items' = drop n items)
    (kt_find_nodes now t vitems target items validate)"
proof -
  let ?all = "concat (map (\<lambda>i. answers now validate (b_buckets t ! i)) (visit_order t target))"
  have all: "mset ?all = mset (eligible now t validate)" "length ?all = length (eligible now t validate)"
    using visit_all [OF assms(1), of now validate target] mset_eq_length by blast+
  have rest: "mset ?all - mset (take 8 ?all) = mset (drop 8 ?all)"
    by (metis add_diff_cancel_left' append_take_drop_id mset_append)
  have "\<forall>x\<in>set (take 8 ?all). \<forall>y\<in>set (drop 8 ?all). closeness t target y \<le> closeness t target x"
    using visits_by_closeness [OF assms(1,2), of now validate]
    by (metis (no_types, lifting) append_take_drop_id sorted_wrt_append)
  moreover have "mset (take 8 ?all) \<subseteq># mset ?all"
    by (metis append_take_drop_id mset_append mset_subset_eq_add_left)
  moreover have found: "take 8 ?all = contacts_for now t target validate"
    by (simp add: contacts_for_def)
  moreover have len: "min 8 (length (eligible now t validate)) = length (take 8 ?all)"
    using all(2) by simp
  moreover have "take (length xs) (blit items 0 xs) = xs" "drop (length xs) (blit items 0 xs) = drop (length xs) items"
    for xs :: "kitem list"
    by (simp_all add: blit_def)
  ultimately show ?thesis
    unfolding kt_find_nodes_result [OF assms] gives_simps prod.case len found
    by (simp only: all(1) [symmetric] rest flip: found) simp
qed

definition known_bucket :: kbucket where
  "known_bucket = demo_fresh\<lparr>b_nknode := 1, b_knodes := (b_knodes demo_fresh)[0 := knode_new 0 (demo_id 3) 3 6881]\<rparr>"

definition known_table :: ktable where
  "known_table = demo_table\<lparr>b_nbucket1 := 7, b_buckets := (replicate 160 demo_fresh)[6 := known_bucket]\<rparr>"

lemma replicate_8: "replicate 8 x = x # replicate 7 x"
  using replicate_Suc [of 7 x] by simp

lemma known_table_ok: "table_ok known_table"
proof -
  have "table_ok demo_table"
    using table_ok_new [of "demo_id 1" "replicate 160 demo_fresh"] demo_table_fresh
    by (simp add: demo_table_def demo_id_def)
  then have "buckets_ok (demo_id 1) 1 (replicate 160 demo_fresh)"
    by (simp add: table_ok_def demo_table_def ktable_new_def)
  then have "buckets_ok (demo_id 1) 7 (replicate 160 demo_fresh)"
    by (rule buckets_ok_mono) simp
  moreover have "bucket_ok (in_slot (demo_id 1) 6) known_bucket"
    using demo_prefix
    by (simp add: bucket_ok_def sized_def ids_ok_def in_slot_def is_id_def known_bucket_def demo_fresh_def
        kbucket_new_def demo_id_def)
  ultimately have "buckets_ok (demo_id 1) 7 ((replicate 160 demo_fresh)[6 := known_bucket])"
    by (intro buckets_ok_update) auto
  moreover have "held ((replicate 160 demo_fresh)[6 := known_bucket]) 0 7 \<le> 8"
  proof -
    have "{0..<7} = {0, 1, 2, 3, 4, 5, 6 :: nat}" by auto
    then show ?thesis
      by (simp add: held_def known_bucket_def demo_fresh_def kbucket_new_def)
  qed
  ultimately show ?thesis
    by (simp add: table_ok_def known_table_def demo_table_def ktable_new_def) (simp add: demo_id_def)
qed

lemma known_table_eligible: "eligible 1000 known_table False = [demo_contact 3]"
proof -
  have "answers 1000 False demo_fresh = []" "answers 1000 False known_bucket = [demo_contact 3]"
    by (simp_all add: answers_def nodes_def known_bucket_def demo_fresh_def kbucket_new_def
        knode_get_def knode_new_def demo_contact_def replicate_8)
  moreover have "(replicate 160 demo_fresh)[6 := known_bucket]
      = replicate 6 demo_fresh @ known_bucket # replicate 153 demo_fresh"
    using replicate_add [of 6 154 demo_fresh] replicate_Suc [of 153 demo_fresh] by (simp add: list_update_append)
  ultimately show ?thesis
    by (simp add: eligible_def known_table_def)
qed

theorem search_finds_closest_witness:
  "gives (\<lambda>(items', n). n = 1 \<and> set (take n items') \<subseteq> {demo_contact 3})
    (kt_find_nodes 1000 known_table (replicate 8 (demo_contact 0)) (demo_id 2) (replicate 8 (demo_contact 0)) False)"
proof -
  have "is_id (demo_id 2)" by (simp add: is_id_def demo_id_def)
  from search_finds_closest [OF known_table_ok this, of "replicate 8 (demo_contact 0)"
      "replicate 8 (demo_contact 0)" 1000 False]
  show ?thesis
    by (auto simp: known_table_eligible gives_iff dest!: set_mset_mono)
qed

end
