(* ===== verification/Dht_Net.thy ===== *)
theory Dht_Net
  imports Dht_Search Dht_Codec
begin

text \<open>
  The packets of the DHT node: requests that are sent (\<open>provider.cc\<close>, \<open>transfer.cc\<close>), requests of
  others that are answered from the routing table, and replies that are put into the queue of the
  task that waits for them. The theory shows that what is sent is well-formed bencoding, how a
  request is answered, and where an answer is written behind its buffer.
\<close>

section \<open>State\<close>

type_synonym packet = "byte list \<times> 32 word \<times> 16 word"

text \<open>
  A \<open>kship\<close>: the answers that wait for its task, and the task that sleeps until one arrives. The
  constructor leaves \<open>b_thread\<close> as it finds it (\<open>Unset\<close>).
\<close>

datatype waiter = Unset | Nobody | Job

record ship =
  b_queue :: "packet list"
  b_thread :: waiter

text \<open>
  The static objects of \<open>btkad.cc\<close> and \<open>provider.cc\<close> that the tasks share. \<open>requests\<close> is \<open>b_requests\<close>
  with the \<open>kship\<close> in the place of the pointer to it; \<open>outbox\<close> are the packets handed to the socket,
  oldest first. \<open>locals\<close> stands for what an uninitialised array of eight contacts
  holds, \<open>now\<close> for the clock, and \<open>ping_woken\<close> says that \<open>pingd\<close> has been woken.
\<close>

record dht =
  table :: ktable
  requests :: "32 word \<Rightarrow> ship option"
  b_tid :: "32 word"
  b_inited :: bool
  ping_node_text :: "byte list"
  find_node_text :: "byte list"
  get_peers_text :: "byte list"
  outbox :: "packet list"
  locals :: "kitem list"
  now :: int
  ping_woken :: bool

section \<open>Numbers in memory\<close>

text \<open>Addresses, ports and transaction numbers lie in memory with the low byte first.\<close>

definition le16 :: "16 word \<Rightarrow> byte list" where
  "le16 w = [ucast w, ucast (drop_bit 8 w)]"

definition le32 :: "32 word \<Rightarrow> byte list" where
  "le32 w = [ucast w, ucast (drop_bit 8 w), ucast (drop_bit 16 w), ucast (drop_bit 24 w)]"

fun of_le :: "byte list \<Rightarrow> nat" where
  "of_le [] = 0"
| "of_le (b # bs) = unat b + 256 * of_le bs"

section \<open>The routing table of the node\<close>

definition update_contact :: "dht \<Rightarrow> kitem \<Rightarrow> bool \<Rightarrow> fault + int \<times> dht" where
  "update_contact s x contacted =
     bindR (kt_insert_node (now s) (table s) x contacted) (\<lambda>(r, t).
     Inr (r, s\<lparr>table := t, ping_woken := ping_woken s \<or> kt_need_ping t\<rparr>))"

definition failed_contact :: "dht \<Rightarrow> kitem \<Rightarrow> fault + dht" where
  "failed_contact s x = bindR (kt_failed_contact (now s) (table s) x) (\<lambda>t. Inr (s\<lparr>table := t\<rparr>))"

definition find_nodes :: "dht \<Rightarrow> byte list \<Rightarrow> bool \<Rightarrow> fault + kitem list \<times> nat" where
  "find_nodes s target valid = kt_find_nodes (now s) (table s) (locals s) target (locals s) valid"

section \<open>Requests\<close>

definition ping_node_init :: "byte list" where
  "ping_node_init = ascii ''d1:ad2:id20:abcdefghij0123456789e1:q4:ping1:t4:PPPP1:y1:qe'' @ [0]"

definition find_node_init :: "byte list" where
  "find_node_init = ascii ''d1:ad2:id20:abcdefghij01234567896:target20:abcdefghij0123456789e1:q9:find_node1:t4:FFFF1:y1:qe'' @ [0]"

definition get_peers_init :: "byte list" where
  "get_peers_init = ascii ''d1:ad2:id20:abcdefghij01234567899:info_hash20:mnopqrstuvwxyz123456e1:q9:get_peers1:t4:GGGG1:y1:qe'' @ [0]"

text \<open>\<open>memcpy\<close> into an array.\<close>

definition put_bytes :: "byte list \<Rightarrow> nat \<Rightarrow> byte list \<Rightarrow> fault + byte list" where
  "put_bytes arr off bs = (if off + length bs \<le> length arr then Inr (blit arr off bs) else Inl Oob)"

text \<open>The part of \<open>bdhtnet_start\<close> that puts our identifier into the three requests.\<close>

definition bdhtnet_start :: "dht \<Rightarrow> fault + dht" where
  "bdhtnet_start s =
     bindR (put_bytes (ping_node_text s) 12 (getkadid (table s))) (\<lambda>p.
     bindR (put_bytes (find_node_text s) 12 (getkadid (table s))) (\<lambda>f.
     bindR (put_bytes (get_peers_text s) 12 (getkadid (table s))) (\<lambda>g.
     Inr (s\<lparr>ping_node_text := p, find_node_text := f, get_peers_text := g\<rparr>))))"

text \<open>\<open>bsendto\<close> of \<open>sizeof(text) - 1\<close> bytes.\<close>

definition bsendto :: "dht \<Rightarrow> byte list \<Rightarrow> 32 word \<Rightarrow> 16 word \<Rightarrow> dht" where
  "bsendto s bs a p = s\<lparr>outbox := outbox s @ [(bs, a, p)]\<rparr>"

definition net_ping_node :: "dht \<Rightarrow> 32 word \<Rightarrow> 32 word \<Rightarrow> 16 word \<Rightarrow> fault + dht" where
  "net_ping_node s tid a p =
     bindR (put_bytes (ping_node_text s) 47 (le32 tid)) (\<lambda>txt.
     Inr (bsendto (s\<lparr>ping_node_text := txt, b_inited := True\<rparr>) (butlast txt) a p))"

definition net_find_node :: "dht \<Rightarrow> 32 word \<Rightarrow> 32 word \<Rightarrow> 16 word \<Rightarrow> byte list \<Rightarrow> fault + dht" where
  "net_find_node s tid a p ident =
     bindR (put_bytes (find_node_text s) 43 ident) (\<lambda>txt.
     bindR (put_bytes txt 83 (le32 tid)) (\<lambda>txt.
     Inr (bsendto (s\<lparr>find_node_text := txt, b_inited := True\<rparr>) (butlast txt) a p)))"

definition net_get_peers :: "dht \<Rightarrow> 32 word \<Rightarrow> 32 word \<Rightarrow> 16 word \<Rightarrow> byte list \<Rightarrow> fault + dht" where
  "net_get_peers s tid a p ident =
     bindR (put_bytes (get_peers_text s) 46 ident) (\<lambda>txt.
     bindR (put_bytes txt 86 (le32 tid)) (\<lambda>txt.
     Inr (bsendto (s\<lparr>get_peers_text := txt, b_inited := True\<rparr>) (butlast txt) a p)))"

text \<open>
  \<open>get_kship\<close> numbers the ships; \<open>insert\<close> of a map leaves a number that is in use as it is, which
  needs \<open>2 ^ 32\<close> ships.
\<close>

definition get_kship :: "dht \<Rightarrow> 32 word \<times> dht" where
  "get_kship s =
     (let tid = b_tid s;
          rs = (if requests s tid = None then (requests s)(tid \<mapsto> \<lparr>b_queue = [], b_thread = Unset\<rparr>) else requests s)
      in (tid, s\<lparr>b_tid := tid + 1, requests := rs\<rparr>))"

definition detach :: "dht \<Rightarrow> 32 word \<Rightarrow> dht" where
  "detach s tid = s\<lparr>requests := (requests s)(tid := None)\<rparr>"

text \<open>
  \<open>kship::get_response\<close> with a buffer of \<open>len\<close> bytes; \<open>None\<close> is the result -1, after which the task
  of the caller is woken by the next answer. A number without a ship has no owner that could call this.
\<close>

definition get_response :: "dht \<Rightarrow> 32 word \<Rightarrow> nat \<Rightarrow> fault + packet option \<times> dht" where
  "get_response s tid len =
     (case requests s tid of
        None \<Rightarrow> Inl Oob
      | Some sh \<Rightarrow>
          (case b_queue sh of
             [] \<Rightarrow> Inr (None, s\<lparr>requests := (requests s)(tid \<mapsto> sh\<lparr>b_thread := Job\<rparr>)\<rparr>)
           | pkg # q \<Rightarrow>
               if length (fst pkg) > len then Inl Abort
               else Inr (Some pkg, s\<lparr>requests := (requests s)(tid \<mapsto> sh\<lparr>b_queue := q\<rparr>)\<rparr>)))"

text \<open>
  \<open>kship::binput\<close> with the search of \<open>bdhtnet::binput\<close> for the ship. An answer that arrives before
  the task has asked for one goes through the uninitialised pointer.
\<close>

definition ship_binput :: "dht \<Rightarrow> 32 word \<Rightarrow> packet \<Rightarrow> fault + dht" where
  "ship_binput s tid pkg =
     (case requests s tid of
        None \<Rightarrow> Inr s
      | Some sh \<Rightarrow>
          if b_thread sh = Unset then Inl Oob
          else Inr (s\<lparr>requests := (requests s)(tid \<mapsto> sh\<lparr>b_queue := b_queue sh @ [pkg], b_thread := Nobody\<rparr>)\<rparr>))"

section \<open>Packets that arrive\<close>

text \<open>A chain of lookups from the root, and the string it leads to.\<close>

definition codec_str :: "byte list \<Rightarrow> byte list list \<Rightarrow> fault + (nat \<times> nat) option" where
  "codec_str buf path = bindR (codec_bget buf) (\<lambda>e. bindR (bget_path buf path e) (\<lambda>e. Inr (c_str e)))"

definition bytes_at :: "byte list \<Rightarrow> nat \<times> nat \<Rightarrow> byte list" where
  "bytes_at buf x = take (snd x) (drop (fst x) buf)"

text \<open>
  \<open>bdhtcodec::bload\<close>: the type and the transaction number, \<open>None\<close> for the result -1. The number
  stays uninitialised (\<open>junk\<close>) when its text is longer than four bytes.
\<close>

definition bdhtcodec_bload :: "byte list \<Rightarrow> 32 word \<Rightarrow> fault + (byte \<times> 32 word) option" where
  "bdhtcodec_bload buf junk =
     bindR (codec_str buf [ascii ''y'']) (\<lambda>y. case y of
       None \<Rightarrow> Inr None
     | Some y \<Rightarrow>
         if snd y \<noteq> 1 then Inr None
         else bindR (arr_get buf (int (fst y))) (\<lambda>type.
           bindR (codec_str buf [ascii ''t'']) (\<lambda>t. case t of
             None \<Rightarrow> Inr None
           | Some t \<Rightarrow>
               if snd t < 1 then Inr None
               else Inr (Some (type, if snd t \<le> 4 then of_nat (of_le (bytes_at buf t)) else junk)))))"

text \<open>
  \<open>memcmp(query, literal, tlen) == 0\<close>, reading the literal with its NUL from the front up to the
  first difference.
\<close>

fun same_text :: "byte list \<Rightarrow> byte list \<Rightarrow> fault + bool" where
  "same_text [] lit = Inr True"
| "same_text (q # qs) [] = Inl Oob"
| "same_text (q # qs) (c # lit) = (if q = c then same_text qs lit else Inr False)"

definition query_is :: "byte list \<Rightarrow> string \<Rightarrow> fault + bool" where
  "query_is q lit = same_text q (ascii lit @ [0])"

text \<open>\<open>padto\<close> at \<open>buff + off\<close>: the number of bytes written, and the array.\<close>

definition pad_item :: "kitem \<Rightarrow> byte list" where
  "pad_item x = kadid x @ le32 (host x) @ le16 (port x)"

definition sprintf_len :: "byte list \<Rightarrow> nat \<Rightarrow> nat \<Rightarrow> fault + nat \<times> byte list" where
  "sprintf_len arr off n =
     (let out = dec_nat n @ ascii '':''
      in bindR (put_bytes arr off (out @ [0])) (\<lambda>arr. Inr (length out, arr)))"

definition padto :: "byte list \<Rightarrow> nat \<Rightarrow> kitem list \<Rightarrow> nat \<Rightarrow> fault + nat \<times> byte list" where
  "padto arr off items n =
     bindR (sprintf_len arr off (n * 26)) (\<lambda>(cnt, arr).
     for_loop 0 n (\<lambda>i (cnt, arr).
       bindR (arr_get items (int i)) (\<lambda>x.
       bindR (put_bytes arr (off + cnt) (kadid x)) (\<lambda>arr.
       bindR (put_bytes arr (off + cnt + 20) (le32 (host x))) (\<lambda>arr.
       bindR (put_bytes arr (off + cnt + 24) (le16 (port x))) (\<lambda>arr.
       Inr (cnt + 26, arr)))))) (cnt, arr))"

text \<open>
  The end of all three answers at \<open>buff + off\<close>: the transaction text \<open>t\<close> with its length, and the
  type of the packet. The result is the length of what is written there.
\<close>

definition answer_end :: "byte list \<Rightarrow> nat \<Rightarrow> byte list \<Rightarrow> fault + nat \<times> byte list" where
  "answer_end arr off t =
     bindR (sprintf_len arr off (length t)) (\<lambda>(nx2, arr).
     bindR (put_bytes arr (off + nx2) t) (\<lambda>arr.
     bindR (put_bytes arr (off + (length t + nx2)) (ascii ''1:y1:re'')) (\<lambda>arr.
     Inr (7 + (length t + nx2), arr))))"

definition reply_array :: "nat \<Rightarrow> string \<Rightarrow> byte list" where
  "reply_array sz s = ascii s @ replicate (sz - length s) 0"

text \<open>
  The answers to \<open>find_node\<close> and \<open>get_peers\<close>, which differ in what precedes the identifier:
  \<open>gap\<close> is 0 or the 14 bytes of the token.
\<close>

definition answer_nodes :: "dht \<Rightarrow> byte list \<Rightarrow> nat \<Rightarrow> byte list \<Rightarrow> byte list \<Rightarrow> byte list \<Rightarrow> 32 word \<Rightarrow> 16 word \<Rightarrow>
    fault + dht" where
  "answer_nodes s arr gap target ident t a p =
     bindR (find_nodes s target True) (\<lambda>(items, n).
     bindR (put_bytes arr (12 + gap) (getkadid (table s))) (\<lambda>arr.
     bindR (padto arr (39 + gap) items n) (\<lambda>(n1, arr).
     bindR (put_bytes arr (n1 + 39 + gap) (ascii ''e1:t'')) (\<lambda>arr.
     bindR (answer_end arr (n1 + 43 + gap) t) (\<lambda>(k, arr).
     if gap + n1 + 43 + k > length arr then Inl Oob
     else
       let s = bsendto s (take (gap + n1 + 43 + k) arr) a p
       in bindR (update_contact s \<lparr>kadid = ident, host = a, port = p, atime = 0, failed = 0\<rparr> False)
            (\<lambda>(_, s). Inr s))))))"

definition answer_ping :: "dht \<Rightarrow> byte list \<Rightarrow> 32 word \<Rightarrow> 16 word \<Rightarrow> fault + dht" where
  "answer_ping s t a p =
     bindR (put_bytes (reply_array 47 ''d1:rd2:id20:mnopqrstuvwxyz123456e1:t1:01:y1:re'') 12 (getkadid (table s))) (\<lambda>arr.
     bindR (answer_end arr 36 t) (\<lambda>(k, arr).
     if 36 + k > length arr then Inl Oob else Inr (bsendto s (take (36 + k) arr) a p)))"

text \<open>
  The branch \<open>announce_peer\<close> only prints. \<open>idstr\<close> reads twenty bytes, also from a token of five.
\<close>

definition print_announce :: "byte list \<Rightarrow> fault + unit" where
  "print_announce buf =
     bindR (codec_str buf [ascii ''a'', ascii ''info_hash'']) (\<lambda>_.
     bindR (codec_str buf [ascii ''a'', ascii ''id'']) (\<lambda>_.
     bindR (codec_str buf [ascii ''a'', ascii ''token'']) (\<lambda>token.
     bindR (case token of
         Some (off, len) \<Rightarrow> if len = 5 \<and> off + 20 > length buf then Inl Oob else Inr ()
       | None \<Rightarrow> Inr ()) (\<lambda>_.
     bindR (codec_bget buf) (\<lambda>e. bindR (bget_path buf [ascii ''a'', ascii ''port''] e) (\<lambda>_. Inr ()))))))"

text \<open>
  The target of a search that has the right length; then the transaction text, which \<open>bload\<close> has
  found to be a string.
\<close>

definition answer_search :: "dht \<Rightarrow> byte list \<Rightarrow> byte list \<Rightarrow> byte list \<Rightarrow> nat \<Rightarrow> byte list \<Rightarrow> 32 word \<Rightarrow> 16 word \<Rightarrow>
    fault + dht" where
  "answer_search s buf key arr gap ident a p =
     bindR (codec_str buf [ascii ''a'', key]) (\<lambda>target. case target of
       None \<Rightarrow> Inr s
     | Some g \<Rightarrow>
         if snd g \<noteq> 20 then Inr s
         else bindR (codec_str buf [ascii ''t'']) (\<lambda>t. case t of
           None \<Rightarrow> Inl Oob
         | Some t \<Rightarrow> answer_nodes s arr gap (bytes_at buf g) ident (bytes_at buf t) a p))"

definition query_expand :: "dht \<Rightarrow> byte list \<Rightarrow> 32 word \<Rightarrow> 16 word \<Rightarrow> fault + dht" where
  "query_expand s buf a p =
     bindR (codec_str buf [ascii ''a'', ascii ''id'']) (\<lambda>kad. case kad of
       None \<Rightarrow> Inr s
     | Some kad \<Rightarrow>
         if snd kad \<noteq> 20 then Inr s
         else bindR (codec_str buf [ascii ''q'']) (\<lambda>q. case q of
           None \<Rightarrow> Inr s
         | Some q \<Rightarrow>
             if snd q < 4 then Inr s
             else
               let query = bytes_at buf q; ident = bytes_at buf kad
               in bindR (query_is query ''announce_peer'') (\<lambda>b.
               if b then bindR (print_announce buf) (\<lambda>_. Inr s)
               else bindR (query_is query ''get_peers'') (\<lambda>b.
               if b then answer_search s buf (ascii ''info_hash'')
                 (reply_array 8192 ''d1:rd5:token5:noown2:id20:XXXXXXXXXXXXXXXXXXXX5:nodes26:NNNNNNNNNNNNNNNNNNNNNNNNNNe1:t1:01:y1:re'')
                 14 ident a p
               else bindR (query_is query ''find_node'') (\<lambda>b.
               if b then answer_search s buf (ascii ''target'')
                 (reply_array 8192 ''d1:rd2:id20:XXXXXXXXXXXXXXXXXXXX5:nodes26:NNNNNNNNNNNNNNNNNNNNNNNNNNe1:t1:01:y1:re'')
                 0 ident a p
               else bindR (query_is query ''ping'') (\<lambda>b.
               if b then bindR (codec_str buf [ascii ''t'']) (\<lambda>t. case t of
                   None \<Rightarrow> Inl Oob
                 | Some t \<Rightarrow> answer_ping s (bytes_at buf t) a p)
               else Inr s))))))"

definition net_binput :: "dht \<Rightarrow> byte \<times> 32 word \<Rightarrow> packet \<Rightarrow> fault + dht" where
  "net_binput s c pkg =
     (let (type, transid) = c; (buf, a, p) = pkg
      in if type = 114 then ship_binput s transid pkg
         else if type = 113 then query_expand s buf a p
         else Inr s)"

text \<open>One turn of the loop of \<open>bdhtnet::bdocall\<close>, and the loop over what the socket delivers.\<close>

definition net_receive :: "32 word \<Rightarrow> dht \<Rightarrow> packet \<Rightarrow> fault + dht" where
  "net_receive junk s pkg =
     bindR (bdhtcodec_bload (fst pkg) junk) (\<lambda>c. case c of None \<Rightarrow> Inr s | Some c \<Rightarrow> net_binput s c pkg)"

fun net_bdocall :: "32 word \<Rightarrow> dht \<Rightarrow> packet list \<Rightarrow> fault + dht" where
  "net_bdocall junk s [] = Inr s"
| "net_bdocall junk s (pkg # pkgs) = bindR (net_receive junk s pkg) (\<lambda>s. net_bdocall junk s pkgs)"


section \<open>Writing into arrays\<close>

text \<open>\<open>begins w arr\<close>: the bytes \<open>w\<close> have been written at the front of the array.\<close>

definition begins :: "byte list \<Rightarrow> nat \<Rightarrow> byte list \<Rightarrow> bool" where
  "begins w sz arr \<longleftrightarrow> take (length w) arr = w \<and> length arr = sz"

lemma put_bytes_begins:
  assumes "begins w sz arr" and "off = length w" and "length w + length bs \<le> sz"
  shows "gives (begins (w @ bs) sz) (put_bytes arr off bs)"
  using assms by (auto simp: begins_def put_bytes_def blit_def)

lemma begins_shorter:
  assumes "begins (w @ bs) sz arr"
  shows "begins w sz arr"
proof -
  have "take (length w) arr = take (length w) (take (length (w @ bs)) arr)" by (simp add: min_def)
  with assms show ?thesis by (simp add: begins_def)
qed

lemma put_bytes_at:
  "length pre = off \<Longrightarrow> length old = length bs \<Longrightarrow>
     put_bytes (pre @ old @ post) off bs = Inr (pre @ bs @ post)"
  by (simp add: put_bytes_def blit_def)

lemma sprintf_len_begins:
  assumes "begins w sz arr" and "off = length w" and "length w + length (dec_nat n) + 2 \<le> sz"
  shows "gives (\<lambda>(k, arr'). begins (w @ dec_nat n @ ascii '':'') sz arr' \<and> k = length (dec_nat n) + 1)
    (sprintf_len arr off n)"
  unfolding sprintf_len_def Let_def
  by (rule gives_bind [OF put_bytes_begins [OF assms(1,2)]])
     (use assms(3) begins_shorter [of "w @ dec_nat n @ ascii '':''" "[0]"] in auto)

lemma length_le [simp]: "length (le32 v) = 4" "length (le16 u) = 2"
  by (simp_all add: le32_def le16_def)

lemma padto_begins:
  assumes "begins w sz arr" and "off = length w" and "length (take n items) = n"
    and "\<forall>x\<in>set (take n items). length (kadid x) = 20"
    and "length w + length (dec_nat (n * 26)) + 2 + 26 * n \<le> sz"
  shows "gives (\<lambda>(k, arr'). begins (w @ benc_string (concat (map pad_item (take n items)))) sz arr'
      \<and> k = length (benc_string (concat (map pad_item (take n items))))) (padto arr off items n)"
proof -
  let ?nodes = "\<lambda>i. concat (map pad_item (take i items))"
  let ?head = "dec_nat (n * 26) @ ascii '':''"
  have len: "length (?nodes i) = 26 * i" if "i \<le> n" for i
    using that
  proof (induction i)
    case (Suc i)
    then have "i < length items" "length (kadid (items ! i)) = 20"
      using assms(3,4) nth_mem [of i "take n items"] by auto
    with Suc show ?case by (simp add: take_Suc_conv_app_nth pad_item_def)
  qed simp
  have body: "gives (\<lambda>(k, arr'). begins (w @ ?head @ ?nodes n) sz arr' \<and> k = length (?head @ ?nodes n))
    (for_loop 0 n (\<lambda>i (cnt, arr).
       bindR (arr_get items (int i)) (\<lambda>x.
       bindR (put_bytes arr (off + cnt) (kadid x)) (\<lambda>arr.
       bindR (put_bytes arr (off + cnt + 20) (le32 (host x))) (\<lambda>arr.
       bindR (put_bytes arr (off + cnt + 24) (le16 (port x))) (\<lambda>arr.
       Inr (cnt + 26, arr)))))) (length ?head, arr1))" if "begins (w @ ?head) sz arr1" for arr1
  proof (rule gives_for_loop [where P = "\<lambda>i (k, arr'). begins (w @ ?head @ ?nodes i) sz arr' \<and> k = length (?head @ ?nodes i)"],
      goal_cases)
    case (3 i s)
    obtain k a1 where s: "s = (k, a1)" by (cases s)
    have b: "begins (w @ ?head @ ?nodes i) sz a1" "k = length (?head @ ?nodes i)" using 3 by (auto simp: s)
    have i: "i < length items" "length (kadid (items ! i)) = 20"
      using 3(2) assms(3,4) nth_mem [of i "take n items"] by auto
    have room: "length (w @ ?head @ ?nodes i) + 26 \<le> sz"
      using len [of i] 3(2) assms(5) by simp
    let ?w1 = "(w @ ?head @ ?nodes i) @ kadid (items ! i)"
    let ?w2 = "?w1 @ le32 (host (items ! i))"
    have 1: "gives (begins ?w1 sz) (put_bytes a1 (off + k) (kadid (items ! i)))"
      by (rule put_bytes_begins [OF b(1)]) (use room i b(2) assms(2) in auto)
    have 2: "gives (begins ?w2 sz) (put_bytes a2 (off + k + 20) (le32 (host (items ! i))))" if "begins ?w1 sz a2" for a2
      by (rule put_bytes_begins [OF that]) (use room i b(2) assms(2) in auto)
    have 3: "gives (begins (?w2 @ le16 (port (items ! i))) sz) (put_bytes a3 (off + k + 24) (le16 (port (items ! i))))"
      if "begins ?w2 sz a3" for a3
      by (rule put_bytes_begins [OF that]) (use room i b(2) assms(2) in auto)
    show ?case
      unfolding s prod.case arr_get_ok [OF i(1)] bindR_simps
      by (rule gives_bind [OF 1], rule gives_bind [OF 2], assumption, rule gives_bind [OF 3], assumption)
         (use i b(2) in \<open>simp add: take_Suc_conv_app_nth pad_item_def\<close>)
  qed (use that in simp_all)
  have "gives (\<lambda>(k, arr'). begins (w @ ?head) sz arr' \<and> k = length ?head) (sprintf_len arr off (n * 26))"
    by (rule gives_mono [OF sprintf_len_begins [OF assms(1,2)]]) (use assms(5) in auto)
  then show ?thesis
    unfolding padto_def
    by (rule gives_bind) (use body len [of n] in \<open>auto simp: benc_string_def mult.commute\<close>)
qed

lemma answer_end_begins:
  assumes "begins w sz arr" and "off = length w" and "length w + length (benc_string t) + 7 \<le> sz"
  shows "gives (\<lambda>(k, arr'). begins (w @ benc_string t @ ascii ''1:y1:re'') sz arr' \<and> k = length (benc_string t) + 7)
    (answer_end arr off t)"
proof -
  let ?h = "dec_nat (length t) @ ascii '':''"
  have 1: "gives (\<lambda>(k, arr'). begins (w @ ?h) sz arr' \<and> k = length ?h) (sprintf_len arr off (length t))"
    by (rule gives_mono [OF sprintf_len_begins [OF assms(1,2)]]) (use assms(3) in \<open>auto simp: benc_string_def\<close>)
  have 2: "gives (begins ((w @ ?h) @ t) sz) (put_bytes a1 (off + length ?h) t)" if "begins (w @ ?h) sz a1" for a1
    by (rule put_bytes_begins [OF that]) (use assms(2,3) in \<open>auto simp: benc_string_def\<close>)
  have 3: "gives (begins (((w @ ?h) @ t) @ ascii ''1:y1:re'') sz)
      (put_bytes a2 (off + (length t + length ?h)) (ascii ''1:y1:re''))" if "begins ((w @ ?h) @ t) sz a2" for a2
    by (rule put_bytes_begins [OF that]) (use assms(2,3) in \<open>auto simp: benc_string_def\<close>)
  show ?thesis
    unfolding answer_end_def
  proof (rule gives_bind [OF 1], goal_cases)
    case (1 s)
    then obtain a1 where s: "s = (length ?h, a1)" "begins (w @ ?h) sz a1" by auto
    show ?case
      unfolding s prod.case
      by (rule gives_bind [OF 2 [OF s(2)]], rule gives_bind [OF 3], assumption)
         (simp add: benc_string_def)
  qed
qed

section \<open>What our requests look like\<close>

definition request_of :: "byte list \<Rightarrow> string \<Rightarrow> btDict \<Rightarrow> 32 word \<Rightarrow> btDict" where
  "request_of own q extra tid =
     [(ascii ''a'', BT_DICT ((ascii ''id'', BT_STRING own) # extra)), (ascii ''q'', BT_STRING (ascii q)),
      (ascii ''t'', BT_STRING (le32 tid)), (ascii ''y'', BT_STRING (ascii ''q''))]"

text \<open>The three texts with our identifier, whatever target and number were put in last.\<close>

definition ping_text :: "byte list \<Rightarrow> byte list \<Rightarrow> byte list" where
  "ping_text own t = ascii ''d1:ad2:id20:'' @ own @ ascii ''e1:q4:ping1:t4:'' @ t @ ascii ''1:y1:qe''"

definition find_text :: "byte list \<Rightarrow> byte list \<Rightarrow> byte list \<Rightarrow> byte list" where
  "find_text own g t = ascii ''d1:ad2:id20:'' @ own @ ascii ''6:target20:'' @ g
     @ ascii ''e1:q9:find_node1:t4:'' @ t @ ascii ''1:y1:qe''"

definition peers_text :: "byte list \<Rightarrow> byte list \<Rightarrow> byte list \<Rightarrow> byte list" where
  "peers_text own g t = ascii ''d1:ad2:id20:'' @ own @ ascii ''9:info_hash20:'' @ g
     @ ascii ''e1:q9:get_peers1:t4:'' @ t @ ascii ''1:y1:qe''"

definition texts_ok :: "byte list \<Rightarrow> dht \<Rightarrow> bool" where
  "texts_ok own s \<longleftrightarrow> is_id own
     \<and> (\<exists>t. ping_node_text s = ping_text own t @ [0] \<and> length t = 4)
     \<and> (\<exists>g t. find_node_text s = find_text own g t @ [0] \<and> is_id g \<and> length t = 4)
     \<and> (\<exists>g t. get_peers_text s = peers_text own g t @ [0] \<and> is_id g \<and> length t = 4)"

lemma texts_okE:
  assumes "texts_ok own s"
  obtains t g u h v where "ping_node_text s = ping_text own t @ [0]" "find_node_text s = find_text own g u @ [0]"
    "get_peers_text s = peers_text own h v @ [0]" "is_id own" "length t = 4" "is_id g" "length u = 4" "is_id h" "length v = 4"
  using assms by (auto simp: texts_ok_def)

lemma texts_okI:
  assumes "ping_node_text s = ping_text own t @ [0]" "find_node_text s = find_text own g u @ [0]"
    "get_peers_text s = peers_text own h v @ [0]" "is_id own" "length t = 4" "is_id g" "length u = 4" "is_id h" "length v = 4"
  shows "texts_ok own s"
  using assms unfolding texts_ok_def by blast

lemma dec_nat_small: "n < 10 \<Longrightarrow> dec_nat n = [of_nat (48 + n)]"
  by (simp add: dec_nat.simps)

lemma dec_nat_20: "dec_nat 20 = ascii ''20''"
  by (simp add: dec_nat.simps ascii_def)

lemma request_texts:
  assumes "is_id own" and "is_id g"
  shows "bencode (BT_DICT (request_of own ''ping'' [] tid)) = ping_text own (le32 tid)"
    "bencode (BT_DICT (request_of own ''find_node'' [(ascii ''target'', BT_STRING g)] tid)) = find_text own g (le32 tid)"
    "bencode (BT_DICT (request_of own ''get_peers'' [(ascii ''info_hash'', BT_STRING g)] tid)) = peers_text own g (le32 tid)"
  using assms
  by (simp_all add: request_of_def ping_text_def find_text_def peers_text_def benc_string_def is_id_def
      dec_nat_20 dec_nat_small ascii_def)

lemma put_request:
  assumes "length t = 4" and "is_id g" and "is_id own" and "is_id g'"
  shows "put_bytes (ping_text own t @ [0]) 47 (le32 tid) = Inr (ping_text own (le32 tid) @ [0])"
    "put_bytes (find_text own g t @ [0]) 43 g' = Inr (find_text own g' t @ [0])"
    "put_bytes (find_text own g t @ [0]) 83 (le32 tid) = Inr (find_text own g (le32 tid) @ [0])"
    "put_bytes (peers_text own g t @ [0]) 46 g' = Inr (peers_text own g' t @ [0])"
    "put_bytes (peers_text own g t @ [0]) 86 (le32 tid) = Inr (peers_text own g (le32 tid) @ [0])"
proof -
  have len: "length own = 20" "length g = 20" "length g' = 20" "length (le32 tid) = 4"
    using assms by (simp_all add: is_id_def)
  let ?e = "ascii ''1:y1:qe'' @ [0]"
  show "put_bytes (ping_text own t @ [0]) 47 (le32 tid) = Inr (ping_text own (le32 tid) @ [0])"
    using put_bytes_at [of "ascii ''d1:ad2:id20:'' @ own @ ascii ''e1:q4:ping1:t4:''" 47 t "le32 tid" ?e] len assms(1)
    by (simp add: ping_text_def)
  show "put_bytes (find_text own g t @ [0]) 43 g' = Inr (find_text own g' t @ [0])"
    using put_bytes_at [of "ascii ''d1:ad2:id20:'' @ own @ ascii ''6:target20:''" 43 g g'
        "ascii ''e1:q9:find_node1:t4:'' @ t @ ?e"] len
    by (simp add: find_text_def)
  show "put_bytes (find_text own g t @ [0]) 83 (le32 tid) = Inr (find_text own g (le32 tid) @ [0])"
    using put_bytes_at [of "ascii ''d1:ad2:id20:'' @ own @ ascii ''6:target20:'' @ g @ ascii ''e1:q9:find_node1:t4:''" 83 t
        "le32 tid" ?e] len assms(1)
    by (simp add: find_text_def)
  show "put_bytes (peers_text own g t @ [0]) 46 g' = Inr (peers_text own g' t @ [0])"
    using put_bytes_at [of "ascii ''d1:ad2:id20:'' @ own @ ascii ''9:info_hash20:''" 46 g g'
        "ascii ''e1:q9:get_peers1:t4:'' @ t @ ?e"] len
    by (simp add: peers_text_def)
  show "put_bytes (peers_text own g t @ [0]) 86 (le32 tid) = Inr (peers_text own g (le32 tid) @ [0])"
    using put_bytes_at [of "ascii ''d1:ad2:id20:'' @ own @ ascii ''9:info_hash20:'' @ g @ ascii ''e1:q9:get_peers1:t4:''" 86 t
        "le32 tid" ?e] len assms(1)
    by (simp add: peers_text_def)
qed

lemma init_texts:
  "ping_node_init = ping_text (ascii ''abcdefghij0123456789'') (ascii ''PPPP'') @ [0]"
  "find_node_init = find_text (ascii ''abcdefghij0123456789'') (ascii ''abcdefghij0123456789'') (ascii ''FFFF'') @ [0]"
  "get_peers_init = peers_text (ascii ''abcdefghij0123456789'') (ascii ''mnopqrstuvwxyz123456'') (ascii ''GGGG'') @ [0]"
  by (simp_all add: ping_node_init_def find_node_init_def get_peers_init_def ping_text_def find_text_def
      peers_text_def ascii_def)

lemma bdhtnet_start_texts:
  assumes "is_id (b_tableid (table s))" and "ping_node_text s = ping_node_init"
    and "find_node_text s = find_node_init" and "get_peers_text s = get_peers_init"
  shows "gives (\<lambda>s'. texts_ok (b_tableid (table s)) s' \<and> table s' = table s \<and> outbox s' = outbox s
      \<and> requests s' = requests s) (bdhtnet_start s)"
proof -
  let ?own = "b_tableid (table s)"
  let ?o = "ascii ''abcdefghij0123456789''"
  have len: "length ?own = 20" using assms(1) by (simp add: is_id_def)
  have p: "put_bytes (ping_text ?o t @ [0]) 12 ?own = Inr (ping_text ?own t @ [0])" for t
    using put_bytes_at [of "ascii ''d1:ad2:id20:''" 12 ?o ?own "ascii ''e1:q4:ping1:t4:'' @ t @ ascii ''1:y1:qe'' @ [0]"] len
    by (simp add: ping_text_def)
  have f: "put_bytes (find_text ?o g t @ [0]) 12 ?own = Inr (find_text ?own g t @ [0])" for g t
    using put_bytes_at [of "ascii ''d1:ad2:id20:''" 12 ?o ?own
        "ascii ''6:target20:'' @ g @ ascii ''e1:q9:find_node1:t4:'' @ t @ ascii ''1:y1:qe'' @ [0]"] len
    by (simp add: find_text_def)
  have q: "put_bytes (peers_text ?o g t @ [0]) 12 ?own = Inr (peers_text ?own g t @ [0])" for g t
    using put_bytes_at [of "ascii ''d1:ad2:id20:''" 12 ?o ?own
        "ascii ''9:info_hash20:'' @ g @ ascii ''e1:q9:get_peers1:t4:'' @ t @ ascii ''1:y1:qe'' @ [0]"] len
    by (simp add: peers_text_def)
  show ?thesis
    using assms(1)
    by (simp add: bdhtnet_start_def assms(2-4) init_texts p f q getkadid_def)
       (rule texts_okI [where t = "ascii ''PPPP''" and u = "ascii ''FFFF''" and v = "ascii ''GGGG''" and g = ?o
          and h = "ascii ''mnopqrstuvwxyz123456''"], simp_all add: is_id_def)
qed

text \<open>Sending: the request of the kind, and nothing else changes.\<close>

lemma net_requests:
  assumes "texts_ok own s" and "is_id g"
  shows "gives (\<lambda>s'. texts_ok own s' \<and> outbox s' = outbox s @ [(ping_text own (le32 tid), a, p)] \<and> table s' = table s
      \<and> requests s' = requests s) (net_ping_node s tid a p)"
    and "gives (\<lambda>s'. texts_ok own s' \<and> outbox s' = outbox s @ [(find_text own g (le32 tid), a, p)] \<and> table s' = table s
      \<and> requests s' = requests s) (net_find_node s tid a p g)"
    and "gives (\<lambda>s'. texts_ok own s' \<and> outbox s' = outbox s @ [(peers_text own g (le32 tid), a, p)] \<and> table s' = table s
      \<and> requests s' = requests s) (net_get_peers s tid a p g)"
proof -
  obtain t g0 u h v where t: "ping_node_text s = ping_text own t @ [0]" "find_node_text s = find_text own g0 u @ [0]"
    "get_peers_text s = peers_text own h v @ [0]" "is_id own" "length t = 4" "is_id g0" "length u = 4" "is_id h" "length v = 4"
    using assms(1) by (rule texts_okE)
  show "gives (\<lambda>s'. texts_ok own s' \<and> outbox s' = outbox s @ [(ping_text own (le32 tid), a, p)] \<and> table s' = table s
      \<and> requests s' = requests s) (net_ping_node s tid a p)"
    using t assms(2)
    by (simp add: net_ping_node_def put_request [where g = g and g' = g] bsendto_def) (rule texts_okI [where t = "le32 tid" and u = "u" and v = "v" and g = g0 and h = h], simp_all)
  show "gives (\<lambda>s'. texts_ok own s' \<and> outbox s' = outbox s @ [(find_text own g (le32 tid), a, p)] \<and> table s' = table s
      \<and> requests s' = requests s) (net_find_node s tid a p g)"
    using t assms(2)
    by (simp add: net_find_node_def put_request [where g = g0 and g' = g] put_request [where g = g and g' = g] bsendto_def)
       (rule texts_okI [where t = "t" and u = "le32 tid" and v = "v" and g = g and h = h], simp_all)
  show "gives (\<lambda>s'. texts_ok own s' \<and> outbox s' = outbox s @ [(peers_text own g (le32 tid), a, p)] \<and> table s' = table s
      \<and> requests s' = requests s) (net_get_peers s tid a p g)"
    using t assms(2)
    by (simp add: net_get_peers_def put_request [where g = h and g' = g] put_request [where g = g and g' = g] bsendto_def)
       (rule texts_okI [where t = "t" and u = "u" and v = "le32 tid" and g = g0 and h = g], simp_all)
qed

section \<open>Reading what arrives\<close>

text \<open>Lookups of strings in a packet that is a bencoded dictionary.\<close>

lemma codec_str_value:
  assumes "codec_fits (BT_DICT d)" and "length (bencode (BT_DICT d)) < 2147483648"
  shows "gives (\<lambda>r. case value_at (BT_DICT d) path of
      Some (BT_STRING str) \<Rightarrow> (case r of None \<Rightarrow> False
        | Some x \<Rightarrow> snd x = length str \<and> bytes_at (bencode (BT_DICT d)) x = str)
    | _ \<Rightarrow> r = None) (codec_str (bencode (BT_DICT d)) path)"
proof -
  let ?buf = "bencode (BT_DICT d)"
  have "gives (stands_for ?buf (BT_DICT d)) (codec_bget ?buf)"
    unfolding codec_bget_def
    by (rule gives_bind [OF bobject_reads [OF assms(2,1), of _ "[]"]]) auto
  then show ?thesis
    unfolding codec_str_def
  proof (rule gives_bind, goal_cases)
    case (1 e)
    show ?case
      by (rule gives_bind [OF bget_path_result [OF assms(2,1) 1]])
         (auto simp: stands_for_def bytes_at_def split: option.splits btObject.splits bentity.splits)
  qed
qed

lemma codec_str_string:
  assumes "codec_fits (BT_DICT d)" and "length (bencode (BT_DICT d)) < 2147483648"
    and "value_at (BT_DICT d) path = Some (BT_STRING str)"
  obtains x where "codec_str (bencode (BT_DICT d)) path = Inr (Some x)" "snd x = length str"
    "bytes_at (bencode (BT_DICT d)) x = str"
  using codec_str_value [OF assms(1,2), of path] assms(3)
  by (auto simp: gives_iff split: option.splits)

lemma le_bytes:
  fixes n :: nat
  assumes "n < 4294967296"
  shows "n mod 256 + 256 * (n div 256 mod 256 + 256 * (n div 65536 mod 256 + 256 * (n div 16777216 mod 256))) = n"
proof -
  have "n mod 256 + 256 * (n div 256 mod 256 + 256 * (n div 65536 mod 256 + 256 * (n div 16777216 mod 256))) = n mod 4294967296"
    using mod_mult2_eq [of n 256 16777216] mod_mult2_eq [of "n div 256" 256 65536] mod_mult2_eq [of "n div 65536" 256 256]
    by (simp flip: div_mult2_eq)
  with assms show ?thesis by simp
qed

lemma of_le_le32: "of_nat (of_le (le32 v)) = v"
proof -
  have lt: "unat v < 4294967296" using unsigned_less [where ?'a = nat, of v] by simp
  have "of_le (le32 v) = unat v"
    using le_bytes [OF lt] lt
    by (simp add: le32_def unsigned_ucast_eq take_bit_eq_mod unat_drop_bit_eq drop_bit_eq_div [where ?'a = nat])
  then show ?thesis by simp
qed

section \<open>Answering a search\<close>

lemma contacts_for_ids:
  assumes "table_ok t" and "x \<in> set (contacts_for clock t target validate)"
  shows "is_id (kadid x)"
proof -
  obtain i where i: "i \<in> set (visit_order t target)" "x \<in> set (answers clock validate (b_buckets t ! i))"
    using in_set_takeD [OF assms(2) [unfolded contacts_for_def]] by auto
  then have "i < 160" using assms(1) by (auto simp: visit_order_def Let_def table_ok_def)
  then have "bucket_ok (in_slot (b_tableid t) i) (b_buckets t ! i)"
    using assms(1) by (simp add: table_ok_def buckets_ok_def)
  then show ?thesis using answers_in_slot [OF _ i(2)] by (simp add: in_slot_def)
qed

definition contact :: "byte list \<Rightarrow> 32 word \<Rightarrow> 16 word \<Rightarrow> kitem" where
  "contact ident a p = \<lparr>kadid = ident, host = a, port = p, atime = 0, failed = 0\<rparr>"

text \<open>The answer to a search, and the node that asked in the table.\<close>

definition answered :: "dht \<Rightarrow> byte list \<Rightarrow> byte list \<Rightarrow> 32 word \<Rightarrow> 16 word \<Rightarrow> dht \<Rightarrow> bool" where
  "answered s text ident a p s' \<longleftrightarrow> outbox s' = outbox s @ [(text, a, p)] \<and> requests s' = requests s
     \<and> kt_insert_node (now s) (table s) (contact ident a p) False = Inr (0, table s')
     \<and> table_ok (table s') \<and> b_tableid (table s') = b_tableid (table s)"

lemma update_contact_answered:
  assumes "table_ok (table s)" and "is_id ident"
  shows "gives (answered s text ident a p)
    (bindR (update_contact (bsendto s text a p) (contact ident a p) False) (\<lambda>(_, s). Inr s))"
  using kt_insert_node_ok [OF assms(1), of "contact ident a p" "now s" False] assms(2)
  by (auto simp: update_contact_def bsendto_def answered_def contact_def gives_iff)

lemma answer_nodes_result:
  assumes "table_ok (table s)" and "8 \<le> length (locals s)" and "is_id g" and "is_id ident"
    and arr: "arr = pre @ old @ ascii ''5:nodes'' @ rest" "length pre = 12 + gap" "length old = 20" "length arr = 8192"
    and "length t \<le> 7000" and "gap \<le> 14"
  shows "gives (answered s (pre @ b_tableid (table s) @ ascii ''5:nodes''
      @ benc_string (concat (map pad_item (contacts_for (now s) (table s) g True)))
      @ ascii ''e1:t'' @ benc_string t @ ascii ''1:y1:re'') ident a p)
    (answer_nodes s arr gap g ident t a p)"
proof -
  let ?own = "b_tableid (table s)" and ?xs = "contacts_for (now s) (table s) g True"
  let ?items = "blit (locals s) 0 ?xs" and ?n = "length ?xs"
  let ?w1 = "pre @ ?own @ ascii ''5:nodes''"
  let ?nodes = "benc_string (concat (map pad_item ?xs))"
  have own: "length ?own = 20" using assms(1) by (simp add: table_ok_def)
  have n: "?n \<le> 8" by (simp add: contacts_for_def)
  then have items: "take ?n ?items = ?xs" using assms(2) by (simp add: blit_def)
  have ids: "\<forall>x\<in>set ?xs. length (kadid x) = 20"
    using contacts_for_ids [OF assms(1)] by (auto simp: is_id_def)
  have "length (concat (map pad_item xs)) = 26 * length xs" if "\<forall>x\<in>set xs. length (kadid x) = 20" for xs
    using that by (induction xs) (simp_all add: pad_item_def)
  then have nlen: "length ?nodes \<le> 212"
    using ids n length_dec_nat [of "26 * ?n" 3] by (simp add: benc_string_def)
  have tlen: "length (benc_string t) \<le> 7005"
    using length_dec_nat [of "length t" 4] assms(9) by (simp add: benc_string_def)
  have find: "find_nodes s g True = Inr (?items, ?n)"
    unfolding find_nodes_def by (rule kt_find_nodes_result [OF assms(1,3,2,2)])
  have 1: "put_bytes arr (12 + gap) (getkadid (table s)) = Inr (?w1 @ rest)"
    using put_bytes_at [of pre "12 + gap" old ?own "ascii ''5:nodes'' @ rest"] arr own
    by (simp add: getkadid_def)
  have b1: "begins ?w1 8192 (?w1 @ rest)" using arr own by (simp add: begins_def)
  have 2: "gives (\<lambda>(k, arr'). begins (?w1 @ ?nodes) 8192 arr' \<and> k = length ?nodes)
      (padto (?w1 @ rest) (39 + gap) ?items ?n)"
    using padto_begins [OF b1, of "39 + gap" ?n ?items] items ids own arr(2) n assms(10)
      length_dec_nat [of "?n * 26" 3] by simp
  let ?w3 = "(?w1 @ ?nodes) @ ascii ''e1:t''"
  have 3: "gives (begins ?w3 8192) (put_bytes a2 (length ?nodes + 39 + gap) (ascii ''e1:t''))"
    if "begins (?w1 @ ?nodes) 8192 a2" for a2
    by (rule put_bytes_begins [OF that]) (use own arr(2) nlen assms(10) in auto)
  have 4: "gives (\<lambda>(k, arr'). begins (?w3 @ benc_string t @ ascii ''1:y1:re'') 8192 arr' \<and> k = length (benc_string t) + 7)
      (answer_end a3 (length ?nodes + 43 + gap) t)" if "begins ?w3 8192 a3" for a3
    by (rule answer_end_begins [OF that]) (use own arr(2) nlen tlen assms(10) in auto)
  show ?thesis
    unfolding answer_nodes_def find bindR_simps prod.case 1
  proof (rule gives_bind [OF 2], goal_cases)
    case (1 s2)
    then obtain a2 where s2: "s2 = (length ?nodes, a2)" "begins (?w1 @ ?nodes) 8192 a2" by auto
    show ?case
      unfolding s2 prod.case
    proof (rule gives_bind [OF 3 [OF s2(2)]], rule gives_bind [OF 4], assumption, goal_cases)
      case (1 a3 s4)
      then obtain a4 where s4: "s4 = (length (benc_string t) + 7, a4)"
        "begins (?w3 @ benc_string t @ ascii ''1:y1:re'') 8192 a4" by auto
      have len: "gap + length ?nodes + 43 + (length (benc_string t) + 7)
          = length (?w3 @ benc_string t @ ascii ''1:y1:re'')"
        using own arr(2) by simp
      have "take (gap + length ?nodes + 43 + (length (benc_string t) + 7)) a4 = ?w3 @ benc_string t @ ascii ''1:y1:re''"
        using s4(2) unfolding begins_def len by blast
      moreover have "gap + length ?nodes + 43 + (length (benc_string t) + 7) \<le> length a4"
        using s4(2) nlen tlen assms(10) by (simp add: begins_def)
      ultimately show ?case
        using update_contact_answered [OF assms(1,4)]
        by (simp add: s4(1) Let_def flip: contact_def)
    qed
  qed
qed

section \<open>Queries of other nodes\<close>

text \<open>
  A packet that is a query with the name \<open>name\<close>, from the node \<open>ident\<close>, with the transaction text \<open>t\<close>.
  The socket delivers at most 8192 bytes.
\<close>

definition is_query :: "btDict \<Rightarrow> string \<Rightarrow> byte list \<Rightarrow> byte list \<Rightarrow> bool" where
  "is_query d name ident t \<longleftrightarrow> codec_fits (BT_DICT d) \<and> length (bencode (BT_DICT d)) \<le> 8192
     \<and> value_at (BT_DICT d) [ascii ''y''] = Some (BT_STRING (ascii ''q''))
     \<and> value_at (BT_DICT d) [ascii ''q''] = Some (BT_STRING (ascii name))
     \<and> value_at (BT_DICT d) [ascii ''t''] = Some (BT_STRING t) \<and> t \<noteq> []
     \<and> value_at (BT_DICT d) [ascii ''a'', ascii ''id''] = Some (BT_STRING ident) \<and> is_id ident"

lemma is_queryD:
  assumes "is_query d name ident t"
  shows "codec_fits (BT_DICT d)" "length (bencode (BT_DICT d)) < 2147483648"
    "value_at (BT_DICT d) [ascii ''y''] = Some (BT_STRING (ascii ''q''))"
    "value_at (BT_DICT d) [ascii ''q''] = Some (BT_STRING (ascii name))"
    "value_at (BT_DICT d) [ascii ''t''] = Some (BT_STRING t)" "t \<noteq> []"
    "value_at (BT_DICT d) [ascii ''a'', ascii ''id''] = Some (BT_STRING ident)" "length ident = 20"
  using assms unfolding is_query_def is_id_def by (blast | linarith)+

lemma is_query_str:
  assumes "is_query d name ident t" and "value_at (BT_DICT d) path = Some (BT_STRING str)"
  obtains x where "codec_str (bencode (BT_DICT d)) path = Inr (Some x)" "snd x = length str"
    "bytes_at (bencode (BT_DICT d)) x = str"
  using codec_str_string [OF is_queryD(1,2) [OF assms(1)] assms(2)] by blast

lemma bytes_at_1:
  assumes "bytes_at buf x = [b]"
  shows "arr_get buf (int (fst x)) = Inr b"
proof -
  have "drop (fst x) buf \<noteq> []" using assms by (auto simp: bytes_at_def)
  then show ?thesis
    using assms by (cases "snd x") (auto simp: bytes_at_def arr_get_def hd_drop_conv_nth take_Suc)
qed

lemma net_receive_query:
  assumes "is_query d name ident t"
  shows "net_receive junk s (bencode (BT_DICT d), a, p) = query_expand s (bencode (BT_DICT d)) a p"
proof -
  obtain y where y: "codec_str (bencode (BT_DICT d)) [ascii ''y''] = Inr (Some y)" "snd y = length (ascii ''q'')"
    "bytes_at (bencode (BT_DICT d)) y = ascii ''q''"
    by (rule is_query_str [OF assms is_queryD(3) [OF assms]])
  then have y1: "bytes_at (bencode (BT_DICT d)) y = [113]" by (simp add: ascii_def)
  obtain u where u: "codec_str (bencode (BT_DICT d)) [ascii ''t''] = Inr (Some u)" "snd u = length t"
    by (rule is_query_str [OF assms is_queryD(5) [OF assms]])
  moreover have "\<not> length t < 1" using is_queryD(6) [OF assms] by (simp add: Suc_le_eq)
  ultimately show ?thesis
    using y bytes_at_1 [OF y1]
    by (simp add: net_receive_def bdhtcodec_bload_def net_binput_def Let_def del: bencode.simps)
qed

lemma query_names:
  "query_is (ascii ''find_node'') ''announce_peer'' = Inr False" "query_is (ascii ''find_node'') ''get_peers'' = Inr False"
  "query_is (ascii ''find_node'') ''find_node'' = Inr True"
  "query_is (ascii ''get_peers'') ''announce_peer'' = Inr False" "query_is (ascii ''get_peers'') ''get_peers'' = Inr True"
  "query_is (ascii ''ping'') ''announce_peer'' = Inr False" "query_is (ascii ''ping'') ''get_peers'' = Inr False"
  "query_is (ascii ''ping'') ''find_node'' = Inr False" "query_is (ascii ''ping'') ''ping'' = Inr True"
  by (simp_all add: query_is_def ascii_def)

text \<open>The comparison with \<open>tlen\<close> bytes takes the beginning of a name for the name.\<close>

lemma query_prefix: "query_is (ascii ''find'') ''find_node'' = Inr True"
  by (simp add: query_is_def ascii_def)

lemma query_expand_name:
  assumes "is_query d name ident t" and "4 \<le> length name"
  obtains x y where "codec_str (bencode (BT_DICT d)) [ascii ''a'', ascii ''id''] = Inr (Some x)" "snd x = 20"
    "bytes_at (bencode (BT_DICT d)) x = ident"
    "codec_str (bencode (BT_DICT d)) [ascii ''q''] = Inr (Some y)" "\<not> snd y < 4"
    "bytes_at (bencode (BT_DICT d)) y = ascii name"
proof -
  obtain x where x: "codec_str (bencode (BT_DICT d)) [ascii ''a'', ascii ''id''] = Inr (Some x)" "snd x = length ident"
    "bytes_at (bencode (BT_DICT d)) x = ident"
    by (rule is_query_str [OF assms(1) is_queryD(7) [OF assms(1)]])
  obtain y where y: "codec_str (bencode (BT_DICT d)) [ascii ''q''] = Inr (Some y)" "snd y = length (ascii name)"
    "bytes_at (bencode (BT_DICT d)) y = ascii name"
    by (rule is_query_str [OF assms(1) is_queryD(4) [OF assms(1)]])
  have "\<not> snd y < 4" using y(2) assms(2) by (simp add: ascii_def)
  then show ?thesis using x y is_queryD(8) [OF assms(1)] by (intro that) simp_all
qed

text \<open>What the two kinds of search differ in: the key of the target, and what the answer begins with.\<close>

definition search_kind :: "string \<Rightarrow> string \<Rightarrow> btDict \<Rightarrow> bool" where
  "search_kind name key extra \<longleftrightarrow> name = ''find_node'' \<and> key = ''target'' \<and> extra = []
     \<or> name = ''get_peers'' \<and> key = ''info_hash'' \<and> extra = [(ascii ''token'', BT_STRING (ascii ''noown''))]"

definition search_answer :: "dht \<Rightarrow> btDict \<Rightarrow> byte list \<Rightarrow> byte list \<Rightarrow> btObject" where
  "search_answer s extra g t = BT_DICT
     [(ascii ''r'', BT_DICT (extra @ [(ascii ''id'', BT_STRING (b_tableid (table s))),
         (ascii ''nodes'', BT_STRING (concat (map pad_item (contacts_for (now s) (table s) g True))))])),
      (ascii ''t'', BT_STRING t), (ascii ''y'', BT_STRING (ascii ''r''))]"

lemma benc_string_short:
  "length xs < 9 \<Longrightarrow> benc_string (x # xs) = of_nat (48 + length (x # xs)) # 58 # x # xs"
  by (simp add: benc_string_def dec_nat_small ascii_def)

lemma search_answer_text:
  assumes "length (b_tableid (table s)) = 20"
  shows "bencode (search_answer s [] g t) = ascii ''d1:rd2:id20:'' @ b_tableid (table s) @ ascii ''5:nodes''
      @ benc_string (concat (map pad_item (contacts_for (now s) (table s) g True)))
      @ ascii ''e1:t'' @ benc_string t @ ascii ''1:y1:re''"
    "bencode (search_answer s [(ascii ''token'', BT_STRING (ascii ''noown''))] g t)
      = ascii ''d1:rd5:token5:noown2:id20:'' @ b_tableid (table s) @ ascii ''5:nodes''
      @ benc_string (concat (map pad_item (contacts_for (now s) (table s) g True)))
      @ ascii ''e1:t'' @ benc_string t @ ascii ''1:y1:re''"
  by (simp_all add: search_answer_def benc_string_def [of "b_tableid x" for x] assms
      dec_nat_20 benc_string_short ascii_def)

lemma reply_arrays:
  "reply_array 8192 ''d1:rd2:id20:XXXXXXXXXXXXXXXXXXXX5:nodes26:NNNNNNNNNNNNNNNNNNNNNNNNNNe1:t1:01:y1:re''
     = ascii ''d1:rd2:id20:'' @ ascii ''XXXXXXXXXXXXXXXXXXXX'' @ ascii ''5:nodes''
       @ ascii ''26:NNNNNNNNNNNNNNNNNNNNNNNNNNe1:t1:01:y1:re'' @ replicate 8110 0"
  "reply_array 8192 ''d1:rd5:token5:noown2:id20:XXXXXXXXXXXXXXXXXXXX5:nodes26:NNNNNNNNNNNNNNNNNNNNNNNNNNe1:t1:01:y1:re''
     = ascii ''d1:rd5:token5:noown2:id20:'' @ ascii ''XXXXXXXXXXXXXXXXXXXX'' @ ascii ''5:nodes''
       @ ascii ''26:NNNNNNNNNNNNNNNNNNNNNNNNNNe1:t1:01:y1:re'' @ replicate 8096 0"
  by (simp_all add: reply_array_def ascii_def)

section \<open>Properties\<close>

lemma query_expand_search:
  assumes "is_query d name ident t" and "search_kind name key extra"
    and "value_at (BT_DICT d) [ascii ''a'', ascii key] = Some (BT_STRING g)" and "is_id g"
    and "table_ok (table s)" and "8 \<le> length (locals s)" and "length t \<le> 7000"
  shows "gives (answered s (bencode (search_answer s extra g t)) ident a p)
    (query_expand s (bencode (BT_DICT d)) a p)"
proof -
  have name: "4 \<le> length name" using assms(2) by (auto simp: search_kind_def)
  obtain x y where x: "codec_str (bencode (BT_DICT d)) [ascii ''a'', ascii ''id''] = Inr (Some x)" "snd x = 20"
    "bytes_at (bencode (BT_DICT d)) x = ident"
    and y: "codec_str (bencode (BT_DICT d)) [ascii ''q''] = Inr (Some y)" "\<not> snd y < 4"
    "bytes_at (bencode (BT_DICT d)) y = ascii name"
    by (rule query_expand_name [OF assms(1) name])
  obtain z where z: "codec_str (bencode (BT_DICT d)) [ascii ''a'', ascii key] = Inr (Some z)" "snd z = length g"
    "bytes_at (bencode (BT_DICT d)) z = g"
    by (rule is_query_str [OF assms(1,3)])
  obtain u where u: "codec_str (bencode (BT_DICT d)) [ascii ''t''] = Inr (Some u)" "snd u = length t"
    "bytes_at (bencode (BT_DICT d)) u = t"
    by (rule is_query_str [OF assms(1) is_queryD(5) [OF assms(1)]])
  have g: "length g = 20" "is_id ident" "length (b_tableid (table s)) = 20"
    using assms(4,5) is_queryD(8) [OF assms(1)] by (simp_all add: is_id_def table_ok_def)
  have search: "answer_search s (bencode (BT_DICT d)) (ascii key) arr gap ident a p = answer_nodes s arr gap g ident t a p" for arr gap
    using z u g(1) by (simp add: answer_search_def del: bencode.simps)
  note result = answer_nodes_result [OF assms(5,6,4) g(2) _ _ _ _ assms(7)]
  show ?thesis
    using assms(2) unfolding search_kind_def
  proof (elim disjE conjE, goal_cases)
    case 1
    have "query_expand s (bencode (BT_DICT d)) a p = answer_nodes s
        (reply_array 8192 ''d1:rd2:id20:XXXXXXXXXXXXXXXXXXXX5:nodes26:NNNNNNNNNNNNNNNNNNNNNNNNNNe1:t1:01:y1:re'') 0 g ident t a p"
      using x y search 1 by (simp add: query_expand_def query_names Let_def del: bencode.simps)
    then show ?thesis
      using result [OF reply_arrays(1), of 0] g(3) 1 by (simp add: search_answer_text reply_array_def)
  next
    case 2
    have "query_expand s (bencode (BT_DICT d)) a p = answer_nodes s
        (reply_array 8192 ''d1:rd5:token5:noown2:id20:XXXXXXXXXXXXXXXXXXXX5:nodes26:NNNNNNNNNNNNNNNNNNNNNNNNNNe1:t1:01:y1:re'')
        14 g ident t a p"
      using x y search 2 by (simp add: query_expand_def query_names Let_def del: bencode.simps)
    then show ?thesis
      using result [OF reply_arrays(2), of 14] g(3) 2 by (simp add: search_answer_text reply_array_def)
  qed
qed



text \<open>A ship whose task has not asked for an answer yet has no usable \<open>b_thread\<close>.\<close>

lemma early_answer_faults:
  assumes "requests s (b_tid s) = None"
  shows "ship_binput (snd (get_kship s)) (b_tid s) pkg = Inl Oob"
  using assms by (simp add: get_kship_def ship_binput_def Let_def)

definition demo_query :: btDict where
  "demo_query = [(ascii ''a'', BT_DICT [(ascii ''id'', BT_STRING (demo_id 3)), (ascii ''target'', BT_STRING (demo_id 5))]),
     (ascii ''q'', BT_STRING (ascii ''find_node'')), (ascii ''t'', BT_STRING (ascii ''aa'')), (ascii ''y'', BT_STRING (ascii ''q''))]"

definition demo_ping :: btDict where
  "demo_ping = [(ascii ''a'', BT_DICT [(ascii ''id'', BT_STRING (demo_id 3))]),
     (ascii ''q'', BT_STRING (ascii ''ping'')), (ascii ''t'', BT_STRING (ascii ''PPPP'')), (ascii ''y'', BT_STRING (ascii ''q''))]"

definition demo_dht :: dht where
  "demo_dht = \<lparr>table = known_table, requests = Map.empty, b_tid = 0, b_inited = False, ping_node_text = ping_node_init,
     find_node_text = find_node_init, get_peers_text = get_peers_init, outbox = [],
     locals = replicate 8 (contact [] 0 0), now = 7, ping_woken = False\<rparr>"

lemma demo_queries:
  "is_query demo_query ''find_node'' (demo_id 3) (ascii ''aa'')"
  "value_at (BT_DICT demo_query) [ascii ''a'', ascii ''target''] = Some (BT_STRING (demo_id 5))"
  "is_query demo_ping ''ping'' (demo_id 3) (ascii ''PPPP'')"
  by (simp_all add: is_query_def demo_query_def demo_ping_def is_id_def benc_string_def dec_nat_20 dec_nat_small ascii_def
      demo_id_def)


definition demo_answer :: btDict where
  "demo_answer = [(ascii ''r'', BT_DICT [(ascii ''id'', BT_STRING (demo_id 3))]),
     (ascii ''t'', BT_STRING (le32 258)), (ascii ''y'', BT_STRING (ascii ''r''))]"


section \<open>The answer to a ping\<close>

lemma ping_array:
  "reply_array 47 ''d1:rd2:id20:mnopqrstuvwxyz123456e1:t1:01:y1:re''
     = ascii ''d1:rd2:id20:'' @ ascii ''mnopqrstuvwxyz123456'' @ ascii ''e1:t'' @ ascii ''1:01:y1:re'' @ [0]"
  by (simp add: reply_array_def ascii_def)

lemma ping_start:
  assumes "length (b_tableid t) = 20"
  shows "put_bytes (reply_array 47 ''d1:rd2:id20:mnopqrstuvwxyz123456e1:t1:01:y1:re'') 12 (getkadid t)
    = Inr ((ascii ''d1:rd2:id20:'' @ b_tableid t @ ascii ''e1:t'') @ ascii ''1:01:y1:re'' @ [0])"
  unfolding ping_array
  using put_bytes_at [of "ascii ''d1:rd2:id20:''" 12 "ascii ''mnopqrstuvwxyz123456''" "b_tableid t"] assms
  by (simp add: getkadid_def)

definition ping_answer :: "dht \<Rightarrow> byte list \<Rightarrow> btObject" where
  "ping_answer s t = BT_DICT
     [(ascii ''r'', BT_DICT [(ascii ''id'', BT_STRING (b_tableid (table s)))]),
      (ascii ''t'', BT_STRING t), (ascii ''y'', BT_STRING (ascii ''r''))]"

lemma query_expand_ping:
  assumes "is_query d ''ping'' ident t"
  shows "query_expand s (bencode (BT_DICT d)) a p = answer_ping s t a p"
proof -
  obtain x y where x: "codec_str (bencode (BT_DICT d)) [ascii ''a'', ascii ''id''] = Inr (Some x)" "snd x = 20"
    "bytes_at (bencode (BT_DICT d)) x = ident"
    and y: "codec_str (bencode (BT_DICT d)) [ascii ''q''] = Inr (Some y)" "\<not> snd y < 4"
    "bytes_at (bencode (BT_DICT d)) y = ascii ''ping''"
    by (rule query_expand_name [OF assms]) simp
  obtain u where u: "codec_str (bencode (BT_DICT d)) [ascii ''t''] = Inr (Some u)" "snd u = length t"
    "bytes_at (bencode (BT_DICT d)) u = t"
    by (rule is_query_str [OF assms is_queryD(5) [OF assms]])
  show ?thesis
    using x y u by (simp add: query_expand_def query_names Let_def del: bencode.simps)
qed

lemma answer_end_overflows:
  assumes "length arr < off + length (benc_string t) + 7"
  shows "answer_end arr off t = Inl Oob"
  using assms
  by (auto simp: answer_end_def sprintf_len_def put_bytes_def benc_string_def ascii_def Let_def blit_def)

text \<open>
  C38. The answer to a ping is written into an array that is as long as the answer to a transaction
  text of two bytes: such an answer is well-formed, and a longer text, also the one of four bytes
  that this program sends in its own requests, is written behind the end of the array.
\<close>

theorem ping_answer_overflows:
  assumes "is_query d ''ping'' ident t" and "length (b_tableid (table s)) = 20"
  shows "net_receive junk s (bencode (BT_DICT d), a, p)
    = (if length t \<le> 2 then Inr (bsendto s (bencode (ping_answer s t)) a p) else Inl Oob)"
proof (cases "length t \<le> 2")
  case True
  let ?own = "b_tableid (table s)"
  let ?w = "ascii ''d1:rd2:id20:'' @ ?own @ ascii ''e1:t''"
  have b: "begins ?w 47 (?w @ ascii ''1:01:y1:re'' @ [0])" using assms(2) by (simp add: begins_def)
  have t: "length (benc_string t) = length t + 2" using True by (simp add: benc_string_def dec_nat_small)
  have "gives (\<lambda>(k, arr'). begins (?w @ benc_string t @ ascii ''1:y1:re'') 47 arr' \<and> k = length (benc_string t) + 7)
      (answer_end (?w @ ascii ''1:01:y1:re'' @ [0]) 36 t)"
    using answer_end_begins [OF b, of 36 t] assms(2) True t by simp
  then obtain arr where arr: "answer_end (?w @ ascii ''1:01:y1:re'' @ [0]) 36 t = Inr (length t + 9, arr)"
    "take (length t + 45) arr = ?w @ benc_string t @ ascii ''1:y1:re''" "length arr = 47"
    using t assms(2) by (auto simp: gives_iff begins_def add.commute)
  have "bencode (ping_answer s t) = ?w @ benc_string t @ ascii ''1:y1:re''"
    using assms(2) by (simp add: ping_answer_def benc_string_def [of "b_tableid x" for x] dec_nat_20 benc_string_short ascii_def)
  then have "answer_ping s t a p = Inr (bsendto s (bencode (ping_answer s t)) a p)"
    using ping_start [OF assms(2)] arr True by (simp add: answer_ping_def add.commute)
  then show ?thesis using True by (simp add: net_receive_query [OF assms(1)] query_expand_ping [OF assms(1)] del: bencode.simps)
next
  case False
  have "length (benc_string t) = length (dec_nat (length t)) + 1 + length t" by (simp add: benc_string_def)
  moreover have "0 < length (dec_nat (length t))" by (simp add: dec_nat.simps)
  ultimately have "47 < 36 + length (benc_string t) + 7" using False by (simp add: Suc_le_eq flip: length_greater_0_conv)
  then have "answer_ping s t a p = Inl Oob"
    using assms(2) ping_start [OF assms(2)] by (simp add: answer_ping_def answer_end_overflows)
  then show ?thesis using False by (simp add: net_receive_query [OF assms(1)] query_expand_ping [OF assms(1)] del: bencode.simps)
qed

lemma demo_own: "length (b_tableid (table demo_dht)) = 20"
  using known_table_ok by (simp add: demo_dht_def table_ok_def)

theorem ping_answer_overflows_witness:
  "net_receive 0 demo_dht (bencode (BT_DICT demo_ping), 9, 6881) = Inl Oob"
  using ping_answer_overflows [OF demo_queries(3) demo_own, of 0 9 6881]
  by (simp add: ascii_def del: bencode.simps)

section \<open>Our own requests\<close>

text \<open>What a task asks for: the name of the query, the target, the number of its ship and the address.\<close>

datatype ask =
    Ask_ping (ask_tid: "32 word") (ask_host: "32 word") (ask_port: "16 word")
  | Ask_find (ask_target: "byte list") (ask_tid: "32 word") (ask_host: "32 word") (ask_port: "16 word")
  | Ask_peers (ask_target: "byte list") (ask_tid: "32 word") (ask_host: "32 word") (ask_port: "16 word")

fun send_ask :: "dht \<Rightarrow> ask \<Rightarrow> fault + dht" where
  "send_ask s (Ask_ping tid a p) = net_ping_node s tid a p"
| "send_ask s (Ask_find g tid a p) = net_find_node s tid a p g"
| "send_ask s (Ask_peers g tid a p) = net_get_peers s tid a p g"

fun send_asks :: "dht \<Rightarrow> ask list \<Rightarrow> fault + dht" where
  "send_asks s [] = Inr s"
| "send_asks s (r # rs) = bindR (send_ask s r) (\<lambda>s. send_asks s rs)"

fun ask_dict :: "byte list \<Rightarrow> ask \<Rightarrow> btDict" where
  "ask_dict own (Ask_ping tid a p) = request_of own ''ping'' [] tid"
| "ask_dict own (Ask_find g tid a p) = request_of own ''find_node'' [(ascii ''target'', BT_STRING g)] tid"
| "ask_dict own (Ask_peers g tid a p) = request_of own ''get_peers'' [(ascii ''info_hash'', BT_STRING g)] tid"

fun ask_ok :: "ask \<Rightarrow> bool" where
  "ask_ok (Ask_ping tid a p) = True"
| "ask_ok (Ask_find g tid a p) = is_id g"
| "ask_ok (Ask_peers g tid a p) = is_id g"

definition ask_packet :: "byte list \<Rightarrow> ask \<Rightarrow> packet" where
  "ask_packet own r = (bencode (BT_DICT (ask_dict own r)), ask_host r, ask_port r)"

lemma send_ask_sends:
  assumes "texts_ok own s" and "ask_ok r"
  shows "gives (\<lambda>s'. texts_ok own s' \<and> outbox s' = outbox s @ [ask_packet own r] \<and> table s' = table s
      \<and> requests s' = requests s) (send_ask s r)"
proof -
  have own: "is_id own" using assms(1) by (simp add: texts_ok_def)
  show ?thesis
  proof (cases r)
    case (Ask_ping tid a p)
    then show ?thesis
      using net_requests(1) [OF assms(1) own] request_texts(1) [OF own own]
      by (simp add: ask_packet_def del: bencode.simps)
  next
    case (Ask_find g tid a p)
    then show ?thesis
      using net_requests(2) [OF assms(1)] request_texts(2) [OF own] assms(2)
      by (simp add: ask_packet_def del: bencode.simps)
  next
    case (Ask_peers g tid a p)
    then show ?thesis
      using net_requests(3) [OF assms(1)] request_texts(3) [OF own] assms(2)
      by (simp add: ask_packet_def del: bencode.simps)
  qed
qed

lemma send_asks_send:
  "texts_ok own s \<Longrightarrow> \<forall>r\<in>set rs. ask_ok r \<Longrightarrow>
    gives (\<lambda>s'. outbox s' = outbox s @ map (ask_packet own) rs \<and> table s' = table s \<and> requests s' = requests s)
      (send_asks s rs)"
proof (induction rs arbitrary: s)
  case (Cons r rs)
  have "gives (\<lambda>s'. texts_ok own s' \<and> outbox s' = outbox s @ [ask_packet own r] \<and> table s' = table s
      \<and> requests s' = requests s) (send_ask s r)"
    using Cons.prems by (intro send_ask_sends) simp_all
  then show ?case
    unfolding send_asks.simps
    by (rule gives_bind) (use Cons.prems in \<open>auto intro!: gives_mono [OF Cons.IH]\<close>)
qed simp

text \<open>
  C39. Whatever a node asks for after its start, in whatever order, each packet it hands to the socket
  is the bencoded dictionary of the request with our identifier, the target of this request and the
  number of its ship: nothing of an earlier request is left in the texts that are filled in.
\<close>

theorem requests_are_bencoded:
  assumes "is_id (b_tableid (table s))" and "ping_node_text s = ping_node_init"
    and "find_node_text s = find_node_init" and "get_peers_text s = get_peers_init" and "\<forall>r\<in>set rs. ask_ok r"
  shows "gives (\<lambda>s'. outbox s' = outbox s @ map (ask_packet (b_tableid (table s))) rs
      \<and> table s' = table s \<and> requests s' = requests s)
    (bindR (bdhtnet_start s) (\<lambda>s. send_asks s rs))"
proof (rule gives_bind [OF bdhtnet_start_texts [OF assms(1-4)]], goal_cases)
  case (1 s')
  then show ?case using send_asks_send [of "b_tableid (table s)" s' rs] assms(5) by simp
qed

theorem requests_are_bencoded_witness:
  "gives (\<lambda>s'. outbox s' = map (ask_packet (b_tableid (table demo_dht)))
        [Ask_find (demo_id 5) 1 9 6881, Ask_ping 2 8 6881, Ask_find (demo_id 6) 1 7 6881]
      \<and> table s' = table demo_dht \<and> requests s' = Map.empty)
    (bindR (bdhtnet_start demo_dht)
      (\<lambda>s. send_asks s [Ask_find (demo_id 5) 1 9 6881, Ask_ping 2 8 6881, Ask_find (demo_id 6) 1 7 6881]))"
  using requests_are_bencoded [of demo_dht "[Ask_find (demo_id 5) 1 9 6881, Ask_ping 2 8 6881, Ask_find (demo_id 6) 1 7 6881]"]
    demo_own
  by (simp add: demo_dht_def is_id_def demo_id_def)

end
