(* ===== verification/Spec2Isabelle.thy ===== *)
theory Spec2Isabelle
  imports Bt_Random Bt_Bitset Bt_Sha1 Bt_Strbuf Bt_Stream Bt_Bts Bt_Types Bt_Benc Bt_Segmenter
    Bt_Reqqueue Bt_Status Bt_Peer Bt_Context Bt_Proto Bt_Progress Bt_Choke Bt_Client Bt_Util
    Bt_Config Bt_Tracker Bt_Load Bt_Main Bt_Wire Bt_Requests Bt_Kept Bt_Run Dht_Bucket Dht_Codec
    Dht_Net Dht_Search Dht_Table
begin

text \<open>
  Verification library of \<^bold>\<open>ubitcore\<close>: the C BitTorrent client under \<open>src/tools/libbt\<close> (the library
  libbt and its program \<open>btget\<close>), and the routing table and bencoding reader of the C++ DHT node
  under \<open>src/src\<close>.

  \<^bold>\<open>The program.\<close> \<open>btget\<close> reads its configuration, loads the metadata file of each torrent, tells the
  tracker and connects to the peers it learns of. Then it turns in one loop around \<open>poll\<close>: read what has
  arrived, handle each message, write what is queued, choose the peers that may download, see to the
  timers. Every layer below is a source file of its own: bit sets, SHA-1, growable buffers, socket
  streams, memory and file streams, bencoded objects, the layout of pieces over files. The layers call
  downwards only; what they share is the context of \<open>context.h\<close>, which the model passes explicitly.

  \<^bold>\<open>Conventions\<close> (\<open>Bt_Prelude\<close>). A function of the C code is a HOL function of the same name. State
  that it changes is an argument and part of the result. What may end the process or is undefined
  in C is a value of \<open>fault + 'a\<close>: \<open>Abort\<close> for \<open>die\<close>, \<open>assert\<close> and \<open>abort\<close>, \<open>Oob\<close> for an access
  outside an object, a null dereference and the like; error codes that the code returns are ordinary
  results. \<open>arr_get\<close> and \<open>arr_set\<close> are checked accesses; \<open>for_loop\<close> and \<open>find_loop\<close> are the
  counting loops. \<open>holds P m\<close> says that \<open>P\<close> is true of the result of \<open>m\<close> when there is one,
  \<open>gives P m\<close> that there is one, too. Numbers of C are \<open>int\<close>, with the wrap to 32 bits written out
  where values come from outside; bytes and the arithmetic of SHA-1 are words.

  \<^bold>\<open>Theories and files.\<close>
  \<^item> \<open>Bt_Random\<close>: \<open>rnd\<close> of \<open>random.c\<close>. \<open>Bt_Bitset\<close>: \<open>bitset.c\<close>, with the set of numbers a
    bit set stands for; ranges, tests, counting and the choice of a block are shown over that set.
  \<^item> \<open>Bt_Sha1\<close>: \<open>sha1.c\<close>; the streaming code with its rolling window of 16 words is proved equal to
    the definition of FIPS 180, which stands beside it.
  \<^item> \<open>Bt_Strbuf\<close>, \<open>Bt_Stream\<close>: \<open>strbuf.c\<close> and \<open>stream.c\<close>. The kernel's end of a socket is a script
    of what each call will do; the streams are shown to lose and reorder nothing.
  \<^item> \<open>Bt_Bts\<close>, \<open>Bt_Types\<close>, \<open>Bt_Benc\<close>: \<open>bts.c\<close>, \<open>types.c\<close>, \<open>benc.c\<close>. Streams are sources and sinks
    (locales \<open>byte_source\<close>, \<open>byte_sink\<close>), dictionaries are lookup tables (locale \<open>lookup_table\<close>), and
    the bencoder is shown to write the bencoding, to read it back, and to be safe on every input.
  \<^item> \<open>Bt_Segmenter\<close>: \<open>segmenter.c\<close>, pieces over files, partial pieces, verification. The store is a
    step relation whose invariant says that complete pieces are on the disk with their digest.
  \<^item> \<open>Bt_Reqqueue\<close>: the ring of requests of \<open>peer.c\<close>, refining the locale \<open>bounded_fifo\<close>.
    \<open>Bt_Status\<close>: the \<open>pollfd\<close> table of \<open>context.c\<close>, a step relation over sockets opened and closed.
  \<^item> \<open>Bt_Peer\<close>, \<open>Bt_Context\<close>, \<open>Bt_Proto\<close>: \<open>peer.c\<close>, the messages sent, the choice of pieces and
    requests, handshake, frames and the handler of every message. \<open>Bt_Progress\<close>, \<open>Bt_Wire\<close> and
    \<open>Bt_Requests\<close> hold what is shown of them: reading takes bytes from the front, so the reading loop
    ends; what one peer sends the other receives; requests stay inside their piece.
  \<^item> \<open>Bt_Choke\<close>: \<open>peer_favorites\<close>. \<open>Bt_Client\<close>, \<open>Bt_Main\<close>: the life of a connection and the
    loop of \<open>btget.c\<close>. \<open>Bt_Config\<close>, \<open>Bt_Tracker\<close>, \<open>Bt_Load\<close>: the rest of \<open>context.c\<close>.
    \<open>Bt_Util\<close>: \<open>util.c\<close> and \<open>bterror.c\<close>.
  \<^item> \<open>Bt_Kept\<close> and \<open>Bt_Run\<close>: what survives a run. The locale \<open>kept\<close> states which steps the protocol
    takes on the torrents and the disk, \<open>kept_running\<close> extends it by the connection tables; each
    handler up to the whole main loop is shown once to keep such a predicate. It is interpreted on the
    invariant of the store, on the tables and on the identity of the client.
  \<^item> \<open>Dht_Bucket\<close>, \<open>Dht_Table\<close>, \<open>Dht_Search\<close>: \<open>knode.cc\<close>, \<open>kbucket.cc\<close>, \<open>ktable.cc\<close> and the identifiers of
    \<open>btkad.cc\<close> under \<open>src/src/btdht\<close>. The operations of a bucket keep any predicate on identifiers
    (locale \<open>bucket_ids\<close>, interpreted for each slot of the table), so the table is in order in every
    state its step relation reaches; a search is shown to return the closest contacts.
  \<^item> \<open>Dht_Codec\<close>: \<open>btcodec.cc\<close>, the other reader of bencoded text; it is shown to stay in its text and to
    read what the writer of libbt (\<open>Bt_Benc\<close>) produces, so the two programs agree on the format.
  \<^item> \<open>Dht_Net\<close>: \<open>provider.cc\<close>, \<open>transfer.cc\<close> and the functions of \<open>btkad.cc\<close> between the tasks and the
    table. Packets are byte lists with an address and a port; the texts that requests are written into,
    the buffers of the answers and the queues of the ships are as in the code, a write behind a buffer is
    a fault. The packets sent are shown to be the bencoding of what is meant, queries to be answered from
    the table, and answers to reach the ship whose number they quote.
  \<^bold>\<open>Bounds and termination.\<close> Every loop of the model is total. Counting loops are \<open>for_loop\<close> and
  \<open>find_loop\<close>. The readers of bencoded text recurse with the number of bytes left as their bound, which
  the code cannot reach since each object takes at least one byte. The loop that reads messages has as
  its measure the bytes buffered and still to arrive on the socket; \<open>Bt_Progress\<close> shows that every turn
  that goes on takes some. The main loop runs for a list of turns, one for each return of \<open>poll\<close>,
  so a statement about every list is one about every moment of a run that need not end.

  \<^bold>\<open>Parameters.\<close> What the operating system and other libraries do is an argument: the
  results of socket calls, the clock, the answer of libcurl and of \<open>getaddrinfo\<close>, random numbers, the
  bytes of files. The only global hypotheses are the ones a property states.

  \<^bold>\<open>Not modelled.\<close> \<open>block.c\<close> (not built; it does not compile), \<open>btlist.c\<close> and \<open>btcheck.c\<close> (they
  print), \<open>curl.h\<close> (vendored), functions that only print or free, option parsing and signal handlers,
  the entropy of \<open>randomid\<close>; of the C++ program the cooperative threads and the sockets (system
  calls and timers), the packet services on top of them, the test programs and the builder.
\<close>

end
